(* ===== verification/Prelude.thy ===== *)
theory Prelude
  imports Main "HOL-Library.AList"
begin

text \<open>
  What every component shares: JSON values with the reads and coercions the front end applies to
  them, the string operations of the JavaScript standard library that the code uses, insertion
  ordered maps (\<open>Map\<close>), and the contract of an incremental accumulator that folds a log of events
  batch by batch.

  A JavaScript string is a \<open>string\<close> (a list of 8-bit code units, so text outside Latin-1 is not
  represented). An absent field (\<open>undefined\<close> or \<open>null\<close>) of a typed record is \<open>None\<close>.
\<close>

named_theorems unfold_model \<open>definitions of predicates that proofs about the model unfold\<close>

section \<open>Strings\<close>

text \<open>White space as \<open>String.prototype.trim\<close> and the class \<open>\s\<close> see it, within Latin-1.\<close>

definition js_space :: "char \<Rightarrow> bool" where
  "js_space c \<longleftrightarrow> c \<in> set [CHR 0x09, CHR 0x0A, CHR 0x0B, CHR 0x0C, CHR 0x0D, CHR 0x20, CHR 0xA0]"

definition js_newline :: "char \<Rightarrow> bool" where
  "js_newline c \<longleftrightarrow> c = CHR 0x0A \<or> c = CHR 0x0D"

definition trim_start :: "string \<Rightarrow> string" where
  "trim_start s = dropWhile js_space s"

definition trim :: "string \<Rightarrow> string" where
  "trim s = rev (dropWhile js_space (rev (dropWhile js_space s)))"

text \<open>\<open>toLowerCase\<close> on Latin-1: the ASCII letters and the accented capitals.\<close>

definition lower_char :: "char \<Rightarrow> char" where
  "lower_char c = (let n = of_char c :: nat in
     if (65 \<le> n \<and> n \<le> 90) \<or> (192 \<le> n \<and> n \<le> 222 \<and> n \<noteq> 215) then char_of (n + 32) else c)"

definition to_lower :: "string \<Rightarrow> string" where
  "to_lower s = map lower_char s"

definition starts_with :: "string \<Rightarrow> string \<Rightarrow> bool" where
  "starts_with p s \<longleftrightarrow> take (length p) s = p"

definition ends_with :: "string \<Rightarrow> string \<Rightarrow> bool" where
  "ends_with p s \<longleftrightarrow> starts_with (rev p) (rev s)"

text \<open>\<open>split_on p s\<close> is the text before and after the first occurrence of \<open>p\<close>, if there is one.\<close>

fun split_on :: "string \<Rightarrow> string \<Rightarrow> (string \<times> string) option" where
  "split_on p [] = (if p = [] then Some ([], []) else None)"
| "split_on p (c # cs) =
     (if starts_with p (c # cs) then Some ([], drop (length p) (c # cs))
      else map_option (\<lambda>(a, b). (c # a, b)) (split_on p cs))"

definition str_includes :: "string \<Rightarrow> string \<Rightarrow> bool" where
  "str_includes p s \<longleftrightarrow> split_on p s \<noteq> None"

lemma starts_with_iff: "starts_with p s \<longleftrightarrow> (\<exists>r. s = p @ r)"
  unfolding starts_with_def by (metis append_eq_conv_conj append_take_drop_id)

lemma split_on_Some: "split_on p s = Some (a, b) \<Longrightarrow> s = a @ p @ b"
proof (induction p s arbitrary: a b rule: split_on.induct)
  case (1 p)
  then show ?case by (auto split: if_splits)
next
  case (2 p c cs)
  show ?case
  proof (cases "starts_with p (c # cs)")
    case True
    with "2.prems" show ?thesis by (auto simp: starts_with_iff)
  next
    case False
    with 2 show ?thesis by auto
  qed
qed

lemma split_on_None: "split_on p s = None \<Longrightarrow> s \<noteq> a @ p @ b"
proof (induction p s arbitrary: a rule: split_on.induct)
  case (1 p)
  then show ?case by (auto split: if_splits)
next
  case (2 p c cs)
  then show ?case
    by (cases a) (auto simp: starts_with_iff split: if_splits)
qed

lemma split_on_shorter: "split_on p s = Some (a, b) \<Longrightarrow> p \<noteq> [] \<Longrightarrow> length b < length s"
  by (drule split_on_Some) simp

lemma str_includes_iff: "str_includes p s \<longleftrightarrow> (\<exists>a b. s = a @ p @ b)"
  unfolding str_includes_def using split_on_Some split_on_None by (metis not_None_eq surj_pair)

lemma trim_Nil [simp]: "trim [] = []"
  by (simp add: trim_def)

text \<open>An optional string as a condition: absent and empty are falsy.\<close>

fun nonempty :: "string option \<Rightarrow> bool" where
  "nonempty None = False"
| "nonempty (Some s) = (s \<noteq> [])"

lemma nonempty_iff: "nonempty x \<longleftrightarrow> (\<exists>s. x = Some s \<and> s \<noteq> [])"
  by (cases x) auto

definition str_or :: "string option \<Rightarrow> string \<Rightarrow> string" where
  "str_or x d = (case x of None \<Rightarrow> d | Some s \<Rightarrow> s)"

text \<open>Decimal digits of a number, as \<open>String(n)\<close> writes them.\<close>

definition digit_char :: "nat \<Rightarrow> char" where
  "digit_char n = char_of (48 + n)"

fun nat_digits :: "nat \<Rightarrow> string" where
  "nat_digits n = (if n < 10 then [digit_char n] else nat_digits (n div 10) @ [digit_char (n mod 10)])"

declare nat_digits.simps [simp del]

definition int_digits :: "int \<Rightarrow> string" where
  "int_digits i = (if i < 0 then ''-'' @ nat_digits (nat (- i)) else nat_digits (nat i))"

section \<open>JSON values\<close>

text \<open>
  Tool inputs, structured tool results and message payloads arrive as parsed JSON; \<open>JUndef\<close> is
  \<open>undefined\<close>, what a missing property reads as. Numbers are integers here: the code uses them as
  ids, counts and milliseconds.
\<close>

datatype jval =
    JUndef
  | JNull
  | JBool bool
  | JNum int
  | JStr string
  | JArr "jval list"
  | JObj "(string \<times> jval) list"

text \<open>\<open>v?.k\<close> on a parsed value; a primitive has none of the properties the code reads.\<close>

fun jget :: "jval \<Rightarrow> string \<Rightarrow> jval" where
  "jget (JObj fs) k = (case map_of fs k of None \<Rightarrow> JUndef | Some v \<Rightarrow> v)"
| "jget _ k = JUndef"

fun truthy :: "jval \<Rightarrow> bool" where
  "truthy JUndef = False"
| "truthy JNull = False"
| "truthy (JBool b) = b"
| "truthy (JNum n) = (n \<noteq> 0)"
| "truthy (JStr s) = (s \<noteq> [])"
| "truthy (JArr _) = True"
| "truthy (JObj _) = True"

definition jor :: "jval \<Rightarrow> jval \<Rightarrow> jval" where
  "jor a b = (if truthy a then a else b)"

definition nullish :: "jval \<Rightarrow> bool" where
  "nullish v \<longleftrightarrow> v = JUndef \<or> v = JNull"

definition jcoalesce :: "jval \<Rightarrow> jval \<Rightarrow> jval" where
  "jcoalesce a b = (if nullish a then b else a)"

fun is_jstr :: "jval \<Rightarrow> bool" where
  "is_jstr (JStr _) = True"
| "is_jstr _ = False"

fun is_jarr :: "jval \<Rightarrow> bool" where
  "is_jarr (JArr _) = True"
| "is_jarr _ = False"

fun jelems :: "jval \<Rightarrow> jval list" where
  "jelems (JArr vs) = vs"
| "jelems _ = []"

fun intercalate :: "string \<Rightarrow> string list \<Rightarrow> string" where
  "intercalate sep [] = []"
| "intercalate sep [s] = s"
| "intercalate sep (s # t # ss) = s @ sep @ intercalate sep (t # ss)"

text \<open>\<open>String(v)\<close>.\<close>

fun jstring :: "jval \<Rightarrow> string" where
  "jstring JUndef = ''undefined''"
| "jstring JNull = ''null''"
| "jstring (JBool b) = (if b then ''true'' else ''false'')"
| "jstring (JNum n) = int_digits n"
| "jstring (JStr s) = s"
| "jstring (JArr vs) = intercalate '','' (map (\<lambda>v. if nullish v then [] else jstring v) vs)"
| "jstring (JObj _) = ''[object Object]''"

lemma truthy_not_nullish: "truthy v \<Longrightarrow> \<not> nullish v"
  by (auto simp: nullish_def)

lemma concat_map_concat: "concat (map f (concat xss)) = concat (map (\<lambda>xs. concat (map f xs)) xss)"
  by (induction xss) simp_all

section \<open>Splitting and joining\<close>

text \<open>\<open>s.split(d)\<close> at a character; \<open>intercalate\<close> is \<open>join\<close>.\<close>

fun split_char :: "char \<Rightarrow> string \<Rightarrow> string list" where
  "split_char d [] = [[]]"
| "split_char d (c # cs) =
     (if c = d then [] # split_char d cs
      else case split_char d cs of w # ws \<Rightarrow> (c # w) # ws | [] \<Rightarrow> [[c]])"

lemma split_char_not_Nil [simp]: "split_char d s \<noteq> []"
  by (induction s) (auto split: list.splits)

lemma split_char_plain: "d \<notin> set s \<Longrightarrow> split_char d s = [s]"
  by (induction s) auto

lemma split_char_append: "split_char d (a @ d # b) = split_char d a @ split_char d b"
  by (induction a) (auto split: list.splits)

lemma split_char_parts: "w \<in> set (split_char d s) \<Longrightarrow> d \<notin> set w"
  by (induction s arbitrary: w) (auto split: list.splits if_splits)

lemma intercalate_append:
  "xs \<noteq> [] \<Longrightarrow> ys \<noteq> [] \<Longrightarrow> intercalate sep (xs @ ys) = intercalate sep xs @ sep @ intercalate sep ys"
proof (induction sep xs rule: intercalate.induct)
  case (2 sep s)
  then show ?case by (cases ys) auto
qed auto

lemma intercalate_Cons_Nil: "ws \<noteq> [] \<Longrightarrow> intercalate sep ([] # ws) = sep @ intercalate sep ws"
  by (cases ws) simp_all

lemma intercalate_Cons_Cons: "intercalate sep ((c # w) # ws) = c # intercalate sep (w # ws)"
  by (cases ws) simp_all

lemma intercalate_split: "intercalate [d] (split_char d s) = s"
proof (induction s)
  case (Cons c cs)
  then show ?case
    by (cases "split_char d cs") (simp_all add: intercalate_Cons_Nil intercalate_Cons_Cons del: intercalate.simps)
qed simp

lemma split_intercalate:
  "ws \<noteq> [] \<Longrightarrow> (\<forall>w \<in> set ws. d \<notin> set w) \<Longrightarrow> split_char d (intercalate [d] ws) = ws"
  by (induction "[d]" ws rule: intercalate.induct) (simp_all add: split_char_plain split_char_append)

section \<open>Lists updated by index\<close>

definition update_at :: "nat \<Rightarrow> ('a \<Rightarrow> 'a) \<Rightarrow> 'a list \<Rightarrow> 'a list" where
  "update_at i f xs = xs[i := f (xs ! i)]"

lemma length_update_at [simp]: "length (update_at i f xs) = length xs"
  by (simp add: update_at_def)

lemma nth_update_at: "j < length xs \<Longrightarrow> update_at i f xs ! j = (if i = j then f (xs ! j) else xs ! j)"
  by (simp add: update_at_def nth_list_update)

lemma update_at_append_left: "i < length xs \<Longrightarrow> update_at i f (xs @ ys) = update_at i f xs @ ys"
  by (simp add: update_at_def list_update_append nth_append)

lemma map_update_at: "(\<And>x. g (f x) = g x) \<Longrightarrow> map g (update_at i f xs) = map g xs"
  by (rule nth_equalityI) (simp_all add: nth_update_at)

lemma filter_update_at:
  "i < length xs \<Longrightarrow> \<not> p (xs ! i) \<Longrightarrow> \<not> p (f (xs ! i)) \<Longrightarrow> filter p (update_at i f xs) = filter p xs"
proof (induction xs arbitrary: i)
  case Nil
  then show ?case by simp
next
  case (Cons x xs)
  then show ?case by (cases i) (auto simp: update_at_def)
qed

text \<open>\<open>findIndex\<close>, with \<open>None\<close> for -1.\<close>

fun find_index :: "('a \<Rightarrow> bool) \<Rightarrow> 'a list \<Rightarrow> nat option" where
  "find_index p [] = None"
| "find_index p (x # xs) = (if p x then Some 0 else map_option Suc (find_index p xs))"

lemma find_index_None: "find_index p xs = None \<longleftrightarrow> (\<forall>x \<in> set xs. \<not> p x)"
  by (induction xs) auto

lemma find_index_Some:
  "find_index p xs = Some i \<Longrightarrow> i < length xs \<and> p (xs ! i) \<and> (\<forall>j < i. \<not> p (xs ! j))"
  by (induction xs arbitrary: i) (auto simp: nth_Cons' split: if_splits)

text \<open>\<open>findLastIndex\<close>-style search: the last element of a list that satisfies a predicate.\<close>

fun last_index :: "('a \<Rightarrow> bool) \<Rightarrow> 'a list \<Rightarrow> nat option" where
  "last_index p [] = None"
| "last_index p (x # xs) =
     (case last_index p xs of Some i \<Rightarrow> Some (Suc i) | None \<Rightarrow> if p x then Some 0 else None)"

lemma last_index_append:
  "last_index p (xs @ ys) =
     (case last_index p ys of Some i \<Rightarrow> Some (length xs + i) | None \<Rightarrow> last_index p xs)"
  by (induction xs) (auto split: option.splits)

lemma last_index_None: "last_index p xs = None \<longleftrightarrow> (\<forall>x \<in> set xs. \<not> p x)"
  by (induction xs) (auto split: option.splits)

lemma last_index_Some:
  "last_index p xs = Some i \<Longrightarrow> i < length xs \<and> p (xs ! i) \<and> (\<forall>j. i < j \<longrightarrow> j < length xs \<longrightarrow> \<not> p (xs ! j))"
proof (induction xs arbitrary: i)
  case Nil
  then show ?case by simp
next
  case (Cons x xs)
  show ?case
  proof (cases "last_index p xs")
    case None
    with Cons.prems have "i = 0" "p x" by (auto split: if_splits)
    with None show ?thesis by (auto simp: last_index_None nth_Cons' all_set_conv_all_nth)
  next
    case (Some k)
    with Cons.prems have i: "i = Suc k" by simp
    with Cons.IH [OF Some] show ?thesis by (auto simp: nth_Cons' split: if_splits)
  qed
qed

lemma find_SomeD: "find p xs = Some x \<Longrightarrow> p x \<and> x \<in> set xs"
  by (induction xs) (auto split: if_splits)

section \<open>Lists of results\<close>

lemma those_Some: "those xs = Some ys \<longleftrightarrow> xs = map Some ys"
  by (induction xs arbitrary: ys) (auto split: option.splits simp: Cons_eq_map_conv)

lemma those_None: "those xs = None \<longleftrightarrow> None \<in> set xs"
  by (induction xs) (auto split: option.splits)

lemma those_map_None: "those (map f xs) = None \<longleftrightarrow> (\<exists>x \<in> set xs. f x = None)"
  by (induction xs) (auto split: option.splits)

lemma those_map_map_option: "those (map (\<lambda>x. map_option f (g x)) xs) = map_option (map f) (those (map g xs))"
  by (induction xs) (auto split: option.splits simp: option.map_comp comp_def)

lemma those_map_mono:
  assumes "\<And>x y. x \<in> set xs \<Longrightarrow> f x = Some y \<Longrightarrow> g x = Some y" and "those (map f xs) = Some ys"
  shows "those (map g xs) = Some ys"
  using assms by (induction xs arbitrary: ys) (auto split: option.splits)

lemma map_enumerate_snd: "map (\<lambda>(i, x). f x) (enumerate n xs) = map f xs"
  by (induction xs arbitrary: n) auto

lemma those_concat_parts:
  assumes "those (map f xs) = Some yss"
    and "\<And>x ys. x \<in> set xs \<Longrightarrow> f x = Some ys \<Longrightarrow> g x = Some (h ys)"
  shows "those (map g xs) = Some (map h yss)"
  using assms by (induction xs arbitrary: yss) (auto split: option.splits)

section \<open>Incremental accumulators\<close>

text \<open>
  Most derived state of a session is maintained by a function \<open>append\<close> that takes the state and a
  batch of events. What every consumer relies on is that the state depends on the log alone and not
  on where the batches were cut. \<open>batch_fold\<close> is that contract; any partition of a log then leads
  to the same state.
\<close>

locale batch_fold =
  fixes app :: "'s \<Rightarrow> 'e list \<Rightarrow> 's"
  assumes app_nil: "app s [] = s"
    and app_append: "app s (xs @ ys) = app (app s xs) ys"
begin

lemma app_batches: "foldl app s bs = app s (concat bs)"
  by (induction bs arbitrary: s) (simp_all add: app_nil app_append)

lemma app_same_log: "concat bs = concat cs \<Longrightarrow> foldl app s bs = foldl app s cs"
  by (simp add: app_batches)

lemma app_is_foldl: "app s xs = foldl (\<lambda>s x. app s [x]) s xs"
  by (induction xs rule: rev_induct) (simp_all add: app_nil app_append)

lemma app_invariant:
  assumes step: "\<And>s x. P s \<Longrightarrow> P (app s [x])" and base: "P s"
  shows "P (app s xs)"
proof (induction xs rule: rev_induct)
  case Nil
  then show ?case using base by (simp add: app_nil)
next
  case (snoc x xs)
  then show ?case using step by (simp add: app_append)
qed

end

end
