(* ===== verification/Events.thy ===== *)
theory Events
  imports Prelude
begin

text \<open>
  The event vocabulary of \<open>config/schema.js\<close> and the predicates of \<open>utils/eventPredicates.js\<close> and
  \<open>utils/eventProcessing.js\<close> that classify an event: who authored it, whether it starts or ends a
  response, whether the chat shows it.
\<close>

section \<open>Vocabulary\<close>

datatype event_type = Ty_ASSISTANT | Ty_USER | Ty_SYSTEM | Ty_RESULT | Ty_other string

datatype event_subtype =
    Sub_TEXT | Sub_THINKING | Sub_TOOL_USE | Sub_TOOL_RESULT
  | Sub_REPLAY_STARTED | Sub_REPLAY_ENDED | Sub_INTERRUPT_SENT
  | Sub_MODEL_CHANGED | Sub_PERMISSION_MODE_CHANGED | Sub_EFFORT_LEVEL_CHANGED
  | Sub_CONTAINER_RESTARTED | Sub_TASK_NOTIFICATION | Sub_HOOK_RESPONSE | Sub_INIT
  | Sub_COMPACT_START | Sub_COMPACT_BOUNDARY | Sub_ERROR
  | Sub_other string

text \<open>The wire strings. \<open>type_of_wire\<close> and \<open>subtype_of_wire\<close> are what comparing the raw string with
  each constant amounts to.\<close>

fun type_wire :: "event_type \<Rightarrow> string" where
  "type_wire Ty_ASSISTANT = ''assistant''"
| "type_wire Ty_USER = ''user''"
| "type_wire Ty_SYSTEM = ''system''"
| "type_wire Ty_RESULT = ''result''"
| "type_wire (Ty_other s) = s"

definition known_types :: "event_type list" where
  "known_types = [Ty_ASSISTANT, Ty_USER, Ty_SYSTEM, Ty_RESULT]"

definition type_of_wire :: "string \<Rightarrow> event_type" where
  "type_of_wire s = (case find (\<lambda>t. type_wire t = s) known_types of Some t \<Rightarrow> t | None \<Rightarrow> Ty_other s)"

fun subtype_wire :: "event_subtype \<Rightarrow> string" where
  "subtype_wire Sub_TEXT = ''text''"
| "subtype_wire Sub_THINKING = ''thinking''"
| "subtype_wire Sub_TOOL_USE = ''tool_use''"
| "subtype_wire Sub_TOOL_RESULT = ''tool_result''"
| "subtype_wire Sub_REPLAY_STARTED = ''replay_started''"
| "subtype_wire Sub_REPLAY_ENDED = ''replay_ended''"
| "subtype_wire Sub_INTERRUPT_SENT = ''interrupt_sent''"
| "subtype_wire Sub_MODEL_CHANGED = ''model_changed''"
| "subtype_wire Sub_PERMISSION_MODE_CHANGED = ''permission_mode_changed''"
| "subtype_wire Sub_EFFORT_LEVEL_CHANGED = ''effort_level_changed''"
| "subtype_wire Sub_CONTAINER_RESTARTED = ''container_restarted''"
| "subtype_wire Sub_TASK_NOTIFICATION = ''task_notification''"
| "subtype_wire Sub_HOOK_RESPONSE = ''hook_response''"
| "subtype_wire Sub_INIT = ''init''"
| "subtype_wire Sub_COMPACT_START = ''compact_start''"
| "subtype_wire Sub_COMPACT_BOUNDARY = ''compact_boundary''"
| "subtype_wire Sub_ERROR = ''error''"
| "subtype_wire (Sub_other s) = s"

definition known_subtypes :: "event_subtype list" where
  "known_subtypes =
     [Sub_TEXT, Sub_THINKING, Sub_TOOL_USE, Sub_TOOL_RESULT, Sub_REPLAY_STARTED, Sub_REPLAY_ENDED,
      Sub_INTERRUPT_SENT, Sub_MODEL_CHANGED, Sub_PERMISSION_MODE_CHANGED, Sub_EFFORT_LEVEL_CHANGED,
      Sub_CONTAINER_RESTARTED, Sub_TASK_NOTIFICATION, Sub_HOOK_RESPONSE, Sub_INIT,
      Sub_COMPACT_START, Sub_COMPACT_BOUNDARY, Sub_ERROR]"

definition subtype_of_wire :: "string \<Rightarrow> event_subtype" where
  "subtype_of_wire s =
     (case find (\<lambda>t. subtype_wire t = s) known_subtypes of Some t \<Rightarrow> t | None \<Rightarrow> Sub_other s)"

text \<open>
  A parsed event. \<open>content\<close> is the text (or the tool name of a \<open>tool_use\<close>), \<open>None\<close> when absent. \<open>ts\<close> is
  the event's original time and \<open>timestamp\<close> its arrival time, both in milliseconds; \<open>ts\<close> stands for
  the number \<open>new Date(event.ts).getTime()\<close> yields for the ISO text the server sent. \<open>is_human\<close>,
  \<open>is_error\<close> and the two read-only markers are read as conditions only.
\<close>

record event =
  ev_id :: "string option"
  ev_type :: event_type
  ev_subtype :: event_subtype
  content :: "string option"
  is_human :: bool
  tool_use_id :: "string option"
  parent_tool_use_id :: "string option"
  ev_turn_id :: "string option"
  source_file :: "string option"
  is_error :: bool
  ts :: "int option"
  timestamp :: "int option"
  tool_input :: jval
  tool_use_result :: jval
  message_data :: jval
  ev_attachments :: jval
  inline_replies :: jval
  ev_note :: jval
  turn_running :: "bool option"
  previous_model :: "string option"
  previous_permission_mode :: "string option"
  previous_effort_level :: "string option"
  mcp_read_only :: bool
  command_read_only :: bool
  command_changed :: "bool option"

definition blank_event :: event where
  "blank_event = \<lparr>ev_id = None, ev_type = Ty_ASSISTANT, ev_subtype = Sub_TEXT, content = None,
     is_human = False, tool_use_id = None, parent_tool_use_id = None, ev_turn_id = None,
     source_file = None, is_error = False, ts = None, timestamp = None, tool_input = JUndef,
     tool_use_result = JUndef, message_data = JUndef, ev_attachments = JUndef,
     inline_replies = JUndef, ev_note = JUndef, turn_running = None, previous_model = None,
     previous_permission_mode = None, previous_effort_level = None, mcp_read_only = False,
     command_read_only = False, command_changed = None\<rparr>"

text \<open>The event's original time, falling back to its arrival time (\<open>eventTimeMs\<close>).\<close>

definition eventTimeMs :: "event \<Rightarrow> int option" where
  "eventTimeMs e = (case ts e of Some t \<Rightarrow> Some t | None \<Rightarrow> timestamp e)"

section \<open>Predicates\<close>

definition isHumanEvent :: "event \<Rightarrow> bool" where
  "isHumanEvent e \<longleftrightarrow> ev_type e = Ty_USER \<and> is_human e"

definition isRespondingEvent :: "event \<Rightarrow> bool" where
  "isRespondingEvent e \<longleftrightarrow> ev_type e = Ty_ASSISTANT \<and> \<not> nonempty (parent_tool_use_id e)"

definition isDoneRespondingEvent :: "event \<Rightarrow> bool" where
  "isDoneRespondingEvent e \<longleftrightarrow>
     ev_type e = Ty_RESULT \<or> (ev_type e = Ty_SYSTEM \<and> ev_subtype e = Sub_ERROR)"

text \<open>\<open>toolUseResult?.isAsync || toolUseResult?.status === 'async_launched'\<close>, used as a condition.\<close>

definition isAsyncTask :: "jval \<Rightarrow> bool" where
  "isAsyncTask r \<longleftrightarrow> truthy (jget r ''isAsync'') \<or> jget r ''status'' = JStr ''async_launched''"

text \<open>A nested event belongs to a subagent's call, not to the conversation itself.\<close>

abbreviation nested :: "event \<Rightarrow> bool" where
  "nested e \<equiv> nonempty (parent_tool_use_id e)"

definition opensTurn :: "event \<Rightarrow> bool" where
  "opensTurn e \<longleftrightarrow> isHumanEvent e \<and> \<not> nested e"

definition isContainerRestart :: "event \<Rightarrow> bool" where
  "isContainerRestart e \<longleftrightarrow> ev_type e = Ty_SYSTEM \<and> ev_subtype e = Sub_CONTAINER_RESTARTED"

definition isSettlingEvent :: "event \<Rightarrow> bool" where
  "isSettlingEvent e \<longleftrightarrow> isDoneRespondingEvent e \<or> (isHumanEvent e \<and> \<not> nested e)"

definition SETTING_CHANGE_SUBTYPES :: "event_subtype list" where
  "SETTING_CHANGE_SUBTYPES =
     [Sub_MODEL_CHANGED, Sub_PERMISSION_MODE_CHANGED, Sub_EFFORT_LEVEL_CHANGED, Sub_CONTAINER_RESTARTED]"

definition isSettingChangeOrRestart :: "event \<Rightarrow> bool" where
  "isSettingChangeOrRestart e \<longleftrightarrow>
     ev_type e = Ty_SYSTEM \<and> ev_subtype e \<in> set SETTING_CHANGE_SUBTYPES"

definition isSettingInit :: "event \<Rightarrow> bool" where
  "isSettingInit e =
     (if ev_subtype e = Sub_MODEL_CHANGED then previous_model e = None
      else if ev_subtype e = Sub_PERMISSION_MODE_CHANGED then previous_permission_mode e = None
      else if ev_subtype e = Sub_EFFORT_LEVEL_CHANGED then previous_effort_level e = None
      else False)"

text \<open>\<open>TASK_NOTIFICATION_PATTERN\<close>: leading white space, \<open><task-notification\<close>, then white space or
  the closing bracket.\<close>

definition matches_task_notification :: "string \<Rightarrow> bool" where
  "matches_task_notification s =
     (let t = trim_start s; p = ''<task-notification''
      in starts_with p t \<and>
         (case drop (length p) t of [] \<Rightarrow> False | c # _ \<Rightarrow> js_space c \<or> c = CHR ''>''))"

definition isVisibleEvent :: "event \<Rightarrow> bool" where
  "isVisibleEvent e =
     (if ev_type e = Ty_SYSTEM \<and> (ev_subtype e = Sub_HOOK_RESPONSE \<or> ev_subtype e = Sub_INIT) then False
      else if ev_type e = Ty_USER \<and>
              (case content e of Some s \<Rightarrow> matches_task_notification s | None \<Rightarrow> False) then False
      else ev_type e \<noteq> Ty_RESULT)"

section \<open>The vocabulary is faithful to the wire\<close>

lemma type_of_wire_known: "t \<in> set known_types \<Longrightarrow> type_of_wire (type_wire t) = t"
  by (cases t) (simp_all add: known_types_def type_of_wire_def)

lemma subtype_of_wire_known: "t \<in> set known_subtypes \<Longrightarrow> subtype_of_wire (subtype_wire t) = t"
  by (cases t) (simp_all add: known_subtypes_def subtype_of_wire_def)

lemma subtype_wire_of_wire: "subtype_wire (subtype_of_wire s) = s"
  by (cases "find (\<lambda>t. subtype_wire t = s) known_subtypes") (auto simp: subtype_of_wire_def dest: find_SomeD)

lemma type_wire_of_wire: "type_wire (type_of_wire s) = s"
  by (cases "find (\<lambda>t. type_wire t = s) known_types") (auto simp: type_of_wire_def dest: find_SomeD)

text \<open>No event both starts and ends a response, and a turn is never opened by either.\<close>

lemma responding_exclusive: "isRespondingEvent e \<Longrightarrow> \<not> isDoneRespondingEvent e"
  by (auto simp: isRespondingEvent_def isDoneRespondingEvent_def)

lemma opensTurn_not_responding: "opensTurn e \<Longrightarrow> \<not> isRespondingEvent e \<and> \<not> isDoneRespondingEvent e"
  by (auto simp: opensTurn_def isHumanEvent_def isRespondingEvent_def isDoneRespondingEvent_def)

lemmas event_predicates [unfold_model] =
  isHumanEvent_def isRespondingEvent_def isDoneRespondingEvent_def opensTurn_def
  isContainerRestart_def isSettingChangeOrRestart_def

end
