(* ===== verification/TurnGrouping.thy ===== *)
theory TurnGrouping
  imports Events "HOL-Library.Multiset"
begin

text \<open>
  Turn grouping, \<open>appendTurns\<close> of \<open>utils/eventProcessing.js\<close>: visible events are folded into turns, a
  compaction's events being buffered until a later event establishes the turn they belong to, and
  whatever is still buffered at the end of a batch is flushed into the current turn.

  The code clones a turn before it changes it so that React sees a new object; turns here are values,
  so \<open>cloneTurn\<close> is an update of the list.
\<close>

section \<open>Turns\<close>

record turn =
  turn_id :: "string option"
  userMessage :: "string option"
  turn_events :: "event list"
  settingChanges :: "event list"
  interrupted :: bool
  attachments :: jval
  inlineReplies :: jval
  turn_note :: jval
  userMessageTs :: "int option"

definition createTurn ::
  "string option \<Rightarrow> string option \<Rightarrow> event list \<Rightarrow> jval \<Rightarrow> jval \<Rightarrow> jval \<Rightarrow> int option \<Rightarrow> turn" where
  "createTurn tid msg evs att replies nt mts =
     \<lparr>turn_id = tid, userMessage = msg, turn_events = evs, settingChanges = [], interrupted = False,
      attachments = att, inlineReplies = replies, turn_note = nt, userMessageTs = mts\<rparr>"

text \<open>The grouping state kept between batches (\<open>INITIAL_TURN_GROUPING_STATE\<close>).\<close>

record turn_grouping =
  currentTurnIndex :: "nat option"
  compactionStartTurnIndex :: "nat option"
  pendingCompactionEvents :: "event list option"

definition INITIAL_TURN_GROUPING_STATE :: turn_grouping where
  "INITIAL_TURN_GROUPING_STATE =
     \<lparr>currentTurnIndex = None, compactionStartTurnIndex = None, pendingCompactionEvents = None\<rparr>"

text \<open>The local variables of one run of \<open>appendTurns\<close>.\<close>

record grouping_run =
  run_turns :: "turn list"
  run_current :: "nat option"
  run_compStart :: "nat option"
  run_pending :: "event list"

type_synonym turn_results = "string \<rightharpoonup> event_subtype"

definition pushEvent :: "event \<Rightarrow> turn \<Rightarrow> turn" where
  "pushEvent e t = t\<lparr>turn_events := turn_events t @ [e]\<rparr>"

definition pushSetting :: "event \<Rightarrow> turn \<Rightarrow> turn" where
  "pushSetting e t = t\<lparr>settingChanges := settingChanges t @ [e]\<rparr>"

definition markInterrupted :: "turn \<Rightarrow> turn" where
  "markInterrupted t = t\<lparr>interrupted := True\<rparr>"

text \<open>\<open>flushCompaction\<close>.\<close>

definition flushCompaction :: "nat \<Rightarrow> grouping_run \<Rightarrow> grouping_run" where
  "flushCompaction i g =
     (if run_pending g = [] then g
      else g\<lparr>run_turns := update_at i (\<lambda>t. t\<lparr>turn_events := turn_events t @ run_pending g\<rparr>) (run_turns g),
             run_pending := [], run_compStart := None\<rparr>)"

text \<open>The flush both places share: only when something is buffered and a turn is open.\<close>

definition flushPending :: "grouping_run \<Rightarrow> grouping_run" where
  "flushPending g = (case run_current g of None \<Rightarrow> g | Some i \<Rightarrow> flushCompaction i g)"

text \<open>Whether an \<open>interrupt_sent\<close> marks the current turn: the event's own word when it has one, else
  whether its turn has not already succeeded.\<close>

definition stopsTurn :: "turn_results \<Rightarrow> event \<Rightarrow> bool" where
  "stopsTurn results e =
     (case turn_running e of
        Some b \<Rightarrow> b
      | None \<Rightarrow>
         \<not> (case ev_turn_id e of
              None \<Rightarrow> False
            | Some tid \<Rightarrow> tid \<noteq> [] \<and> results tid = Some (Sub_other ''success'')))"

definition updateCurrent :: "(turn \<Rightarrow> turn) \<Rightarrow> grouping_run \<Rightarrow> grouping_run" where
  "updateCurrent f g =
     (case run_current g of None \<Rightarrow> g | Some i \<Rightarrow> g\<lparr>run_turns := update_at i f (run_turns g)\<rparr>)"

definition joinsTurn :: "event \<Rightarrow> bool" where
  "joinsTurn e \<longleftrightarrow>
     nested e \<or> ev_type e = Ty_ASSISTANT \<or> ev_subtype e = Sub_TOOL_RESULT
     \<or> ev_subtype e = Sub_COMPACT_START \<or> ev_subtype e = Sub_COMPACT_BOUNDARY
     \<or> (ev_type e = Ty_USER \<and> \<not> is_human e) \<or> (ev_type e = Ty_SYSTEM \<and> ev_subtype e = Sub_ERROR)"

text \<open>The branch that places an event in a turn: compaction events are buffered, any other event
  first flushes the buffer, then joins the current turn or opens an orphan one.\<close>

definition placeEvent :: "event \<Rightarrow> grouping_run \<Rightarrow> grouping_run" where
  "placeEvent e g =
     (if ev_subtype e = Sub_COMPACT_START then
        g\<lparr>run_compStart := run_current g, run_pending := run_pending g @ [e]\<rparr>
      else if ev_subtype e = Sub_COMPACT_BOUNDARY then
        g\<lparr>run_pending := run_pending g @ [e]\<rparr>
      else if ev_type e = Ty_USER \<and> \<not> is_human e \<and> run_compStart g \<noteq> None then
        g\<lparr>run_pending := run_pending g @ [e]\<rparr>
      else
        (let g' = flushPending g
         in case run_current g' of
              Some i \<Rightarrow> g'\<lparr>run_turns := update_at i (pushEvent e) (run_turns g')\<rparr>
            | None \<Rightarrow>
                g'\<lparr>run_turns := run_turns g' @
                     [createTurn (ev_turn_id e) None [e] JNull JNull JNull None]\<rparr>))"

text \<open>\<open>v || null\<close> on an optional payload.\<close>

definition or_null :: "jval \<Rightarrow> jval" where
  "or_null v = (if truthy v then v else JNull)"

definition groupEvent :: "turn_results \<Rightarrow> grouping_run \<Rightarrow> event \<Rightarrow> grouping_run" where
  "groupEvent results g e =
     (if isHumanEvent e \<and> \<not> nested e then
        g\<lparr>run_current := Some (length (run_turns g)),
          run_turns := run_turns g @
            [createTurn (ev_turn_id e) (content e) [] (or_null (ev_attachments e))
               (or_null (inline_replies e)) (or_null (ev_note e)) (ts e)]\<rparr>
      else if ev_type e = Ty_SYSTEM \<and> ev_subtype e = Sub_INTERRUPT_SENT then
        (if stopsTurn results e then updateCurrent markInterrupted g else g)
      else if isSettingChangeOrRestart e then
        (if \<not> isSettingInit e then updateCurrent (pushSetting e) g else g)
      else if joinsTurn e then placeEvent e g
      else g)"

definition startRun :: "turn list \<Rightarrow> turn_grouping \<Rightarrow> grouping_run" where
  "startRun turns st =
     \<lparr>run_turns = turns, run_current = currentTurnIndex st,
      run_compStart = compactionStartTurnIndex st,
      run_pending = (case pendingCompactionEvents st of None \<Rightarrow> [] | Some es \<Rightarrow> es)\<rparr>"

definition finishRun :: "grouping_run \<Rightarrow> turn list \<times> turn_grouping" where
  "finishRun g =
     (let g' = flushPending g
      in (run_turns g',
          \<lparr>currentTurnIndex = run_current g', compactionStartTurnIndex = run_compStart g',
           pendingCompactionEvents = None\<rparr>))"

definition appendTurns ::
  "turn list \<Rightarrow> turn_grouping \<Rightarrow> event list \<Rightarrow> turn_results \<Rightarrow> turn list \<times> turn_grouping" where
  "appendTurns prevTurns prevState newVisibleEvents turnResults =
     (if newVisibleEvents = [] then (prevTurns, prevState)
      else finishRun (foldl (groupEvent turnResults) (startRun prevTurns prevState) newVisibleEvents))"

section \<open>What a run keeps\<close>

text \<open>
  The invariant of a run: the current turn exists; something is buffered while a compaction is being
  collected; nothing is buffered while no turn is open.
\<close>

definition compactEvent :: "event \<Rightarrow> bool" where
  "compactEvent e \<longleftrightarrow> ev_subtype e = Sub_COMPACT_START \<or> ev_subtype e = Sub_COMPACT_BOUNDARY"

definition current_valid :: "nat option \<Rightarrow> turn list \<Rightarrow> bool" where
  "current_valid c T \<longleftrightarrow> (case c of None \<Rightarrow> True | Some i \<Rightarrow> i < length T)"

definition run_inv :: "grouping_run \<Rightarrow> bool" where
  "run_inv g \<longleftrightarrow> current_valid (run_current g) (run_turns g)
     \<and> (run_compStart g \<noteq> None \<longrightarrow> run_pending g \<noteq> [])
     \<and> (run_current g = None \<longrightarrow> run_pending g = [])"

lemmas run_updates [unfold_model] =
  flushCompaction_def flushPending_def updateCurrent_def placeEvent_def Let_def

lemma flushPending_fields [simp]:
  "run_current (flushPending g) = run_current g"
  "length (run_turns (flushPending g)) = length (run_turns g)"
  by (auto simp: flushPending_def flushCompaction_def split: option.splits)

lemma flushPending_pending:
  "run_pending (flushPending g) = (if run_current g = None then run_pending g else [])"
  by (auto simp: flushPending_def flushCompaction_def split: option.splits)

lemma flushPending_noop: "run_pending g = [] \<Longrightarrow> flushPending g = g"
  by (auto simp: flushPending_def flushCompaction_def split: option.splits)

lemma flushPending_inv: "run_inv g \<Longrightarrow> run_inv (flushPending g)"
  by (auto simp: run_inv_def flushPending_def flushCompaction_def current_valid_def split: option.splits)

text \<open>After the flush nothing is being collected any more.\<close>

lemma flushPending_closed:
  "run_inv g \<Longrightarrow> run_pending (flushPending g) = [] \<and> run_compStart (flushPending g) = None"
  by (auto simp: run_inv_def flushPending_def flushCompaction_def split: option.splits)

lemma updateCurrent_fields [simp]:
  "run_current (updateCurrent f g) = run_current g"
  "run_pending (updateCurrent f g) = run_pending g"
  "run_compStart (updateCurrent f g) = run_compStart g"
  "length (run_turns (updateCurrent f g)) = length (run_turns g)"
  by (auto simp: updateCurrent_def split: option.splits)

lemma updateCurrent_inv: "run_inv g \<Longrightarrow> run_inv (updateCurrent f g)"
  by (simp add: run_inv_def current_valid_def split: option.splits)

text \<open>The four things \<open>appendTurns\<close> can do with an event.\<close>

lemma groupEvent_cases:
  obtains (opens) t where "opensTurn e"
      "groupEvent R g e = g\<lparr>run_current := Some (length (run_turns g)), run_turns := run_turns g @ [t]\<rparr>"
  | (marks) f where "\<not> opensTurn e" "groupEvent R g e = updateCurrent f g"
  | (places) "\<not> opensTurn e" "joinsTurn e" "groupEvent R g e = placeEvent e g"
  | (skips) "\<not> opensTurn e" "groupEvent R g e = g"
proof -
  consider "opensTurn e"
    | "\<not> opensTurn e" "ev_type e = Ty_SYSTEM \<and> ev_subtype e = Sub_INTERRUPT_SENT"
    | "\<not> opensTurn e" "\<not> (ev_type e = Ty_SYSTEM \<and> ev_subtype e = Sub_INTERRUPT_SENT)"
      "isSettingChangeOrRestart e"
    | "\<not> opensTurn e" "\<not> (ev_type e = Ty_SYSTEM \<and> ev_subtype e = Sub_INTERRUPT_SENT)"
      "\<not> isSettingChangeOrRestart e"
    by blast
  then show thesis
  proof cases
    case 1
    then show ?thesis by (rule opens) (use 1 in \<open>simp add: groupEvent_def opensTurn_def\<close>)
  next
    case 2
    then have "groupEvent R g e = (if stopsTurn R e then updateCurrent markInterrupted g else g)"
      by (simp only: groupEvent_def opensTurn_def if_False if_True simp_thms)
    with 2 show ?thesis using marks skips by (simp split: if_splits)
  next
    case 3
    then have "groupEvent R g e = (if \<not> isSettingInit e then updateCurrent (pushSetting e) g else g)"
      by (simp only: groupEvent_def opensTurn_def if_False if_True simp_thms)
    with 3 show ?thesis using marks skips by (simp split: if_splits)
  next
    case 4
    then have "groupEvent R g e = (if joinsTurn e then placeEvent e g else g)"
      by (simp only: groupEvent_def opensTurn_def if_False if_True simp_thms)
    with 4 show ?thesis using places skips by (simp split: if_splits)
  qed
qed

text \<open>The two things the placing branch can do: buffer the event, or flush and join a turn.\<close>

definition buffers :: "event \<Rightarrow> grouping_run \<Rightarrow> bool" where
  "buffers e g \<longleftrightarrow> compactEvent e \<or> (ev_type e = Ty_USER \<and> \<not> is_human e \<and> run_compStart g \<noteq> None)"

definition joinCurrent :: "event \<Rightarrow> grouping_run \<Rightarrow> grouping_run" where
  "joinCurrent e g =
     (case run_current g of
        Some i \<Rightarrow> g\<lparr>run_turns := update_at i (pushEvent e) (run_turns g)\<rparr>
      | None \<Rightarrow> g\<lparr>run_turns := run_turns g @
          [createTurn (ev_turn_id e) None [e] JNull JNull JNull None]\<rparr>)"

lemma joinCurrent_fields [simp]:
  "run_current (joinCurrent e g) = run_current g"
  "run_pending (joinCurrent e g) = run_pending g"
  "run_compStart (joinCurrent e g) = run_compStart g"
  by (auto simp: joinCurrent_def split: option.splits)

lemma joinCurrent_length: "length (run_turns g) \<le> length (run_turns (joinCurrent e g))"
  by (auto simp: joinCurrent_def split: option.splits)

lemma placeEvent_joins: "\<not> buffers e g \<Longrightarrow> placeEvent e g = joinCurrent e (flushPending g)"
  by (auto simp: placeEvent_def joinCurrent_def buffers_def compactEvent_def Let_def)

lemma placeEvent_buffers:
  "buffers e g \<Longrightarrow> run_pending (placeEvent e g) = run_pending g @ [e]
     \<and> run_turns (placeEvent e g) = run_turns g \<and> run_current (placeEvent e g) = run_current g
     \<and> run_compStart (placeEvent e g) =
         (if ev_subtype e = Sub_COMPACT_START then run_current g else run_compStart g)"
  by (auto simp: placeEvent_def buffers_def compactEvent_def)

lemma placeEvent_inv:
  assumes inv: "run_inv g" and ground: "compactEvent e \<longrightarrow> run_current g \<noteq> None"
  shows "run_inv (placeEvent e g)"
proof (cases "buffers e g")
  case True
  then have "run_current g \<noteq> None"
    using assms by (auto simp: buffers_def run_inv_def)
  with inv placeEvent_buffers [OF True] show ?thesis by (simp add: run_inv_def)
next
  case False
  have "run_inv (flushPending g)" using inv by (rule flushPending_inv)
  with joinCurrent_length [of "flushPending g" e] show ?thesis
    unfolding placeEvent_joins [OF False] run_inv_def current_valid_def
    by (simp split: option.splits)
qed

lemma groupEvent_inv:
  assumes "run_inv g" and "compactEvent e \<longrightarrow> run_current g \<noteq> None"
  shows "run_inv (groupEvent R g e)"
proof (cases rule: groupEvent_cases [of e R g])
  case opens
  with assms(1) show ?thesis by (auto simp: run_inv_def current_valid_def)
next
  case marks
  with assms(1) show ?thesis by (simp add: updateCurrent_inv)
next
  case places
  with assms show ?thesis by (simp add: placeEvent_inv)
qed (use assms in simp)

lemma placeEvent_current [simp]: "run_current (placeEvent e g) = run_current g"
  by (cases "buffers e g") (simp_all add: placeEvent_buffers placeEvent_joins)

lemma groupEvent_current_mono: "run_current g \<noteq> None \<Longrightarrow> run_current (groupEvent R g e) \<noteq> None"
  by (cases rule: groupEvent_cases [of e R g]) auto

lemma groupEvent_opens: "opensTurn e \<Longrightarrow> run_current (groupEvent R g e) \<noteq> None"
  by (simp add: groupEvent_def opensTurn_def)

text \<open>An event that is no part of a compaction never fills an empty buffer.\<close>

lemma groupEvent_pending_empty:
  assumes "run_inv g" and "run_pending g = []" and "\<not> compactEvent e"
  shows "run_pending (groupEvent R g e) = []"
proof (cases rule: groupEvent_cases [of e R g])
  case places
  from assms have "\<not> buffers e g" by (auto simp: buffers_def run_inv_def)
  with places assms(2) show ?thesis by (simp add: placeEvent_joins flushPending_noop)
qed (use assms(2) in simp_all)

text \<open>An assistant event, and a nested human one, places whatever is buffered.\<close>

lemma groupEvent_closes:
  assumes "run_inv g" and "\<not> compactEvent e"
    and "ev_type e = Ty_ASSISTANT \<or> (nested e \<and> isHumanEvent e)"
  shows "run_pending (groupEvent R g e) = []"
proof -
  have "groupEvent R g e = placeEvent e g"
    using assms(3)
    by (auto simp: groupEvent_def isHumanEvent_def isSettingChangeOrRestart_def joinsTurn_def)
  moreover have "\<not> buffers e g"
    using assms(2,3) by (auto simp: buffers_def isHumanEvent_def)
  ultimately show ?thesis
    using flushPending_closed [OF assms(1)] by (simp add: placeEvent_joins)
qed

section \<open>Cutting a batch\<close>

text \<open>
  A batch may be cut wherever nothing is buffered: processing the two parts one after the other gives
  the turns and the state that the whole batch gives.
\<close>

lemma startRun_finish:
  assumes "run_pending g = []"
  shows "startRun (fst (finishRun g)) (snd (finishRun g)) = g"
  using assms by (simp add: finishRun_def startRun_def flushPending_noop Let_def)

lemma appendTurns_cut:
  assumes "run_pending (foldl (groupEvent R) (startRun T S) xs) = []"
    and "appendTurns T S xs R = (T', S')"
  shows "appendTurns T S (xs @ ys) R = appendTurns T' S' ys R"
proof (cases "xs = []")
  case True
  with assms(2) show ?thesis by (simp add: appendTurns_def)
next
  case False
  let ?g = "foldl (groupEvent R) (startRun T S) xs"
  from False assms(2) have fin: "finishRun ?g = (T', S')"
    by (simp add: appendTurns_def)
  then have start: "startRun T' S' = ?g"
    using startRun_finish [OF assms(1)] by simp
  show ?thesis
    using False fin start by (simp add: appendTurns_def)
qed

text \<open>The state between two batches: no buffer is carried over and no compaction is being collected.\<close>

definition settled :: "turn list \<Rightarrow> turn_grouping \<Rightarrow> bool" where
  "settled T S \<longleftrightarrow> current_valid (currentTurnIndex S) T \<and> compactionStartTurnIndex S = None
     \<and> pendingCompactionEvents S = None"

lemma settled_initial: "settled T INITIAL_TURN_GROUPING_STATE"
  by (simp add: settled_def INITIAL_TURN_GROUPING_STATE_def current_valid_def)

lemma settled_startRun: "settled T S \<Longrightarrow> run_inv (startRun T S) \<and> run_pending (startRun T S) = []"
  by (simp add: settled_def startRun_def run_inv_def)

lemma settled_finishRun:
  "run_inv g \<Longrightarrow> finishRun g = (T', S') \<Longrightarrow> settled T' S'"
  using flushPending_closed [of g] flushPending_inv [of g]
  by (auto simp: finishRun_def Let_def settled_def run_inv_def)

text \<open>
  \<open>grounded c es\<close>: no compaction event comes before a turn has been opened, \<open>c\<close> telling whether one
  is open already. A transcript starts with the message that opened the session, so its log is.
\<close>

fun grounded :: "bool \<Rightarrow> event list \<Rightarrow> bool" where
  "grounded c [] = True"
| "grounded c (e # es) = ((compactEvent e \<longrightarrow> c) \<and> grounded (c \<or> opensTurn e) es)"

lemma grounded_append:
  "grounded c (xs @ ys) \<longleftrightarrow> grounded c xs \<and> grounded (c \<or> (\<exists>e \<in> set xs. opensTurn e)) ys"
  by (induction xs arbitrary: c) (auto simp: disj_assoc)

lemma grounded_True: "grounded c es \<Longrightarrow> grounded True es"
  by (induction es arbitrary: c) auto

lemma grounded_mono: "grounded c es \<Longrightarrow> (c \<longrightarrow> d) \<Longrightarrow> grounded d es"
  using grounded_True by (cases c; cases d) simp_all

lemma run_inv_foldl:
  assumes "run_inv g" and "grounded (run_current g \<noteq> None) es"
  shows "run_inv (foldl (groupEvent R) g es)
    \<and> (run_current g \<noteq> None \<or> (\<exists>e \<in> set es. opensTurn e) \<longrightarrow> run_current (foldl (groupEvent R) g es) \<noteq> None)"
  using assms
proof (induction es arbitrary: g)
  case Nil
  then show ?case by simp
next
  case (Cons e es)
  let ?g = "groupEvent R g e"
  from Cons.prems have inv: "run_inv ?g" by (intro groupEvent_inv) auto
  have cur: "run_current g \<noteq> None \<or> opensTurn e \<longrightarrow> run_current ?g \<noteq> None"
    using groupEvent_current_mono groupEvent_opens by blast
  from Cons.prems(2) cur have "grounded (run_current ?g \<noteq> None) es"
    by (auto elim: grounded_mono)
  from Cons.IH [OF inv this] cur show ?case by auto
qed

lemma settled_appendTurns:
  assumes "settled T S" and "grounded (currentTurnIndex S \<noteq> None) es"
    and "appendTurns T S es R = (T', S')"
  shows "settled T' S'"
proof (cases "es = []")
  case True
  with assms show ?thesis by (simp add: appendTurns_def)
next
  case False
  have "run_current (startRun T S) = currentTurnIndex S" by (simp add: startRun_def)
  with assms(2) settled_startRun [OF assms(1)] have "run_inv (foldl (groupEvent R) (startRun T S) es)"
    by (simp add: run_inv_foldl)
  with False assms(3) show ?thesis by (auto simp: appendTurns_def intro: settled_finishRun)
qed

section \<open>Every placed event ends up in exactly one turn\<close>

definition placed :: "event \<Rightarrow> bool" where
  "placed e \<longleftrightarrow> \<not> opensTurn e \<and> \<not> (ev_type e = Ty_SYSTEM \<and> ev_subtype e = Sub_INTERRUPT_SENT)
     \<and> \<not> isSettingChangeOrRestart e \<and> joinsTurn e"

definition turn_content :: "turn list \<Rightarrow> event multiset" where
  "turn_content T = mset (concat (map turn_events T))"

definition run_content :: "grouping_run \<Rightarrow> event multiset" where
  "run_content g = turn_content (run_turns g) + mset (run_pending g)"

lemma turn_content_simps [simp]:
  "turn_content [] = {#}"
  "turn_content (t # T) = mset (turn_events t) + turn_content T"
  "turn_content (T @ U) = turn_content T + turn_content U"
  by (simp_all add: turn_content_def)

lemma turn_content_update:
  assumes "i < length T" and "\<And>t. mset (turn_events (f t)) = mset (turn_events t) + M"
  shows "turn_content (update_at i f T) = turn_content T + M"
proof -
  have "turn_content T = turn_content (take i T @ T ! i # drop (Suc i) T)"
    by (rule arg_cong [OF id_take_nth_drop [OF assms(1)]])
  moreover have "turn_content (update_at i f T) = turn_content (take i T @ f (T ! i) # drop (Suc i) T)"
    by (simp only: update_at_def upd_conv_take_nth_drop [OF assms(1)])
  ultimately show ?thesis
    by (simp only: turn_content_simps assms(2) ac_simps)
qed

lemma turn_content_mark:
  "(\<And>t. turn_events (f t) = turn_events t) \<Longrightarrow> turn_content (update_at i f T) = turn_content T"
  unfolding turn_content_def by (simp add: map_update_at)

lemma flushPending_content: "run_inv g \<Longrightarrow> run_content (flushPending g) = run_content g"
  by (cases "run_current g")
     (simp_all add: flushPending_def flushCompaction_def run_content_def run_inv_def current_valid_def
       turn_content_update [where M = "mset (run_pending g)"])

lemma joinCurrent_content:
  assumes "run_inv g"
  shows "run_content (joinCurrent e g) = run_content g + {#e#}"
proof (cases "run_current g")
  case None
  then show ?thesis by (simp add: joinCurrent_def run_content_def createTurn_def)
next
  case (Some i)
  with assms have "i < length (run_turns g)" by (simp add: run_inv_def current_valid_def)
  with Some show ?thesis
    by (simp add: joinCurrent_def run_content_def pushEvent_def turn_content_update [where M = "{#e#}"])
qed

lemma placeEvent_content:
  assumes "run_inv g"
  shows "run_content (placeEvent e g) = run_content g + {#e#}"
proof (cases "buffers e g")
  case True
  then show ?thesis using placeEvent_buffers by (simp add: run_content_def)
next
  case False
  with assms flushPending_inv [OF assms] show ?thesis
    by (simp add: placeEvent_joins joinCurrent_content flushPending_content)
qed

lemma updateCurrent_content:
  "(\<And>t. turn_events (f t) = turn_events t) \<Longrightarrow> run_content (updateCurrent f g) = run_content g"
  by (simp add: updateCurrent_def run_content_def turn_content_mark split: option.splits)

lemma openTurn_content:
  "turn_events t = [] \<Longrightarrow>
     run_content (g\<lparr>run_current := c, run_turns := run_turns g @ [t]\<rparr>) = run_content g"
  by (simp add: run_content_def)

lemma marks_keep_events [simp]:
  "turn_events (markInterrupted t) = turn_events t"
  "turn_events (pushSetting e t) = turn_events t"
  "turn_events (createTurn tid msg evs att replies nt mts) = evs"
  by (simp_all add: markInterrupted_def pushSetting_def createTurn_def)

lemma groupEvent_content:
  assumes "run_inv g"
  shows "run_content (groupEvent R g e) = run_content g + (if placed e then {#e#} else {#})"
  using placeEvent_content [OF assms]
  by (simp add: groupEvent_def placed_def opensTurn_def updateCurrent_content openTurn_content)

lemma run_content_foldl:
  assumes "run_inv g" and "grounded (run_current g \<noteq> None) es"
  shows "run_content (foldl (groupEvent R) g es) = run_content g + mset (filter placed es)"
  using assms(2)
proof (induction es rule: rev_induct)
  case Nil
  then show ?case by simp
next
  case (snoc e es)
  from snoc.prems have "grounded (run_current g \<noteq> None) es" by (simp add: grounded_append)
  with snoc.IH run_inv_foldl [OF assms(1) this] show ?case by (simp add: groupEvent_content)
qed

section \<open>History is frozen\<close>

text \<open>What a turn is identified by on screen: everything but its events and its marks.\<close>

definition turn_head :: "turn \<Rightarrow> string option \<times> string option \<times> jval \<times> jval \<times> jval \<times> int option" where
  "turn_head t = (turn_id t, userMessage t, attachments t, inlineReplies t, turn_note t, userMessageTs t)"

text \<open>\<open>later c T U\<close>: \<open>U\<close> continues \<open>T\<close>, where the turns before the current one are untouched and no
  turn is dropped, reordered or given another head.\<close>

definition continues :: "nat \<Rightarrow> turn list \<Rightarrow> turn list \<Rightarrow> bool" where
  "continues c T U \<longleftrightarrow> length T \<le> length U \<and> take c U = take c T
     \<and> take (length T) (map turn_head U) = map turn_head T"

lemma continues_refl [simp]: "continues c T T"
  by (simp add: continues_def)

lemma continues_trans: "continues c T U \<Longrightarrow> c \<le> d \<Longrightarrow> continues d U V \<Longrightarrow> continues c T V"
  unfolding continues_def
  by (metis (no_types, lifting) le_trans length_map min.absorb1 take_map take_take)

lemma continues_append [simp]: "c \<le> length T \<Longrightarrow> continues c T (T @ U)"
  by (simp add: continues_def)

lemma continues_update:
  "c \<le> i \<Longrightarrow> (\<And>t. turn_head (f t) = turn_head t) \<Longrightarrow> continues c T (update_at i f T)"
  by (simp add: continues_def map_update_at) (simp add: update_at_def)

definition current_bound :: "nat option \<Rightarrow> nat" where
  "current_bound c = (case c of None \<Rightarrow> 0 | Some i \<Rightarrow> i)"

lemma current_bound_simps [simp]: "current_bound None = 0" "current_bound (Some i) = i"
  by (simp_all add: current_bound_def)

lemma run_inv_bound: "run_inv g \<Longrightarrow> current_bound (run_current g) \<le> length (run_turns g)"
  by (auto simp: run_inv_def current_valid_def current_bound_def split: option.splits)

lemma turn_head_updates [simp]:
  "turn_head (pushEvent e t) = turn_head t"
  "turn_head (t\<lparr>turn_events := es\<rparr>) = turn_head t"
  by (simp_all add: turn_head_def pushEvent_def)

lemma flushPending_continues:
  "continues (current_bound (run_current g)) (run_turns g) (run_turns (flushPending g))"
  by (auto simp: flushPending_def flushCompaction_def current_bound_def continues_update
      split: option.splits)

lemma joinCurrent_continues:
  "continues (current_bound (run_current g)) (run_turns g) (run_turns (joinCurrent e g))"
  by (auto simp: joinCurrent_def current_bound_def continues_update split: option.splits)

lemma placeEvent_continues:
  "continues (current_bound (run_current g)) (run_turns g) (run_turns (placeEvent e g))"
proof (cases "buffers e g")
  case True
  then show ?thesis by (simp add: placeEvent_buffers)
next
  case False
  have "continues (current_bound (run_current g)) (run_turns (flushPending g))
      (run_turns (joinCurrent e (flushPending g)))"
    using joinCurrent_continues [of "flushPending g" e] by simp
  with flushPending_continues show ?thesis
    unfolding placeEvent_joins [OF False] by (rule continues_trans [OF _ order_refl])
qed

lemma updateCurrent_continues:
  "(\<And>t. turn_head (f t) = turn_head t) \<Longrightarrow>
     continues (current_bound (run_current g)) (run_turns g) (run_turns (updateCurrent f g))"
  by (auto simp: updateCurrent_def current_bound_def continues_update split: option.splits)

lemma marks_keep_head [simp]:
  "turn_head (markInterrupted t) = turn_head t"
  "turn_head (pushSetting e t) = turn_head t"
  by (simp_all add: markInterrupted_def pushSetting_def turn_head_def)

lemma groupEvent_continues:
  assumes "run_inv g"
  shows "continues (current_bound (run_current g)) (run_turns g) (run_turns (groupEvent R g e))
     \<and> current_bound (run_current g) \<le> current_bound (run_current (groupEvent R g e))"
  using placeEvent_continues [of g e] run_inv_bound [OF assms]
  by (simp add: groupEvent_def updateCurrent_continues)

lemma run_continues_foldl:
  assumes "run_inv g" and "grounded (run_current g \<noteq> None) es"
  shows "continues (current_bound (run_current g)) (run_turns g) (run_turns (foldl (groupEvent R) g es))
     \<and> current_bound (run_current g) \<le> current_bound (run_current (foldl (groupEvent R) g es))"
  using assms(2)
proof (induction es rule: rev_induct)
  case Nil
  then show ?case by simp
next
  case (snoc e es)
  then have gr: "grounded (run_current g \<noteq> None) es" by (simp add: grounded_append)
  have inv: "run_inv (foldl (groupEvent R) g es)"
    using run_inv_foldl [OF assms(1) gr] by simp
  show ?case
    using snoc.IH [OF gr] groupEvent_continues [OF inv, of R e]
    by (auto intro: continues_trans order_trans)
qed

section \<open>The properties of a batch\<close>

lemma appendTurns_run:
  assumes "settled T S" and "es \<noteq> []" and "appendTurns T S es R = (T', S')"
  shows "T' = run_turns (flushPending (foldl (groupEvent R) (startRun T S) es))"
    and "S' = \<lparr>currentTurnIndex = run_current (foldl (groupEvent R) (startRun T S) es),
        compactionStartTurnIndex = run_compStart (flushPending (foldl (groupEvent R) (startRun T S) es)),
        pendingCompactionEvents = None\<rparr>"
  using assms by (simp_all add: appendTurns_def finishRun_def Let_def)

lemma appendTurns_content:
  assumes "settled T S" and "grounded (currentTurnIndex S \<noteq> None) es"
    and "appendTurns T S es R = (T', S')"
  shows "turn_content T' = turn_content T + mset (filter placed es)"
proof (cases "es = []")
  case True
  with assms(3) show ?thesis by (simp add: appendTurns_def)
next
  case False
  let ?g = "foldl (groupEvent R) (startRun T S) es"
  from settled_startRun [OF assms(1)] have start: "run_inv (startRun T S)" "run_pending (startRun T S) = []"
    by simp_all
  have gr: "grounded (run_current (startRun T S) \<noteq> None) es"
    using assms(2) by (simp add: startRun_def)
  have inv: "run_inv ?g" using run_inv_foldl [OF start(1) gr] by simp
  have "turn_content T' = run_content (flushPending ?g)"
    using appendTurns_run(1) [OF assms(1) False assms(3)] flushPending_closed [OF inv]
    by (simp add: run_content_def)
  also have "\<dots> = run_content (startRun T S) + mset (filter placed es)"
    using flushPending_content [OF inv] run_content_foldl [OF start(1) gr] by simp
  finally show ?thesis using start(2) by (simp add: run_content_def startRun_def)
qed

lemma appendTurns_current:
  assumes "settled T S" and "grounded (currentTurnIndex S \<noteq> None) es"
    and "appendTurns T S es R = (T', S')" and "currentTurnIndex S \<noteq> None \<or> (\<exists>e \<in> set es. opensTurn e)"
  shows "currentTurnIndex S' \<noteq> None"
proof (cases "es = []")
  case True
  with assms(3,4) show ?thesis by (simp add: appendTurns_def)
next
  case False
  have "run_current (startRun T S) = currentTurnIndex S" by (simp add: startRun_def)
  with assms(2,4) settled_startRun [OF assms(1)]
  have "run_current (foldl (groupEvent R) (startRun T S) es) \<noteq> None" by (simp add: run_inv_foldl)
  with appendTurns_run(2) [OF assms(1) False assms(3)] show ?thesis by simp
qed

text \<open>C2. Turn grouping neither loses nor duplicates an event: after a batch the turns hold exactly the
  events they held before and the batch's events that belong in a turn, whatever compaction
  buffering happened in between.\<close>

theorem appendTurns_conserves_events:
  assumes "settled T S" and "grounded (currentTurnIndex S \<noteq> None) es"
    and "appendTurns T S es R = (T', S')"
  shows "turn_content T' = turn_content T + mset (filter placed es)"
  using assms by (rule appendTurns_content)

text \<open>History is append-only: a batch leaves every turn before the current one untouched, and never
  drops or reorders a turn or changes which message opened it.\<close>

theorem appendTurns_history_frozen:
  assumes "settled T S" and "grounded (currentTurnIndex S \<noteq> None) es"
    and "appendTurns T S es R = (T', S')"
  shows "length T \<le> length T'
    \<and> take (current_bound (currentTurnIndex S)) T' = take (current_bound (currentTurnIndex S)) T
    \<and> take (length T) (map turn_head T') = map turn_head T"
proof (cases "es = []")
  case True
  with assms(3) show ?thesis by (simp add: appendTurns_def)
next
  case False
  let ?g = "foldl (groupEvent R) (startRun T S) es"
  from settled_startRun [OF assms(1)] have start: "run_inv (startRun T S)" by simp
  have gr: "grounded (run_current (startRun T S) \<noteq> None) es"
    using assms(2) by (simp add: startRun_def)
  from run_continues_foldl [OF start gr, of R]
  have "continues (current_bound (currentTurnIndex S)) T (run_turns (flushPending ?g))"
    using flushPending_continues [of ?g] by (auto simp: startRun_def intro: continues_trans)
  then show ?thesis
    using appendTurns_run(1) [OF assms(1) False assms(3)] by (simp add: continues_def)
qed

section \<open>One pass over a log\<close>

text \<open>An interrupt that says itself whether it stopped a running turn, as every event of a current
  runtime does.\<close>

definition modern :: "event \<Rightarrow> bool" where
  "modern e \<longleftrightarrow> (ev_type e = Ty_SYSTEM \<and> ev_subtype e = Sub_INTERRUPT_SENT \<longrightarrow> turn_running e \<noteq> None)"

lemma groupEvent_modern: "modern e \<Longrightarrow> groupEvent R g e = groupEvent R' g e"
  by (auto simp: groupEvent_def modern_def stopsTurn_def split: option.splits)

lemma foldl_modern:
  "\<forall>e \<in> set es. modern e \<Longrightarrow> foldl (groupEvent R) g es = foldl (groupEvent R') g es"
  by (induction es arbitrary: g) (auto simp: groupEvent_modern [of _ R _ R'])

lemma appendTurns_modern:
  "\<forall>e \<in> set es. modern e \<Longrightarrow> appendTurns T S es R = appendTurns T S es R'"
  using foldl_modern [of es R _ R'] by (simp add: appendTurns_def)

text \<open>The run over a whole log, and the turns and the state it gives.\<close>

definition runOf :: "event list \<Rightarrow> grouping_run" where
  "runOf log = foldl (groupEvent Map.empty) (startRun [] INITIAL_TURN_GROUPING_STATE) (filter isVisibleEvent log)"

definition turnsOf :: "event list \<Rightarrow> turn list \<times> turn_grouping" where
  "turnsOf log = appendTurns [] INITIAL_TURN_GROUPING_STATE (filter isVisibleEvent log) Map.empty"

lemma turnsOf_append:
  assumes "run_pending (runOf xs) = []" and "turnsOf xs = (T, S)" and "\<forall>e \<in> set ys. modern e"
  shows "turnsOf (xs @ ys) = appendTurns T S (filter isVisibleEvent ys) R"
proof -
  have "turnsOf (xs @ ys) = appendTurns T S (filter isVisibleEvent ys) Map.empty"
    using appendTurns_cut [OF assms(1) [unfolded runOf_def] assms(2) [unfolded turnsOf_def],
        of "filter isVisibleEvent ys"]
    by (simp add: turnsOf_def)
  with assms(3) appendTurns_modern [of "filter isVisibleEvent ys" T S Map.empty R] show ?thesis by simp
qed

lemma runOf_append: "runOf (xs @ ys) = foldl (groupEvent Map.empty) (runOf xs) (filter isVisibleEvent ys)"
  by (simp add: runOf_def)

lemma grounded_plain: "\<forall>e \<in> set es. \<not> compactEvent e \<Longrightarrow> grounded c es"
  by (induction es arbitrary: c) auto

text \<open>Without a compaction nothing is ever buffered.\<close>

lemma runOf_plain:
  assumes "\<forall>e \<in> set (filter isVisibleEvent log). \<not> compactEvent e"
  shows "run_pending (runOf log) = []"
proof -
  let ?g = "startRun [] INITIAL_TURN_GROUPING_STATE"
  have start: "run_inv ?g" "run_pending ?g = []"
    using settled_startRun [OF settled_initial] by simp_all
  have "run_pending (foldl (groupEvent Map.empty) ?g es) = []" if "\<forall>e \<in> set es. \<not> compactEvent e" for es
    using that
  proof (induction es rule: rev_induct)
    case (snoc e es)
    then have "run_inv (foldl (groupEvent Map.empty) ?g es)"
      using run_inv_foldl [OF start(1) grounded_plain] by simp
    with snoc show ?case by (simp add: groupEvent_pending_empty)
  qed (use start in simp)
  with assms show ?thesis by (simp add: runOf_def)
qed

section \<open>Sample events\<close>

text \<open>The events the examples of this development are built from.\<close>

definition human_msg :: "string \<Rightarrow> string \<Rightarrow> event" where
  "human_msg tid txt =
     blank_event\<lparr>ev_type := Ty_USER, is_human := True, ev_turn_id := Some tid, content := Some txt\<rparr>"

definition assistant_msg :: "string \<Rightarrow> string \<Rightarrow> event" where
  "assistant_msg tid txt = blank_event\<lparr>ev_turn_id := Some tid, content := Some txt\<rparr>"

definition compact_start :: event where
  "compact_start = blank_event\<lparr>ev_type := Ty_SYSTEM, ev_subtype := Sub_COMPACT_START\<rparr>"

definition compact_boundary :: "string \<Rightarrow> event" where
  "compact_boundary i =
     blank_event\<lparr>ev_type := Ty_SYSTEM, ev_subtype := Sub_COMPACT_BOUNDARY, ev_id := Some i\<rparr>"

definition context_note :: "string \<Rightarrow> event" where
  "context_note txt = blank_event\<lparr>ev_type := Ty_USER, content := Some txt\<rparr>"

definition result_of :: "string \<Rightarrow> event_subtype \<Rightarrow> event" where
  "result_of tid sub = blank_event\<lparr>ev_type := Ty_RESULT, ev_subtype := sub, ev_turn_id := Some tid\<rparr>"

lemmas sample_events =
  human_msg_def assistant_msg_def compact_start_def compact_boundary_def context_note_def
  result_of_def blank_event_def

text \<open>A transcript with a compaction between two messages; the first batch is the opening message.\<close>

definition sample_turns :: "turn list" where
  "sample_turns = [createTurn (Some ''t1'') (Some ''hi'') [] JNull JNull JNull None]"

definition sample_state :: turn_grouping where
  "sample_state = INITIAL_TURN_GROUPING_STATE\<lparr>currentTurnIndex := Some 0\<rparr>"

definition sample_log :: "event list" where
  "sample_log =
     [assistant_msg ''t1'' ''hello'', compact_start, compact_boundary ''c1'', context_note ''summary'',
      human_msg ''t2'' ''go on'', assistant_msg ''t2'' ''sure'']"

lemma sample_settled: "settled sample_turns sample_state \<and> grounded (currentTurnIndex sample_state \<noteq> None) sample_log"
  by (simp add: settled_def sample_turns_def sample_state_def INITIAL_TURN_GROUPING_STATE_def
      current_valid_def sample_log_def)

lemma sample_placed:
  "filter placed sample_log =
     [assistant_msg ''t1'' ''hello'', compact_start, compact_boundary ''c1'', context_note ''summary'',
      assistant_msg ''t2'' ''sure'']"
  by (simp add: sample_log_def sample_events placed_def event_predicates joinsTurn_def
      SETTING_CHANGE_SUBTYPES_def)

lemma appendTurns_conserves_events_witness:
  "turn_content (fst (appendTurns sample_turns sample_state sample_log Map.empty)) =
     mset [assistant_msg ''t1'' ''hello'', compact_start, compact_boundary ''c1'', context_note ''summary'',
       assistant_msg ''t2'' ''sure'']"
  using appendTurns_conserves_events
      [OF sample_settled [THEN conjunct1] sample_settled [THEN conjunct2] prod.collapse [symmetric]]
  unfolding sample_placed by (simp add: sample_turns_def)

lemma appendTurns_history_frozen_witness:
  "length sample_turns \<le> length (fst (appendTurns sample_turns sample_state sample_log Map.empty))
    \<and> map turn_head (take 1 (fst (appendTurns sample_turns sample_state sample_log Map.empty)))
      = map turn_head sample_turns"
  using appendTurns_history_frozen
      [OF sample_settled [THEN conjunct1] sample_settled [THEN conjunct2] prod.collapse [symmetric]]
  by (simp add: sample_turns_def take_map)

end
