(* ===== verification/ReplaySlice.thy ===== *)
theory ReplaySlice
  imports TurnGrouping
begin

text \<open>
  Where the replay drain may cut the buffered transcript: \<open>replaySliceEnd\<close> of
  \<open>context/utils/replaySlice.js\<close>. The lemmas show that it makes progress, and that no cut it chooses
  can change how events are grouped into turns.
\<close>

definition opensCompactionRun :: "event \<Rightarrow> bool" where
  "opensCompactionRun e \<longleftrightarrow> isVisibleEvent e
     \<and> (ev_subtype e = Sub_COMPACT_START \<or> ev_subtype e = Sub_COMPACT_BOUNDARY)"

definition closesCompactionRun :: "event \<Rightarrow> bool" where
  "closesCompactionRun e =
     (if \<not> isVisibleEvent e then False
      else ev_type e = Ty_ASSISTANT \<or> (nested e \<and> isHumanEvent e))"

text \<open>The first loop: the index at which the run still open after the slice was opened.\<close>

fun scanOpen :: "nat \<Rightarrow> nat option \<Rightarrow> event list \<Rightarrow> nat option" where
  "scanOpen i openedAt [] = openedAt"
| "scanOpen i openedAt (e # es) =
     (if opensCompactionRun e then
        scanOpen (Suc i) (case openedAt of None \<Rightarrow> Some i | Some j \<Rightarrow> Some j) es
      else if openedAt \<noteq> None \<and> closesCompactionRun e then scanOpen (Suc i) None es
      else scanOpen (Suc i) openedAt es)"

text \<open>The second loop: how many events past the slice the first closing one is.\<close>

fun firstClose :: "event list \<Rightarrow> nat option" where
  "firstClose [] = None"
| "firstClose (e # es) = (if closesCompactionRun e then Some 0 else map_option Suc (firstClose es))"

definition replaySliceEnd :: "event list \<Rightarrow> nat \<Rightarrow> bool \<Rightarrow> nat" where
  "replaySliceEnd buffer maxSize serverDone =
     (let desired = min maxSize (length buffer)
      in case scanOpen 0 None (take desired buffer) of
           None \<Rightarrow> desired
         | Some openedAt \<Rightarrow>
             (case firstClose (drop desired buffer) of
                Some j \<Rightarrow> desired + j + 1
              | None \<Rightarrow> if serverDone then length buffer else openedAt))"

section \<open>The two loops\<close>

lemma firstClose_Some:
  "firstClose es = Some j \<Longrightarrow>
     \<exists>pre e post. es = pre @ e # post \<and> length pre = j \<and> closesCompactionRun e"
proof (induction es arbitrary: j)
  case Nil
  then show ?case by simp
next
  case (Cons x es)
  show ?case
  proof (cases "closesCompactionRun x")
    case True
    with Cons.prems show ?thesis by (intro exI [of _ "[]"]) simp
  next
    case False
    with Cons.prems obtain k where k: "firstClose es = Some k" "j = Suc k" by auto
    from Cons.IH [OF k(1)] obtain pre e post where "es = pre @ e # post" "length pre = k" "closesCompactionRun e"
      by blast
    with k(2) show ?thesis by (intro exI [of _ "x # pre"]) simp
  qed
qed

lemma firstClose_length: "firstClose es = Some j \<Longrightarrow> j < length es"
  by (drule firstClose_Some) auto

text \<open>The index a scan reports is where the run opened: the events before it leave no run open.\<close>

lemma scanOpen_bound:
  "scanOpen i openedAt es = Some k \<Longrightarrow> openedAt = Some k \<or> (i \<le> k \<and> k < i + length es)"
proof (induction i openedAt es rule: scanOpen.induct)
  case (2 i openedAt e es)
  then show ?case by (cases openedAt) (fastforce split: if_splits)+
qed simp

lemma scanOpen_cut_from:
  assumes "scanOpen i openedAt es = Some k" and "i \<le> k" and "openedAt \<noteq> Some k"
  shows "scanOpen i openedAt (take (k - i) es) = None"
  using assms
proof (induction i openedAt es rule: scanOpen.induct)
  case (2 i openedAt e es)
  show ?case
  proof (cases "k = i")
    case True
    have "openedAt = None"
    proof (rule ccontr)
      assume "openedAt \<noteq> None"
      then obtain j where j: "openedAt = Some j" by blast
      then have "scanOpen (Suc i) (Some j) es = Some k \<or> scanOpen (Suc i) None es = Some k"
        using 2(4) by (simp split: if_splits)
      then have "Some j = Some k \<or> Suc i \<le> k" using scanOpen_bound by blast
      with True j 2(6) show False by simp
    qed
    with True show ?thesis by simp
  next
    case False
    with 2(5) have split: "take (k - i) (e # es) = e # take (k - Suc i) es" "Suc i \<le> k"
      by (simp_all add: take_Cons' diff_Suc)
    with False 2 show ?thesis by (cases openedAt) (auto split: if_splits)
  qed
qed simp

lemma scanOpen_cut:
  assumes "scanOpen i None es = Some k"
  shows "i \<le> k \<and> k < i + length es \<and> scanOpen i None (take (k - i) es) = None"
  using scanOpen_bound [OF assms] scanOpen_cut_from [OF assms] by simp

lemma scanOpen_flag: "scanOpen i (Some j) es = None \<longleftrightarrow> scanOpen i' (Some j') es = None"
  and scanOpen_flag0: "scanOpen i None es = None \<longleftrightarrow> scanOpen i' None es = None"
  by (induction es arbitrary: i i' j j') (simp_all split: option.splits)

lemma replaySliceEnd_le: "replaySliceEnd buffer maxSize serverDone \<le> length buffer"
proof (cases "scanOpen 0 None (take (min maxSize (length buffer)) buffer)")
  case None
  then show ?thesis by (simp add: replaySliceEnd_def)
next
  case (Some k)
  from scanOpen_cut [OF this] have "k < length buffer" by simp
  with Some firstClose_length [of "drop (min maxSize (length buffer)) buffer"] show ?thesis
    by (fastforce simp: replaySliceEnd_def Let_def split: option.splits)
qed

section \<open>Progress\<close>

lemma replaySliceEnd_progress:
  assumes "buffer \<noteq> []" and "0 < maxSize"
  shows "0 < replaySliceEnd buffer maxSize True"
  using assms by (auto simp: replaySliceEnd_def Let_def split: option.splits)

section \<open>A cut never lands inside a run that is still being collected\<close>

lemma scanOpen_tracks_pending:
  assumes "run_inv g" and "grounded (run_current g \<noteq> None) (filter isVisibleEvent es)"
    and "run_pending g = [] \<or> openedAt \<noteq> None"
  shows "run_pending (foldl (groupEvent R) g (filter isVisibleEvent es)) = []
     \<or> scanOpen i openedAt es \<noteq> None"
  using assms
proof (induction es arbitrary: g openedAt i)
  case Nil
  then show ?case by simp
next
  case (Cons e es)
  let ?g = "groupEvent R g e"
  show ?case
  proof (cases "isVisibleEvent e")
    case False
    then have "\<not> opensCompactionRun e" "\<not> closesCompactionRun e"
      by (simp_all add: opensCompactionRun_def closesCompactionRun_def)
    with False Cons.IH [OF Cons.prems(1)] Cons.prems show ?thesis by simp
  next
    case vis: True
    from Cons.prems vis have ground: "compactEvent e \<longrightarrow> run_current g \<noteq> None"
      and rest: "grounded (run_current ?g \<noteq> None) (filter isVisibleEvent es)"
      using groupEvent_current_mono [of g R e] groupEvent_opens [of e R g]
      by (auto elim: grounded_mono)
    have inv: "run_inv ?g" using Cons.prems(1) ground by (rule groupEvent_inv)
    note IH = Cons.IH [OF inv rest]
    show ?thesis
    proof (cases "opensCompactionRun e")
      case True
      with vis IH show ?thesis by (cases openedAt) simp_all
    next
      case False
      with vis have plain: "\<not> compactEvent e" by (simp add: opensCompactionRun_def compactEvent_def)
      show ?thesis
      proof (cases "closesCompactionRun e")
        case True
        with vis have "run_pending ?g = []"
          using groupEvent_closes [OF Cons.prems(1) plain] by (simp add: closesCompactionRun_def)
        with False vis IH show ?thesis by simp
      next
        case nc: False
        have "run_pending ?g = [] \<or> openedAt \<noteq> None"
          using groupEvent_pending_empty [OF Cons.prems(1) _ plain] Cons.prems(3) by blast
        with False nc vis IH show ?thesis by simp
      qed
    qed
  qed
qed

text \<open>
  The protocol fact the chooser relies on: an event that closes a run is not itself a compaction event
  (compaction events are system events).
\<close>

definition closers_plain :: "event list \<Rightarrow> bool" where
  "closers_plain es \<longleftrightarrow> (\<forall>e \<in> set es. closesCompactionRun e \<longrightarrow> \<not> compactEvent e)"

lemma replay_cut_closed:
  assumes inv: "run_inv g" and empty: "run_pending g = []"
    and ground: "grounded (run_current g \<noteq> None) (filter isVisibleEvent buffer)"
    and plain: "closers_plain buffer"
    and cut: "replaySliceEnd buffer maxSize serverDone = k" "k < length buffer \<or> \<not> serverDone"
  shows "run_pending (foldl (groupEvent R) g (filter isVisibleEvent (take k buffer))) = []"
proof -
  let ?d = "min maxSize (length buffer)"
  have prefix: "run_pending (foldl (groupEvent R) g (filter isVisibleEvent (take n buffer))) = []"
    if "scanOpen 0 None (take n buffer) = None" for n
  proof -
    have "grounded (run_current g \<noteq> None) (filter isVisibleEvent (take n buffer))"
      using ground by (metis append_take_drop_id filter_append grounded_append)
    from scanOpen_tracks_pending [OF inv this, of None R 0] empty that show ?thesis by simp
  qed
  show ?thesis
  proof (cases "scanOpen 0 None (take ?d buffer)")
    case None
    with cut have "k = ?d" by (simp add: replaySliceEnd_def Let_def)
    with prefix [OF None] show ?thesis by simp
  next
    case opened: (Some j)
    show ?thesis
    proof (cases "firstClose (drop ?d buffer)")
      case None
      with opened cut have "k = j" by (auto simp: replaySliceEnd_def Let_def split: if_splits)
      from scanOpen_cut [OF opened] have "scanOpen 0 None (take j buffer) = None"
        by (simp add: min_def split: if_splits)
      with prefix \<open>k = j\<close> show ?thesis by simp
    next
      case (Some m)
      with opened cut have k: "k = ?d + m + 1" by (simp add: replaySliceEnd_def Let_def)
      from firstClose_Some [OF Some] obtain pre e post where
        split: "drop ?d buffer = pre @ e # post" "length pre = m" "closesCompactionRun e" by blast
      then have buf: "buffer = (take ?d buffer @ pre) @ e # post"
        by (metis append.assoc append_take_drop_id)
      have len: "length (take ?d buffer @ pre) = ?d + m" using split(2) by simp
      have tk: "take k buffer = (take ?d buffer @ pre) @ [e]"
        using k len by (subst buf) (simp add: take_Suc_conv_app_nth)
      let ?es = "filter isVisibleEvent (take ?d buffer @ pre)"
      have "grounded (run_current g \<noteq> None) ?es"
        using ground by (subst (asm) buf) (simp add: grounded_append)
      from run_inv_foldl [OF inv this] have inv': "run_inv (foldl (groupEvent R) g ?es)" by simp
      have vis: "isVisibleEvent e" "ev_type e = Ty_ASSISTANT \<or> (nested e \<and> isHumanEvent e)"
        using split(3) by (auto simp: closesCompactionRun_def split: if_splits)
      moreover have "\<not> compactEvent e"
        using plain split(3) by (subst (asm) buf) (simp add: closers_plain_def)
      ultimately show ?thesis
        using groupEvent_closes [OF inv'] by (simp add: tk)
    qed
  qed
qed

text \<open>C1. A replay slice never changes the grouping: materializing the events up to the cut
  \<open>replaySliceEnd\<close> chooses and the rest later, together with whatever arrives after it, yields the
  turns and the state of grouping everything at once.\<close>

theorem replay_slice_preserves_grouping:
  assumes "settled T S"
    and "grounded (currentTurnIndex S \<noteq> None) (filter isVisibleEvent buffer)"
    and "closers_plain buffer"
    and "k = replaySliceEnd buffer maxSize serverDone"
    and "k < length buffer \<or> \<not> serverDone"
    and "appendTurns T S (filter isVisibleEvent (take k buffer)) R = (T', S')"
  shows "appendTurns T S (filter isVisibleEvent (buffer @ arriving)) R
       = appendTurns T' S' (filter isVisibleEvent (drop k buffer @ arriving)) R"
proof -
  have start: "run_inv (startRun T S)" "run_pending (startRun T S) = []"
    using settled_startRun [OF assms(1)] by simp_all
  have ground: "grounded (run_current (startRun T S) \<noteq> None) (filter isVisibleEvent buffer)"
    using assms(2) by (simp add: startRun_def)
  from replay_cut_closed [OF start ground assms(3) assms(4) [symmetric] assms(5)]
  have "run_pending (foldl (groupEvent R) (startRun T S) (filter isVisibleEvent (take k buffer))) = []" .
  from appendTurns_cut [OF this assms(6), of "filter isVisibleEvent (drop k buffer @ arriving)"]
  show ?thesis by (simp flip: filter_append append.assoc)
qed

section \<open>A cut in a concrete transcript\<close>

text \<open>Only the compaction's beginning has arrived: the slice stops before it.\<close>

definition sample_buffer :: "event list" where
  "sample_buffer = take 4 sample_log"

lemmas sample_cut_defs =
  sample_buffer_def sample_log_def sample_events event_predicates opensCompactionRun_def closesCompactionRun_def
  isVisibleEvent_def matches_task_notification_def trim_start_def js_space_def starts_with_def

lemma sample_cut: "replaySliceEnd sample_buffer 2 False = 1"
  by (simp add: replaySliceEnd_def sample_cut_defs eval_nat_numeral)

lemma sample_buffer_grounded:
  "grounded (currentTurnIndex sample_state \<noteq> None) (filter isVisibleEvent sample_buffer)"
  by (simp add: sample_state_def sample_cut_defs eval_nat_numeral)

lemma sample_buffer_plain: "closers_plain sample_buffer"
  by (simp add: closers_plain_def sample_cut_defs compactEvent_def eval_nat_numeral)

lemma replay_slice_preserves_grouping_witness:
  "replaySliceEnd sample_buffer 2 False = 1 \<and>
   appendTurns sample_turns sample_state (filter isVisibleEvent (sample_buffer @ drop 4 sample_log)) Map.empty
     = (let (T', S') = appendTurns sample_turns sample_state
                         (filter isVisibleEvent (take 1 sample_buffer)) Map.empty
        in appendTurns T' S' (filter isVisibleEvent (drop 1 sample_buffer @ drop 4 sample_log)) Map.empty)"
proof -
  have len: "1 < length sample_buffer \<or> \<not> False" by simp
  show ?thesis
    using replay_slice_preserves_grouping
      [OF sample_settled [THEN conjunct1] sample_buffer_grounded sample_buffer_plain
        sample_cut [symmetric] len prod.collapse [symmetric]]
      sample_cut
    by (simp add: case_prod_beta Let_def)
qed

end
