(* ===== verification/Tools.thy ===== *)
theory Tools
  imports Events
begin

text \<open>
  Tool names (\<open>config/schema.js\<close>), the static part of the tool registry (\<open>config/toolRegistry.js\<close>: the
  collapse rule, tooltip, renderer, parser and category of each tool; the formatter fields are
  functions that build display text and are left out), and the rules that decide which tool calls a
  view hides or routes to the side (\<open>utils/eventProcessing.js\<close>).

  A name inherited from \<open>Object.prototype\<close> (\<open>constructor\<close>, \<open>toString\<close> ...) is not a tool name here:
  the code's table lookups would find the inherited function.
\<close>

section \<open>Names\<close>

abbreviation "READ \<equiv> ''Read''"
abbreviation "WRITE \<equiv> ''Write''"
abbreviation "EDIT \<equiv> ''Edit''"
abbreviation "GLOB \<equiv> ''Glob''"
abbreviation "GREP \<equiv> ''Grep''"
abbreviation "BASH \<equiv> ''Bash''"
abbreviation "TASK \<equiv> ''Task''"
abbreviation "SKILL \<equiv> ''Skill''"
abbreviation "ASK_USER_QUESTION \<equiv> ''AskUserQuestion''"
abbreviation "EXIT_PLAN_MODE \<equiv> ''ExitPlanMode''"
abbreviation "TODO_WRITE \<equiv> ''TodoWrite''"
abbreviation "TASK_CREATE \<equiv> ''TaskCreate''"
abbreviation "TASK_UPDATE \<equiv> ''TaskUpdate''"
abbreviation "CRON_CREATE \<equiv> ''CronCreate''"
abbreviation "CRON_DELETE \<equiv> ''CronDelete''"
abbreviation "TASK_LIST \<equiv> ''TaskList''"
abbreviation "TASK_GET \<equiv> ''TaskGet''"
abbreviation "TASK_OUTPUT \<equiv> ''TaskOutput''"
abbreviation "WEB_SEARCH \<equiv> ''WebSearch''"
abbreviation "WEB_FETCH \<equiv> ''WebFetch''"
abbreviation "MCP_SEARCH \<equiv> ''MCPSearch''"
abbreviation "TOOL_SEARCH \<equiv> ''ToolSearch''"
abbreviation "SESSION_SPAWN \<equiv> ''mcp__claudebox__session_spawn''"
abbreviation "SESSION_ASK \<equiv> ''mcp__claudebox__session_ask''"
abbreviation "SESSION_READ \<equiv> ''mcp__claudebox__session_read''"
abbreviation "NEEDS_USER \<equiv> ''mcp__claudebox__needs_user''"
abbreviation "LIST_MCP_RESOURCES \<equiv> ''ListMcpResourcesTool''"
abbreviation "READ_MCP_RESOURCE \<equiv> ''ReadMcpResourceTool''"
abbreviation "READ_MCP_RESOURCE_DIR \<equiv> ''ReadMcpResourceDirTool''"

abbreviation "MCP_TOOL_PREFIX \<equiv> ''mcp__''"

definition TOOL_NAME_ALIASES :: "(string \<times> string) list" where
  "TOOL_NAME_ALIASES =
     [(''read_file'', READ), (''write_file'', WRITE), (''edit_file'', EDIT), (''glob'', GLOB),
      (''grep'', GREP), (''bash'', BASH), (''task'', TASK), (''skill'', SKILL),
      (''ask_user_question'', ASK_USER_QUESTION), (''web_search'', WEB_SEARCH),
      (''web_fetch'', WEB_FETCH), (''task_create'', TASK_CREATE), (''task_update'', TASK_UPDATE),
      (''task_get'', TASK_GET), (''task_list'', TASK_LIST), (''task_output'', TASK_OUTPUT),
      (''tool_search'', TOOL_SEARCH), (''session_spawn'', SESSION_SPAWN), (''session_ask'', SESSION_ASK),
      (''session_read'', SESSION_READ), (''needs_user'', NEEDS_USER),
      (''list_mcp_resources'', LIST_MCP_RESOURCES), (''read_mcp_resource'', READ_MCP_RESOURCE)]"

definition normalizeToolName :: "string \<Rightarrow> string" where
  "normalizeToolName name = (case map_of TOOL_NAME_ALIASES name of Some n \<Rightarrow> n | None \<Rightarrow> name)"

text \<open>The tool a \<open>tool_use\<close> event names; an absent name normalises to itself.\<close>

definition toolOf :: "event \<Rightarrow> string option" where
  "toolOf e = map_option normalizeToolName (content e)"

definition LANGGRAPH_RUNTIME_NAME :: string where
  "LANGGRAPH_RUNTIME_NAME = ''LangGraph''"

definition LANGGRAPH_OWN_TOOLS :: "string list" where
  "LANGGRAPH_OWN_TOOLS = map fst TOOL_NAME_ALIASES @ [''notebook_edit'', ''task_stop'']"

text \<open>A tool server's tool: the server it names, if any, and the tool.\<close>

type_synonym server_tool = "string option \<times> string"

text \<open>\<open>rest.indexOf('__')\<close> must be positive: a server has a non-empty name.\<close>

definition splitMcpName :: "string \<Rightarrow> server_tool option" where
  "splitMcpName name =
     (let rest = drop (length MCP_TOOL_PREFIX) name
      in case split_on ''__'' rest of
           Some (server, tool) \<Rightarrow> if server \<noteq> [] then Some (Some server, tool) else None
         | None \<Rightarrow> None)"

definition mcpToolOf :: "string option \<Rightarrow> string option \<Rightarrow> server_tool option" where
  "mcpToolOf name runtimeName =
     (case name of
        None \<Rightarrow> None
      | Some n \<Rightarrow>
          if n = [] then None
          else let normalized = normalizeToolName n
               in if starts_with MCP_TOOL_PREFIX normalized then splitMcpName normalized
                  else if runtimeName = Some LANGGRAPH_RUNTIME_NAME \<and> n \<notin> set LANGGRAPH_OWN_TOOLS
                       then Some (None, n) else None)"

definition markMatches :: "server_tool \<Rightarrow> string \<Rightarrow> bool" where
  "markMatches call mark =
     (case (if starts_with MCP_TOOL_PREFIX mark then splitMcpName mark else Some (None, mark)) of
        None \<Rightarrow> False
      | Some marked \<Rightarrow> snd marked = snd call \<and> (fst marked = None \<or> fst call = None))"

definition isHiddenTool :: "string option \<Rightarrow> string option \<Rightarrow> string list \<Rightarrow> bool" where
  "isHiddenTool name runtimeName hiddenTools =
     (if hiddenTools = [] then False
      else case mcpToolOf name runtimeName of
        None \<Rightarrow> False
      | Some call \<Rightarrow>
          (case name of Some n \<Rightarrow> normalizeToolName n \<in> set hiddenTools | None \<Rightarrow> False)
          \<or> (\<exists>mark \<in> set hiddenTools. markMatches call mark))"

section \<open>The registry\<close>

text \<open>How a tool's block starts: a constant, or decided by whether it was answered.\<close>

datatype collapse_rule = Collapse bool | CollapseWhenAnswered | CollapseNever

text \<open>The tooltip: none of its own, an input field, or one of three computed forms.\<close>

datatype tooltip_rule = Tip_default | Tip_field string | Tip_grep | Tip_questions | Tip_url

record tool_config =
  collapseByDefault :: collapse_rule
  tooltip :: tooltip_rule
  renderer :: string
  codeParser :: "string option"
  category :: string

definition config_of ::
  "collapse_rule \<Rightarrow> tooltip_rule \<Rightarrow> string \<Rightarrow> string option \<Rightarrow> string \<Rightarrow> tool_config" where
  "config_of c t r p k =
     \<lparr>collapseByDefault = c, tooltip = t, renderer = r, codeParser = p, category = k\<rparr>"

definition MCP_RESOURCE_TOOL_CONFIG :: tool_config where
  "MCP_RESOURCE_TOOL_CONFIG = config_of (Collapse False) Tip_default ''default'' None ''default''"

definition TOOL_REGISTRY :: "(string \<times> tool_config) list" where
  "TOOL_REGISTRY =
     [(READ, config_of (Collapse True) (Tip_field ''file_path'') ''syntax-or-code'' (Some ''readWrite'') ''read-only''),
      (WRITE, config_of (Collapse False) (Tip_field ''file_path'') ''syntax-or-code'' (Some ''readWrite'') ''default''),
      (EDIT, config_of (Collapse False) (Tip_field ''file_path'') ''code'' (Some ''edit'') ''default''),
      (BASH, config_of (Collapse False) (Tip_field ''command'') ''default'' None ''default''),
      (GREP, config_of (Collapse True) Tip_grep ''code'' (Some ''grep'') ''read-only''),
      (GLOB, config_of (Collapse False) (Tip_field ''file_path'') ''default'' None ''read-only''),
      (TASK, config_of (Collapse True) (Tip_field ''prompt'') ''default'' None ''default''),
      (SKILL, config_of (Collapse True) Tip_default ''default'' None ''default''),
      (ASK_USER_QUESTION, config_of CollapseWhenAnswered Tip_questions ''default'' None ''default''),
      (EXIT_PLAN_MODE, config_of CollapseNever Tip_default ''default'' None ''default''),
      (TODO_WRITE, config_of (Collapse True) Tip_default ''default'' None ''default''),
      (TASK_CREATE, config_of (Collapse True) Tip_default ''default'' None ''default''),
      (TASK_UPDATE, config_of (Collapse True) Tip_default ''default'' None ''default''),
      (TASK_LIST, config_of (Collapse False) Tip_default ''default'' None ''read-only''),
      (TASK_GET, config_of (Collapse False) Tip_default ''default'' None ''read-only''),
      (TASK_OUTPUT, config_of (Collapse True) Tip_default ''default'' None ''read-only''),
      (WEB_SEARCH, config_of (Collapse True) (Tip_field ''query'') ''markdown'' None ''read-only''),
      (WEB_FETCH, config_of (Collapse True) Tip_url ''markdown'' None ''read-only''),
      (MCP_SEARCH, config_of (Collapse False) Tip_default ''default'' None ''read-only''),
      (LIST_MCP_RESOURCES, MCP_RESOURCE_TOOL_CONFIG),
      (READ_MCP_RESOURCE, MCP_RESOURCE_TOOL_CONFIG),
      (READ_MCP_RESOURCE_DIR, MCP_RESOURCE_TOOL_CONFIG)]"

definition DEFAULT_TOOL_CONFIG :: tool_config where
  "DEFAULT_TOOL_CONFIG = config_of (Collapse False) Tip_default ''default'' None ''default''"

definition getToolConfig :: "string option \<Rightarrow> tool_config" where
  "getToolConfig toolName =
     (case toolName of
        None \<Rightarrow> DEFAULT_TOOL_CONFIG
      | Some n \<Rightarrow> (case map_of TOOL_REGISTRY (normalizeToolName n) of
                     Some c \<Rightarrow> c | None \<Rightarrow> DEFAULT_TOOL_CONFIG))"

definition FOCUSED_HIDDEN_TOOLS :: "string list" where
  "FOCUSED_HIDDEN_TOOLS =
     map fst (filter (\<lambda>(name, c). category c = ''read-only'') TOOL_REGISTRY) @
     [SKILL, NEEDS_USER, SESSION_READ, LIST_MCP_RESOURCES, READ_MCP_RESOURCE, READ_MCP_RESOURCE_DIR]"

definition isReadOnlyCommand :: "event \<Rightarrow> event option \<Rightarrow> bool" where
  "isReadOnlyCommand toolUse toolResult =
     (case toolResult of
        Some r \<Rightarrow> (case command_changed r of Some b \<Rightarrow> \<not> b | None \<Rightarrow> command_read_only toolUse)
      | None \<Rightarrow> command_read_only toolUse)"

definition isReadOnlyCall :: "event \<Rightarrow> event option \<Rightarrow> bool" where
  "isReadOnlyCall toolUse toolResult \<longleftrightarrow>
     category (getToolConfig (content toolUse)) = ''read-only'' \<or> isReadOnlyCommand toolUse toolResult"

text \<open>\<open>getToolTooltip\<close>, an absent or falsy tooltip being \<open>JNull\<close>.\<close>

definition field_or_null :: "jval \<Rightarrow> string \<Rightarrow> jval" where
  "field_or_null input f = jor (jget input f) JNull"

fun first_param :: "jval \<Rightarrow> jval" where
  "first_param (JObj ((k, JStr s) # fs)) = JStr s"
| "first_param v = JNull"

fun tooltipOf :: "tooltip_rule \<Rightarrow> jval \<Rightarrow> jval" where
  "tooltipOf Tip_default input = first_param input"
| "tooltipOf (Tip_field f) input = field_or_null input f"
| "tooltipOf Tip_grep input =
     (let parts = filter truthy [jget input ''pattern'', jget input ''path'']
      in if parts \<noteq> [] then JStr (intercalate [CHR 0x0A] (map jstring parts)) else JNull)"
| "tooltipOf Tip_questions input =
     (let questions = filter truthy (map (\<lambda>q. jget q ''question'') (jelems (jget input ''questions'')))
      in if questions \<noteq> [] then JStr (intercalate [CHR 0x0A] (map jstring questions)) else JNull)"
| "tooltipOf Tip_url input =
     (let u = jget input ''url'' in if is_jstr u \<and> truthy u then u else JNull)"

definition getToolTooltip :: "string option \<Rightarrow> jval \<Rightarrow> jval" where
  "getToolTooltip toolName input = tooltipOf (tooltip (getToolConfig toolName)) input"

definition shouldCollapseByDefault ::
  "string option \<Rightarrow> bool \<Rightarrow> bool \<Rightarrow> bool \<Rightarrow> bool \<Rightarrow> bool \<Rightarrow> bool" where
  "shouldCollapseByDefault toolName jsonData hasNested isPending wasAnswered contentBlocks =
     (case collapseByDefault (getToolConfig toolName) of
        CollapseWhenAnswered \<Rightarrow> wasAnswered
      | CollapseNever \<Rightarrow> False
      | Collapse b \<Rightarrow>
          if jsonData \<or> contentBlocks then True
          else if hasNested \<and> \<not> isPending then True
          else b)"

definition shouldStartCollapsed ::
  "string option \<Rightarrow> bool \<Rightarrow> bool \<Rightarrow> bool \<Rightarrow> bool \<Rightarrow> bool \<Rightarrow> bool \<Rightarrow> bool \<Rightarrow> bool" where
  "shouldStartCollapsed toolName readOnlyCommand singleLineDuplicate jsonData contentBlocks hasNested
      isPending wasAnswered \<longleftrightarrow>
     readOnlyCommand \<or> (singleLineDuplicate \<and> toolName \<noteq> Some BASH)
     \<or> shouldCollapseByDefault toolName jsonData hasNested isPending wasAnswered contentBlocks"

end
