(* ===== verification/Bookmarks.thy ===== *)
theory Bookmarks
  imports Prelude
begin

text \<open>
  Bookmark ids (\<open>utils/bookmarkIds.js\<close>): \<open><turnId>:<tail>\<close>, the tail naming the user message, the
  response, a part of it or a tool call. The two regular expressions that read a tail are scanned
  from the end: their digit groups contain no dash, so the last two dashes are where they split.
\<close>

section \<open>Characters and digits\<close>

definition is_digit :: "char \<Rightarrow> bool" where
  "is_digit c \<longleftrightarrow> c \<in> set ''0123456789''"

definition key_char :: "char \<Rightarrow> bool" where
  "key_char c \<longleftrightarrow> (let n = of_char c :: nat in
     (65 \<le> n \<and> n \<le> 90) \<or> (97 \<le> n \<and> n \<le> 122)) \<or> is_digit c \<or> c = CHR ''_'' \<or> c = CHR ''-''"

text \<open>\<open>KEY.test\<close>.\<close>

definition is_key :: "string \<Rightarrow> bool" where
  "is_key s \<longleftrightarrow> s \<noteq> [] \<and> (\<forall>c \<in> set s. key_char c)"

text \<open>\<open>Number\<close> on a string of decimal digits.\<close>

definition digits_value :: "string \<Rightarrow> nat" where
  "digits_value s = foldl (\<lambda>n c. n * 10 + (of_char c - 48)) 0 s"

section \<open>Tails\<close>

datatype jump_target = Paragraph string nat | ToolCall string

text \<open>\<open>\<^const>\<open>rsplit_dash\<close>\<close>: the text before the last dash and the text after it.\<close>

definition rsplit_dash :: "string \<Rightarrow> (string \<times> string) option" where
  "rsplit_dash s =
     (let r = rev s; tl_part = takeWhile (\<lambda>c. c \<noteq> CHR ''-'') r
      in if length tl_part = length r then None
         else Some (rev (drop (Suc (length tl_part)) r), rev tl_part))"

definition all_digits :: "string \<Rightarrow> bool" where
  "all_digits s \<longleftrightarrow> s \<noteq> [] \<and> (\<forall>c \<in> set s. is_digit c)"

text \<open>\<open>.\<close> does not match a line break.\<close>

definition one_line :: "string \<Rightarrow> bool" where
  "one_line s \<longleftrightarrow> s \<noteq> [] \<and> (\<forall>c \<in> set s. \<not> js_newline c)"

definition match_paragraph :: "string \<Rightarrow> (string \<times> string \<times> string) option" where
  "match_paragraph s =
     (if \<not> starts_with ''p-'' s then None
      else case rsplit_dash (drop 2 s) of
        None \<Rightarrow> None
      | Some (rest, block) \<Rightarrow>
          (case rsplit_dash rest of
             None \<Rightarrow> None
           | Some (eventId, segment) \<Rightarrow>
               if all_digits block \<and> all_digits segment \<and> one_line eventId
               then Some (eventId, segment, block) else None))"

definition match_tool :: "string \<Rightarrow> string option" where
  "match_tool s = (if starts_with ''tool-'' s \<and> one_line (drop 5 s) then Some (drop 5 s) else None)"

definition parseTail :: "string option \<Rightarrow> jump_target option" where
  "parseTail tail =
     (let s = str_or tail []
      in case match_paragraph s of
           Some (eventId, segment, block) \<Rightarrow> Some (Paragraph (eventId @ ''-'' @ segment) (digits_value block))
         | None \<Rightarrow> map_option ToolCall (match_tool s))"

text \<open>\<open>lastIndexOf(':')\<close>: without a colon the id is all tail, and the code's turn id is the id less
  its last character.\<close>

record parsed_bookmark =
  pb_turnId :: string
  messageType :: string
  role :: string
  target :: "jump_target option"

definition parseBookmarkId :: "string \<Rightarrow> parsed_bookmark" where
  "parseBookmarkId bookmarkId =
     (let (turnId, messageType) =
        (case last_index (\<lambda>c. c = CHR '':'') bookmarkId of
           Some i \<Rightarrow> (take i bookmarkId, drop (Suc i) bookmarkId)
         | None \<Rightarrow> (butlast bookmarkId, bookmarkId))
      in \<lparr>pb_turnId = turnId, messageType = messageType,
          role = (if messageType = ''user'' then ''user'' else ''assistant''),
          target = parseTail (Some messageType)\<rparr>)"

definition paragraphBookmarkKey :: "string option \<Rightarrow> nat \<Rightarrow> nat \<Rightarrow> string option" where
  "paragraphBookmarkKey eventId segment block =
     (case eventId of
        None \<Rightarrow> None
      | Some e \<Rightarrow>
          let key = ''p-'' @ e @ ''-'' @ nat_digits segment @ ''-'' @ nat_digits block
          in if e \<noteq> [] \<and> is_key key then Some key else None)"

definition toolBookmarkKey :: "string option \<Rightarrow> string option" where
  "toolBookmarkKey toolUseId =
     (case toolUseId of
        None \<Rightarrow> None
      | Some t \<Rightarrow> let key = ''tool-'' @ t in if t \<noteq> [] \<and> is_key key then Some key else None)"

record jump_options =
  jo_turnId :: string
  jo_messageType :: string
  jo_target :: "string option"

definition toolJumpOptions :: "string \<Rightarrow> string option \<Rightarrow> jump_options" where
  "toolJumpOptions turnId toolUseId =
     \<lparr>jo_turnId = turnId, jo_messageType = ''assistant'', jo_target = toolBookmarkKey toolUseId\<rparr>"

definition bookmarkJumpOptions :: "string \<Rightarrow> string \<Rightarrow> jump_options" where
  "bookmarkJumpOptions turnId mt =
     (case parseTail (Some mt) of
        Some _ \<Rightarrow> \<lparr>jo_turnId = turnId, jo_messageType = ''assistant'', jo_target = Some mt\<rparr>
      | None \<Rightarrow> \<lparr>jo_turnId = turnId, jo_messageType = mt, jo_target = None\<rparr>)"

section \<open>Digits read back\<close>

lemma digit_chars: "\<forall>n \<in> set [0..<10]. is_digit (digit_char n) \<and> (of_char (digit_char n) :: nat) - 48 = n"
  by code_simp

lemma digit_char_cases: "n < 10 \<Longrightarrow> is_digit (digit_char n) \<and> of_char (digit_char n) - 48 = n"
  using digit_chars by simp

lemma digits_value_snoc: "digits_value (s @ [c]) = digits_value s * 10 + (of_char c - 48)"
  by (simp add: digits_value_def)

lemma nat_digits_value: "digits_value (nat_digits n) = n"
proof (induction n rule: nat_digits.induct)
  case (1 n)
  show ?case
  proof (cases "n < 10")
    case True
    then show ?thesis
      by (subst nat_digits.simps) (simp add: digits_value_def digit_char_cases)
  next
    case False
    then have "digits_value (nat_digits n) = digits_value (nat_digits (n div 10)) * 10 + n mod 10"
      by (subst nat_digits.simps) (simp add: digits_value_snoc digit_char_cases)
    with 1 False show ?thesis by simp
  qed
qed

lemma all_digits_snoc: "all_digits s \<Longrightarrow> is_digit c \<Longrightarrow> all_digits (s @ [c])"
  by (simp add: all_digits_def)

lemma is_digit_char: "n < 10 \<Longrightarrow> is_digit (digit_char n)"
  using digit_char_cases by blast

lemma nat_digits_all: "all_digits (nat_digits n)"
proof (induction n rule: nat_digits.induct)
  case (1 n)
  show ?case
  proof (cases "n < 10")
    case True
    then show ?thesis by (subst nat_digits.simps) (simp add: all_digits_def is_digit_char)
  next
    case False
    with 1 have "all_digits (nat_digits (n div 10))" by simp
    with False show ?thesis
      by (subst nat_digits.simps) (simp add: all_digits_snoc is_digit_char)
  qed
qed

lemma dash_no_digit: "\<not> is_digit CHR ''-''"
  by code_simp

lemma no_key_chars: "\<not> key_char CHR 0x0A" "\<not> key_char CHR 0x0D" "\<not> key_char CHR '':''"
  by code_simp+

lemma digits_no_dash: "all_digits s \<Longrightarrow> CHR ''-'' \<notin> set s"
  using dash_no_digit by (auto simp: all_digits_def)

lemma rsplit_dash_snoc: "CHR ''-'' \<notin> set b \<Longrightarrow> rsplit_dash (a @ CHR ''-'' # b) = Some (a, b)"
proof -
  assume "CHR ''-'' \<notin> set b"
  then have "takeWhile (\<lambda>c. c \<noteq> CHR ''-'') (rev (a @ CHR ''-'' # b)) = rev b"
    by (auto simp: takeWhile_tail takeWhile_eq_all_conv)
  then show ?thesis by (simp only: rsplit_dash_def Let_def) simp
qed

lemma key_one_line: "\<forall>c \<in> set s. key_char c \<Longrightarrow> s \<noteq> [] \<Longrightarrow> one_line s"
  using no_key_chars by (auto simp: one_line_def js_newline_def)

lemma key_no_colon: "key_char c \<Longrightarrow> c \<noteq> CHR '':''"
  using no_key_chars by blast

section \<open>Round trips\<close>

lemma parse_paragraph:
  assumes "paragraphBookmarkKey (Some e) s b = Some key"
  shows "parseTail (Some key) = Some (Paragraph (e @ ''-'' @ nat_digits s) b)"
proof -
  from assms have key: "key = ''p-'' @ e @ ''-'' @ nat_digits s @ ''-'' @ nat_digits b"
    and e: "e \<noteq> []" "\<forall>c \<in> set e. key_char c"
    by (auto simp: paragraphBookmarkKey_def is_key_def Let_def split: if_splits)
  have "rsplit_dash (drop 2 key) = Some (e @ ''-'' @ nat_digits s, nat_digits b)"
    using rsplit_dash_snoc [OF digits_no_dash [OF nat_digits_all], of "e @ ''-'' @ nat_digits s" b]
    by (simp add: key)
  moreover have "rsplit_dash (e @ ''-'' @ nat_digits s) = Some (e, nat_digits s)"
    using rsplit_dash_snoc [OF digits_no_dash [OF nat_digits_all], of e s] by simp
  ultimately have "match_paragraph key = Some (e, nat_digits s, nat_digits b)"
    using key_one_line [OF e(2,1)] nat_digits_all
    by (simp add: match_paragraph_def key starts_with_def)
  then show ?thesis by (simp add: parseTail_def str_or_def nat_digits_value)
qed

lemma parse_tool:
  assumes "toolBookmarkKey (Some t) = Some key"
  shows "parseTail (Some key) = Some (ToolCall t)"
proof -
  from assms have key: "key = ''tool-'' @ t" and t: "t \<noteq> []" "\<forall>c \<in> set t. key_char c"
    by (auto simp: toolBookmarkKey_def is_key_def Let_def split: if_splits)
  then show ?thesis
    using key_one_line [OF t(2,1)]
    by (simp add: parseTail_def str_or_def match_paragraph_def match_tool_def starts_with_def)
qed

lemma key_of_cases:
  assumes "paragraphBookmarkKey e s b = Some key \<or> toolBookmarkKey e = Some key"
  shows "is_key key \<and> key \<noteq> ''user''"
  using assms
  by (auto simp: paragraphBookmarkKey_def toolBookmarkKey_def Let_def split: option.splits if_splits)

lemma split_at_colon:
  assumes "is_key key"
  shows "last_index (\<lambda>c. c = CHR '':'') (turn @ '':'' @ key) = Some (length turn)"
proof -
  from assms have "last_index (\<lambda>c. c = CHR '':'') key = None"
    by (auto simp: last_index_None is_key_def dest: key_no_colon)
  then show ?thesis by (simp add: last_index_append)
qed

lemma parse_bookmark_of_key:
  assumes "is_key key"
  shows "parseBookmarkId (turn @ '':'' @ key) =
     \<lparr>pb_turnId = turn, messageType = key,
      role = (if key = ''user'' then ''user'' else ''assistant''), target = parseTail (Some key)\<rparr>"
  using split_at_colon [OF assms, of turn] by (simp add: parseBookmarkId_def)

lemmas bookmark_facts =
  parse_bookmark_of_key [unfolded append.simps] parse_paragraph [unfolded append.simps] parse_tool

text \<open>A bookmark id built for a paragraph or a tool call reads back as that target: whatever colons
  and dashes the turn id and the event id contain, parsing returns the turn, the assistant role and the
  very event segment, block or tool call the key was made from.\<close>

theorem bookmark_id_roundtrip:
  "(paragraphBookmarkKey (Some e) s b = Some key \<longrightarrow>
      parseBookmarkId (turn @ '':'' @ key) =
        \<lparr>pb_turnId = turn, messageType = key, role = ''assistant'',
         target = Some (Paragraph (e @ ''-'' @ nat_digits s) b)\<rparr>)
   \<and> (toolBookmarkKey (Some e) = Some key \<longrightarrow>
      parseBookmarkId (turn @ '':'' @ key) =
        \<lparr>pb_turnId = turn, messageType = key, role = ''assistant'', target = Some (ToolCall e)\<rparr>)"
  using key_of_cases [of "Some e" s b key]
  by (auto simp: bookmark_facts)

lemma bookmark_id_roundtrip_witness:
  "parseBookmarkId (''t:1'' @ '':'' @ ''p-ev-7-0-12'') =
     \<lparr>pb_turnId = ''t:1'', messageType = ''p-ev-7-0-12'', role = ''assistant'',
      target = Some (Paragraph (''ev-7'' @ ''-'' @ nat_digits 0) 12)\<rparr>"
proof -
  have "paragraphBookmarkKey (Some ''ev-7'') 0 12 = Some ''p-ev-7-0-12''"
    by code_simp
  then show ?thesis
    using bookmark_id_roundtrip [of "''ev-7''" 0 12 "''p-ev-7-0-12''" "''t:1''"] by simp
qed

end
