(* ===== verification/Parsers.thy ===== *)
theory Parsers
  imports Prelude
begin

text \<open>
  Scanning of tagged text: the global, lazy patterns \<open><tag>([\s\S]*?)</tag>\<close> of \<open>utils/parsers.js\<close> and
  \<open>utils/eventProcessing.js\<close>, and the fixed protocol patterns of \<open>config/schema.js\<close>.
\<close>

section \<open>Tagged regions\<close>

text \<open>
  All matches of \<open>open body close\<close>, each with the text since the previous match, and the text after the
  last one. A body ends at the first closing tag after its opening tag, and an opening tag with no
  closing tag after it is no match (nor is any later one).
\<close>

function tag_matches :: "string \<Rightarrow> string \<Rightarrow> string \<Rightarrow> (string \<times> string) list \<times> string" where
  "tag_matches op cl s =
     (case split_on op s of
        None \<Rightarrow> ([], s)
      | Some (before, rest) \<Rightarrow>
          (case split_on cl rest of
             None \<Rightarrow> ([], s)
           | Some (body, after) \<Rightarrow>
               if op = [] \<or> cl = [] then ([], s)
               else let (ms, tail) = tag_matches op cl after in ((before, body) # ms, tail)))"
  by pat_completeness auto
termination
proof (relation "measure (\<lambda>(op, cl, s). length s)")
  fix op cl s x :: string and y before rest x2 body after
  assume "split_on op s = Some x2" "(before, rest) = x2" "split_on cl rest = Some y" "(body, after) = y"
    "\<not> (op = [] \<or> cl = [])"
  then have "length rest < length s" "length after < length rest"
    using split_on_shorter by blast+
  then show "((op, cl, after), op, cl, s) \<in> measure (\<lambda>(op, cl, s). length s)" by simp
qed simp

declare tag_matches.simps [simp del]

text \<open>The text the matches were found in.\<close>

definition untag :: "string \<Rightarrow> string \<Rightarrow> (string \<times> string) list \<times> string \<Rightarrow> string" where
  "untag op cl m = concat (map (\<lambda>(before, body). before @ op @ body @ cl) (fst m)) @ snd m"

lemma tag_matches_step:
  "split_on op s = Some (before, rest) \<Longrightarrow> split_on cl rest = Some (body, after) \<Longrightarrow> op \<noteq> [] \<Longrightarrow> cl \<noteq> [] \<Longrightarrow>
     tag_matches op cl s = ((before, body) # fst (tag_matches op cl after), snd (tag_matches op cl after))"
  by (simp add: tag_matches.simps [of op cl s] case_prod_beta)

lemma tag_matches_complete: "untag op cl (tag_matches op cl s) = s"
proof (induction op cl s rule: tag_matches.induct)
  case (1 op cl s)
  show ?case
  proof (cases "split_on op s")
    case None
    then show ?thesis by (simp add: tag_matches.simps [of op cl s] untag_def)
  next
    case (Some p)
    obtain before rest where p: "p = (before, rest)" by force
    note Some = Some [unfolded p]
    show ?thesis
    proof (cases "split_on cl rest")
      case None
      with Some show ?thesis by (simp add: tag_matches.simps [of op cl s] untag_def)
    next
      case body: (Some q)
      obtain b after where q: "q = (b, after)" by force
      note body = body [unfolded q]
      show ?thesis
      proof (cases "op = [] \<or> cl = []")
        case True
        with Some body show ?thesis by (simp add: tag_matches.simps [of op cl s] untag_def)
      next
        case False
        then have "untag op cl (tag_matches op cl after) = after"
          by (rule "1.IH" [OF Some refl body refl])
        moreover have "tag_matches op cl s
            = ((before, b) # fst (tag_matches op cl after), snd (tag_matches op cl after))"
          using tag_matches_step [OF Some body] False by simp
        ultimately have "untag op cl (tag_matches op cl s) = before @ op @ b @ cl @ after"
          by (simp add: untag_def)
        with split_on_Some [OF Some] split_on_Some [OF body] show ?thesis by simp
      qed
    qed
  qed
qed

text \<open>Text with no opening tag has no match, and an opening tag is found with its first closing tag.\<close>

lemma tag_matches_none: "\<not> str_includes op s \<Longrightarrow> tag_matches op cl s = ([], s)"
  by (simp only: tag_matches.simps [of op cl s] str_includes_def not_not) simp

section \<open>System reminders\<close>

text \<open>\<open>replace(/^\n+|\n+$/g, '')\<close>.\<close>

definition strip_newlines :: "string \<Rightarrow> string" where
  "strip_newlines s =
     (let nl = (\<lambda>c. c = CHR 0x0A) in rev (dropWhile nl (rev (dropWhile nl s))))"

definition extractSystemReminders :: "string \<Rightarrow> string \<times> string list" where
  "extractSystemReminders text =
     (let (ms, rest) = tag_matches ''<system-reminder>'' ''</system-reminder>'' text
      in (strip_newlines (concat (map fst ms) @ rest), map (\<lambda>m. trim (snd m)) ms))"

section \<open>Thinking segments\<close>

datatype segment = Seg_text string | Seg_thinking string

definition seg_if :: "(string \<Rightarrow> segment) \<Rightarrow> string \<Rightarrow> segment list" where
  "seg_if mk s = (let t = trim s in if t \<noteq> [] then [mk t] else [])"

definition extractThinkingFromText :: "string \<Rightarrow> segment list" where
  "extractThinkingFromText text =
     (let (ms, rest) = tag_matches ''<thinking>'' ''</thinking>'' text
      in concat (map (\<lambda>(before, body). seg_if Seg_text before @ seg_if Seg_thinking body) ms)
         @ seg_if Seg_text rest)"

text \<open>\<open>THINKING_XML_PATTERN.test\<close>.\<close>

definition has_thinking_xml :: "string \<Rightarrow> bool" where
  "has_thinking_xml s \<longleftrightarrow> fst (tag_matches ''<thinking>'' ''</thinking>'' s) \<noteq> []"

section \<open>Protocol patterns\<close>

text \<open>A text between a fixed prefix and suffix.\<close>

definition between :: "string \<Rightarrow> string \<Rightarrow> string \<Rightarrow> string option" where
  "between p q s =
     (if starts_with p s \<and> length p + length q \<le> length s \<and> ends_with q s
      then Some (take (length s - length p - length q) (drop (length p) s)) else None)"

definition matches_set_echo :: "string \<Rightarrow> string \<Rightarrow> bool" where
  "matches_set_echo what s =
     (case between (''<local-command-stdout>Set '' @ what @ '' to '') ''</local-command-stdout>'' s of
        Some m \<Rightarrow> m \<noteq> [] \<and> (\<forall>c \<in> set m. \<not> js_newline c)
      | None \<Rightarrow> False)"

definition MODEL_SET_PATTERN :: "string \<Rightarrow> bool" where
  "MODEL_SET_PATTERN s = matches_set_echo ''model'' s"

definition EFFORT_SET_PATTERN :: "string \<Rightarrow> bool" where
  "EFFORT_SET_PATTERN s = matches_set_echo ''effort'' s"

definition INTERRUPT_ACK_PATTERN :: "string \<Rightarrow> bool" where
  "INTERRUPT_ACK_PATTERN s =
     (case between ''['' '']'' s of
        Some m \<Rightarrow> str_includes ''interrupt'' (to_lower m) \<and> (\<forall>c \<in> set m. \<not> js_newline c)
      | None \<Rightarrow> False)"

definition STOP_HOOK_FEEDBACK_PATTERN :: string where
  "STOP_HOOK_FEEDBACK_PATTERN = ''Stop hook feedback:''"

definition NO_VISIBLE_OUTPUT_PATTERN :: "string \<Rightarrow> bool" where
  "NO_VISIBLE_OUTPUT_PATTERN s =
     (case between ''[Your previous response had no visible output.'' '']'' s of
        Some m \<Rightarrow> CHR '']'' \<notin> set m
      | None \<Rightarrow> False)"

definition SKILL_REINVOCATION_PATTERN :: "string \<Rightarrow> bool" where
  "SKILL_REINVOCATION_PATTERN s =
     (case between ''(Re-invocation of /'' '')'' s of
        Some (c # _) \<Rightarrow> \<not> js_space c
      | _ \<Rightarrow> False)"

section \<open>What extraction keeps\<close>

lemma strip_newlines_Nil [simp]: "strip_newlines [] = []"
  by (simp add: strip_newlines_def)

lemma extractSystemReminders_plain:
  "\<not> str_includes ''<system-reminder>'' s \<Longrightarrow> extractSystemReminders s = (strip_newlines s, [])"
  by (simp add: extractSystemReminders_def tag_matches_none)

text \<open>The first tag of a text whose leading part has none is where it is split.\<close>

lemma split_on_tagged:
  assumes "hd p \<notin> set a" and "p \<noteq> []"
  shows "split_on p (a @ p @ b) = Some (a, b)"
  using assms
proof (induction a)
  case Nil
  then show ?case by (cases p) (auto simp: starts_with_def)
next
  case (Cons c a)
  have "\<not> starts_with p ((c # a) @ p @ b)"
  proof
    assume "starts_with p ((c # a) @ p @ b)"
    then have "hd p = c" using Cons.prems(2) by (cases p) (auto simp: starts_with_iff)
    with Cons.prems(1) show False by simp
  qed
  with Cons show ?case by (simp add: starts_with_def)
qed

end
