(* ===== verification/Visibility.thy ===== *)
theory Visibility
  imports Tools Bookmarks
begin

text \<open>
  Which tool calls a view hides and which it routes to the side slot: the rules of
  \<open>utils/eventProcessing.js\<close> over a call and its result.
\<close>

text \<open>What callers pass as the routing mode: one of the four named states, or a legacy boolean, or
  nothing.\<close>

datatype routing_mode =
    Mode_OFF | Mode_FOCUSED | Mode_BASH_ONLY | Mode_ALL_TOOLS
  | Mode_legacy bool | Mode_absent

text \<open>Optional chaining on the result: an absent result is no failure.\<close>

definition failed :: "event option \<Rightarrow> bool" where
  "failed r = (case r of Some e \<Rightarrow> is_error e | None \<Rightarrow> False)"

definition isHiddenToolSearch :: "event \<Rightarrow> event option \<Rightarrow> bool" where
  "isHiddenToolSearch toolUse toolResult =
     (if toolOf toolUse \<noteq> Some TOOL_SEARCH then False else \<not> failed toolResult)"

definition is_bookmarked :: "string list \<Rightarrow> event \<Rightarrow> bool" where
  "is_bookmarked parts toolUse =
     (case toolBookmarkKey (tool_use_id toolUse) of Some k \<Rightarrow> k \<in> set parts | None \<Rightarrow> False)"

definition isHiddenInFocused ::
  "event \<Rightarrow> event option \<Rightarrow> string list \<Rightarrow> (string option \<Rightarrow> bool) \<Rightarrow> bool" where
  "isHiddenInFocused toolUse toolResult bookmarkedParts isMarked =
     (if failed toolResult \<or> is_bookmarked bookmarkedParts toolUse then False
      else (case toolOf toolUse of Some n \<Rightarrow> n \<in> set FOCUSED_HIDDEN_TOOLS | None \<Rightarrow> False)
        \<or> isReadOnlyCall toolUse toolResult
        \<or> mcp_read_only toolUse
        \<or> isMarked (content toolUse))"

definition isToolBlockHidden ::
  "routing_mode \<Rightarrow> event \<Rightarrow> event option \<Rightarrow> string list \<Rightarrow> (string option \<Rightarrow> bool) \<Rightarrow> bool" where
  "isToolBlockHidden mode toolUse toolResult bookmarkedParts isMarked \<longleftrightarrow>
     isHiddenToolSearch toolUse toolResult
     \<or> (mode = Mode_FOCUSED \<and> isHiddenInFocused toolUse toolResult bookmarkedParts isMarked)"

definition isTopLevelBashCall :: "event \<Rightarrow> bool" where
  "isTopLevelBashCall toolUse \<longleftrightarrow> toolOf toolUse = Some BASH \<and> \<not> nested toolUse"

definition resolve_mode :: "routing_mode \<Rightarrow> routing_mode" where
  "resolve_mode mode =
     (case mode of
        Mode_legacy True \<Rightarrow> Mode_BASH_ONLY
      | Mode_legacy False \<Rightarrow> Mode_OFF
      | Mode_absent \<Rightarrow> Mode_OFF
      | m \<Rightarrow> m)"

definition blockRoutesToRightSlot :: "routing_mode \<Rightarrow> event \<Rightarrow> bool" where
  "blockRoutesToRightSlot mode toolUse =
     (let resolved = resolve_mode mode
      in if resolved = Mode_BASH_ONLY then isTopLevelBashCall toolUse
         else if resolved = Mode_ALL_TOOLS then \<not> nested toolUse
         else False)"

definition isToolBlockVisible ::
  "routing_mode \<Rightarrow> event \<Rightarrow> event option \<Rightarrow> string list \<Rightarrow> (string option \<Rightarrow> bool) \<Rightarrow> bool" where
  "isToolBlockVisible mode toolUse toolResult bookmarkedParts isMarked =
     (if isToolBlockHidden mode toolUse toolResult bookmarkedParts isMarked then False
      else \<not> blockRoutesToRightSlot mode toolUse)"

section \<open>What always shows\<close>

lemma hidden_not_failed:
  "isToolBlockHidden mode u r parts marked \<Longrightarrow> \<not> failed r"
  by (auto simp: isToolBlockHidden_def isHiddenToolSearch_def isHiddenInFocused_def split: if_splits)

lemma routed_top_level:
  "blockRoutesToRightSlot mode u \<Longrightarrow> \<not> nested u"
  by (auto simp: blockRoutesToRightSlot_def isTopLevelBashCall_def Let_def split: if_splits)

lemma focused_routes_nothing: "\<not> blockRoutesToRightSlot Mode_FOCUSED u"
  by (simp add: blockRoutesToRightSlot_def resolve_mode_def)

text \<open>No view loses a failure: whatever the mode, the bookmarks and the tools marked hidden, a call
  that failed is never hidden - it is drawn inline or, being a top-level call, in the side slot, and
  never in both places; a subagent's failed call is always drawn inline.\<close>

theorem failed_call_is_shown:
  assumes "failed r"
  shows "\<not> isToolBlockHidden mode u r parts marked
    \<and> (isToolBlockVisible mode u r parts marked \<longleftrightarrow> \<not> blockRoutesToRightSlot mode u)
    \<and> (nested u \<longrightarrow> isToolBlockVisible mode u r parts marked)"
  using assms hidden_not_failed [of mode u r parts marked] routed_top_level [of mode u]
  by (auto simp: isToolBlockVisible_def)

lemma failed_call_is_shown_witness:
  "isToolBlockVisible Mode_FOCUSED (blank_event\<lparr>ev_subtype := Sub_TOOL_USE, content := Some READ\<rparr>)
      (Some (blank_event\<lparr>ev_subtype := Sub_TOOL_RESULT, is_error := True\<rparr>)) [] (\<lambda>_. True)"
proof -
  have "failed (Some (blank_event\<lparr>ev_subtype := Sub_TOOL_RESULT, is_error := True\<rparr>))"
    by (simp add: failed_def)
  then show ?thesis using failed_call_is_shown focused_routes_nothing by blast
qed

end
