(* ===== verification/Blocks.thy ===== *)
theory Blocks
  imports Visibility Parsers
begin

text \<open>
  The renderable blocks of a turn: \<open>indexEvents\<close>, \<open>processEvents\<close>, \<open>processNestedEvents\<close> and their
  helpers in \<open>utils/eventProcessing.js\<close>.

  The code keeps the skill texts of a turn as a set of event objects, that is by identity; here they
  are the positions of those events in the turn's list. The \<open>JSON.stringify\<close> key of a nested event is
  the triple it encodes.
\<close>

section \<open>The first pass\<close>

record skill_pairing =
  callIds :: "string option list"
  awaiting :: "string option"
  skillContents :: "string \<rightharpoonup> string option"
  skillTexts :: "nat list"

record event_index =
  ix_toolResults :: "string \<rightharpoonup> event"
  ix_nestedEvents :: "string \<rightharpoonup> event list"
  ix_compactionSummary :: "(string \<times> string option list) list"
  ix_pairing :: skill_pairing
  ix_lastCompact :: "string option"
  ix_dedupSources :: "(string \<times> event_subtype \<times> string) \<rightharpoonup> bool"

definition empty_index :: event_index where
  "empty_index =
     \<lparr>ix_toolResults = Map.empty, ix_nestedEvents = Map.empty, ix_compactionSummary = [],
      ix_pairing = \<lparr>callIds = [], awaiting = None, skillContents = Map.empty, skillTexts = []\<rparr>,
      ix_lastCompact = None, ix_dedupSources = Map.empty\<rparr>"

definition parent_key :: "event \<Rightarrow> string" where
  "parent_key e = str_or (parent_tool_use_id e) []"

definition nestedDedupKey :: "event \<Rightarrow> string \<times> event_subtype \<times> string" where
  "nestedDedupKey e =
     (parent_key e, ev_subtype e,
      case tool_use_id e of Some t \<Rightarrow> t | None \<Rightarrow> trim (str_or (content e) []))"

text \<open>A user message no human wrote.\<close>

definition isAddedText :: "event \<Rightarrow> bool" where
  "isAddedText e \<longleftrightarrow> ev_type e = Ty_USER \<and> \<not> is_human e \<and> ev_subtype e = Sub_TEXT"

definition pairSkillText :: "nat \<Rightarrow> event \<Rightarrow> skill_pairing \<Rightarrow> skill_pairing" where
  "pairSkillText i e p =
     (if ev_subtype e = Sub_TOOL_USE then
        (let p' = p\<lparr>awaiting := None\<rparr>
         in if content e = Some SKILL then p'\<lparr>callIds := tool_use_id e # callIds p'\<rparr> else p')
      else if ev_subtype e = Sub_TOOL_RESULT then
        (if tool_use_id e \<in> set (callIds p) \<and> \<not> is_error e then p\<lparr>awaiting := tool_use_id e\<rparr> else p)
      else if isAddedText e then
        (if nonempty (awaiting p) then
           (let p' = p\<lparr>skillTexts := i # skillTexts p\<rparr>
            in if \<not> SKILL_REINVOCATION_PATTERN (trim (str_or (content e) []))
               then p'\<lparr>skillContents := (skillContents p')(str_or (awaiting p) [] \<mapsto> content e),
                       awaiting := None\<rparr>
               else p')
         else p)
      else if ev_type e = Ty_ASSISTANT \<or> ev_type e = Ty_RESULT then p\<lparr>awaiting := None\<rparr>
      else p)"

definition noteResult :: "event \<Rightarrow> event_index \<Rightarrow> event_index" where
  "noteResult e ix =
     (if ev_subtype e = Sub_TOOL_RESULT \<and> nonempty (tool_use_id e)
      then ix\<lparr>ix_toolResults := (ix_toolResults ix)(str_or (tool_use_id e) [] \<mapsto> e)\<rparr>
      else ix)"

text \<open>The compaction a non-human message summarises.\<close>

definition addSummary :: "string \<Rightarrow> string option \<Rightarrow> (string \<times> string option list) list
    \<Rightarrow> (string \<times> string option list) list" where
  "addSummary k c m = AList.update k ((case map_of m k of None \<Rightarrow> [] | Some cs \<Rightarrow> cs) @ [c]) m"

definition noteCompaction :: "event \<Rightarrow> event_index \<Rightarrow> event_index" where
  "noteCompaction e ix =
     (if ev_subtype e = Sub_COMPACT_BOUNDARY then ix\<lparr>ix_lastCompact := ev_id e\<rparr>
      else if ev_subtype e = Sub_TOOL_USE \<and> content e = Some SKILL then ix\<lparr>ix_lastCompact := None\<rparr>
      else if ev_type e = Ty_USER \<and> \<not> is_human e then
        (if nonempty (ix_lastCompact ix)
         then ix\<lparr>ix_compactionSummary :=
                addSummary (str_or (ix_lastCompact ix) []) (content e) (ix_compactionSummary ix)\<rparr>
         else ix)
      else if ev_subtype e \<noteq> Sub_TOOL_RESULT then ix\<lparr>ix_lastCompact := None\<rparr>
      else ix)"

text \<open>A nested event is kept unless its key was first seen from the other source (live or tailed).\<close>

definition noteNested :: "event \<Rightarrow> event_index \<Rightarrow> event_index" where
  "noteNested e ix =
     (let key = nestedDedupKey e; isTailed = nonempty (source_file e); parentId = parent_key e;
          claimed = ix_dedupSources ix key;
          ix' = (if claimed = None then ix\<lparr>ix_dedupSources := (ix_dedupSources ix)(key \<mapsto> isTailed)\<rparr> else ix);
          isDuplicate = (case claimed of None \<Rightarrow> False | Some b \<Rightarrow> b \<noteq> isTailed)
      in if isDuplicate then ix'
         else ix'\<lparr>ix_nestedEvents := (ix_nestedEvents ix')(parentId \<mapsto>
                (case ix_nestedEvents ix' parentId of None \<Rightarrow> [] | Some es \<Rightarrow> es) @ [e])\<rparr>)"

definition indexStep :: "event_index \<Rightarrow> nat \<times> event \<Rightarrow> event_index" where
  "indexStep ix ie =
     (case ie of (i, e) \<Rightarrow>
        let ix1 = noteCompaction e (noteResult e ix)
        in if nested e then noteNested e ix1
           else if \<not> nonempty (ix_lastCompact ix1)
           then ix1\<lparr>ix_pairing := pairSkillText i e (ix_pairing ix1)\<rparr>
           else ix1)"

definition indexEvents :: "event list \<Rightarrow> event_index" where
  "indexEvents es = foldl indexStep empty_index (enumerate 0 es)"

definition hasCompactBoundary :: "event list \<Rightarrow> bool" where
  "hasCompactBoundary es \<longleftrightarrow> (\<exists>e \<in> set es. ev_subtype e = Sub_COMPACT_BOUNDARY)"

section \<open>The second pass\<close>

datatype injected_source = STOP_HOOK | CLAUDE_CODE | SYSTEM_REMINDER

type_synonym added_entry = "injected_source \<times> string"

datatype block_body =
    Block_text event "nat option"
  | Block_thinking event
  | Block_tool event "event option" "event list option" "string option"
  | Block_compaction event "string option list option" bool

record block =
  body :: block_body
  injected :: "added_entry list option"

definition mk_block :: "block_body \<Rightarrow> block" where
  "mk_block b = \<lparr>body = b, injected = None\<rparr>"

text \<open>\<open>replace(/\\n/g, '\n')\<close>: an escaped line break, two characters, becomes one.\<close>

fun unescape_newlines :: "string \<Rightarrow> string" where
  "unescape_newlines [] = []"
| "unescape_newlines [c] = [c]"
| "unescape_newlines (c # d # cs) =
     (if c = CHR 0x5C \<and> d = CHR ''n'' then CHR 0x0A # unescape_newlines cs
      else c # unescape_newlines (d # cs))"

definition reminderEntries :: "string list \<Rightarrow> added_entry list" where
  "reminderEntries reminders = map (\<lambda>r. (SYSTEM_REMINDER, trim (unescape_newlines r))) reminders"

fun drop_newline :: "string \<Rightarrow> string" where
  "drop_newline (c # cs) = (if c = CHR 0x0A then cs else c # cs)"
| "drop_newline [] = []"

text \<open>What a message no one wrote adds to the block before it, \<open>None\<close> when it is not such a message.\<close>

definition addedTexts :: "event \<Rightarrow> added_entry list option" where
  "addedTexts e =
     (if \<not> isAddedText e then None
      else
        (let text = str_or (content e) []
         in if starts_with STOP_HOOK_FEEDBACK_PATTERN text then
              Some [(STOP_HOOK, trim (drop_newline (drop (length STOP_HOOK_FEEDBACK_PATTERN) text)))]
            else if NO_VISIBLE_OUTPUT_PATTERN (trim text) then Some [(CLAUDE_CODE, trim text)]
            else (case extractSystemReminders text of (rest, reminders) \<Rightarrow>
                    if reminders \<noteq> [] \<and> trim rest = [] then Some (reminderEntries reminders) else None)))"

definition isInterruptAck :: "event \<Rightarrow> bool" where
  "isInterruptAck e \<longleftrightarrow> isAddedText e \<and>
     (case content e of Some c \<Rightarrow> INTERRUPT_ACK_PATTERN (trim c) | None \<Rightarrow> False)"

fun anchors_added :: "block_body \<Rightarrow> bool" where
  "anchors_added (Block_tool u r _ _) = (\<not> isHiddenToolSearch u r)"
| "anchors_added _ = True"

definition addInjected :: "added_entry list \<Rightarrow> block \<Rightarrow> block" where
  "addInjected entries b =
     b\<lparr>injected := Some ((case injected b of None \<Rightarrow> [] | Some es \<Rightarrow> es) @ entries)\<rparr>"

definition attachInjected ::
  "block list \<Rightarrow> added_entry list \<Rightarrow> added_entry list \<Rightarrow> block list \<times> added_entry list" where
  "attachInjected blocks turnInjected entries =
     (case last_index (\<lambda>b. anchors_added (body b)) blocks of
        Some i \<Rightarrow> (update_at i (addInjected entries) blocks, turnInjected)
      | None \<Rightarrow> (blocks, turnInjected @ entries))"

text \<open>The blocks of an assistant text with embedded thinking: text segments are numbered.\<close>

fun segmentBlocks :: "event \<Rightarrow> nat \<Rightarrow> segment list \<Rightarrow> block_body list" where
  "segmentBlocks e n [] = []"
| "segmentBlocks e n (Seg_thinking t # ss) =
     Block_thinking (e\<lparr>content := Some t, ev_subtype := Sub_THINKING\<rparr>) # segmentBlocks e n ss"
| "segmentBlocks e n (Seg_text t # ss) =
     Block_text (e\<lparr>content := Some t\<rparr>) (Some n) # segmentBlocks e (Suc n) ss"

text \<open>What one event of the second pass does: nothing, push blocks, or attach added text.\<close>

datatype emission = Emit "block_body list" | Attach "added_entry list"

definition has_text :: "event \<Rightarrow> bool" where
  "has_text e = (case content e of Some c \<Rightarrow> trim c \<noteq> [] | None \<Rightarrow> False)"

definition isRedundantText :: "event_index \<Rightarrow> nat \<Rightarrow> event \<Rightarrow> bool" where
  "isRedundantText ix i e \<longleftrightarrow>
     i \<in> set (skillTexts (ix_pairing ix))
     \<or> list_ex (\<lambda>(_, texts). content e \<in> set texts) (ix_compactionSummary ix)
     \<or> MODEL_SET_PATTERN (trim (str_or (content e) []))
     \<or> EFFORT_SET_PATTERN (trim (str_or (content e) []))
     \<or> isInterruptAck e"

definition toolBlock :: "event_index \<Rightarrow> event \<Rightarrow> block_body" where
  "toolBlock ix e =
     (if nonempty (tool_use_id e)
      then (let t = str_or (tool_use_id e) []
            in Block_tool e (ix_toolResults ix t) (ix_nestedEvents ix t)
                 (case skillContents (ix_pairing ix) t of Some c \<Rightarrow> c | None \<Rightarrow> None))
      else Block_tool e None None None)"

definition emitEvent :: "event_index \<Rightarrow> bool \<Rightarrow> nat \<Rightarrow> event \<Rightarrow> emission" where
  "emitEvent ix boundary i e =
     (if nested e then Emit []
      else if ev_subtype e = Sub_TEXT \<and> has_text e then
        (let text = str_or (content e) []
         in if ev_type e = Ty_ASSISTANT \<and> to_lower (trim text) = ''(no content)'' then Emit []
            else if ev_type e = Ty_USER \<and> \<not> is_human e \<and> isRedundantText ix i e then Emit []
            else if ev_type e = Ty_USER \<and> \<not> is_human e \<and> addedTexts e \<noteq> None then
              (case addedTexts e of Some added \<Rightarrow> Attach added | None \<Rightarrow> Emit [])
            else if ev_type e = Ty_ASSISTANT \<and> has_thinking_xml text
                 then Emit (segmentBlocks e 0 (extractThinkingFromText text))
            else Emit [Block_text e (Some 0)])
      else if ev_subtype e = Sub_THINKING then (if has_text e then Emit [Block_thinking e] else Emit [])
      else if ev_subtype e = Sub_TOOL_USE then Emit [toolBlock ix e]
      else if ev_subtype e = Sub_COMPACT_START then
        (if \<not> boundary then Emit [Block_compaction e None True] else Emit [])
      else if ev_subtype e = Sub_COMPACT_BOUNDARY then
        Emit [Block_compaction e
               (case ev_id e of None \<Rightarrow> None | Some k \<Rightarrow> map_of (ix_compactionSummary ix) k) False]
      else if ev_type e = Ty_SYSTEM \<and> ev_subtype e = Sub_ERROR then
        (if has_text e then Emit [Block_text e None] else Emit [])
      else Emit [])"

definition applyEmission :: "block list \<times> added_entry list \<Rightarrow> emission \<Rightarrow> block list \<times> added_entry list" where
  "applyEmission bi em =
     (case (bi, em) of
        ((blocks, added), Emit bs) \<Rightarrow> (blocks @ map mk_block bs, added)
      | ((blocks, added), Attach entries) \<Rightarrow> attachInjected blocks added entries)"

definition processEvents :: "event list \<Rightarrow> block list \<times> added_entry list" where
  "processEvents es =
     (let ix = indexEvents es; boundary = hasCompactBoundary es
      in foldl (\<lambda>bi (i, e). applyEmission bi (emitEvent ix boundary i e)) ([], []) (enumerate 0 es))"

section \<open>Added text across the session\<close>

definition toolInjected :: "block list \<Rightarrow> (string option \<rightharpoonup> added_entry list)" where
  "toolInjected bs =
     map_of (rev (concat (map (\<lambda>b. case (body b, injected b) of
        (Block_tool u _ _ _, Some entries) \<Rightarrow> [(tool_use_id u, entries)] | _ \<Rightarrow> []) bs)))"

fun splitTurns :: "event list \<Rightarrow> event list \<Rightarrow> event list list" where
  "splitTurns acc [] = [acc]"
| "splitTurns acc (e # es) = (if opensTurn e then acc # splitTurns [] es else splitTurns (acc @ [e]) es)"

definition injectedByToolUse :: "event list \<Rightarrow> (string option \<rightharpoonup> added_entry list)" where
  "injectedByToolUse es =
     (if \<not> (\<exists>e \<in> set es. addedTexts e \<noteq> None) then Map.empty
      else foldl (\<lambda>m turn. m ++ toolInjected (fst (processEvents turn))) Map.empty (splitTurns [] es))"

section \<open>Nested events\<close>

datatype nested_block = Nested_tool event "event option" | Nested_text event

definition nestedResults :: "event list \<Rightarrow> (string \<rightharpoonup> event)" where
  "nestedResults es =
     foldl (\<lambda>m e. if \<not> is_human e \<and> ev_subtype e = Sub_TOOL_RESULT \<and> nonempty (tool_use_id e)
                 then m(str_or (tool_use_id e) [] \<mapsto> e) else m) Map.empty es"

definition processNestedEvents ::
  "event list option \<Rightarrow> routing_mode \<Rightarrow> (string option \<Rightarrow> bool) \<Rightarrow> nested_block list" where
  "processNestedEvents events mode isMarked =
     (case events of
        None \<Rightarrow> []
      | Some es \<Rightarrow>
          (let results = nestedResults es
           in concat (map (\<lambda>e.
                if is_human e then []
                else if ev_subtype e = Sub_TOOL_USE then
                  (let result = (if nonempty (tool_use_id e) then results (str_or (tool_use_id e) []) else None)
                   in if isToolBlockHidden mode e result [] isMarked then [] else [Nested_tool e result])
                else if ev_type e = Ty_ASSISTANT \<and> ev_subtype e = Sub_TEXT \<and> has_text e
                     then [Nested_text e] else []) es)))"

text \<open>\<open>hasVisibleBlock\<close>.\<close>

definition hasVisibleBlock ::
  "block list \<Rightarrow> routing_mode \<Rightarrow> string list \<Rightarrow> (string option \<Rightarrow> bool) \<Rightarrow> bool" where
  "hasVisibleBlock blocks mode bookmarkedParts isMarked =
     list_ex (\<lambda>b. case body b of
        Block_tool u r _ _ \<Rightarrow> isToolBlockVisible mode u r bookmarkedParts isMarked
      | _ \<Rightarrow> True) blocks"

section \<open>Added text leaves the block alone\<close>

lemma body_addInjected [simp]: "body (addInjected es b) = body b"
  by (simp add: addInjected_def)

end
