(* ===== verification/BlockFacts.thy ===== *)
theory BlockFacts
  imports Blocks "HOL-Library.Multiset"
begin

text \<open>
  What block creation guarantees: every top-level call becomes exactly one block, paired with its last
  result; which added texts are shown, each once; a subagent's events are listed once, from one source.
\<close>

lemma enumerate_snoc: "enumerate 0 (es @ [e]) = enumerate 0 es @ [(length es, e)]"
  by (simp add: enumerate_append_eq)

lemma concat_map_if: "concat (map (\<lambda>x. if p x then [f x] else []) xs) = map f (filter p xs)"
  by (induction xs) simp_all

section \<open>The bodies a turn produces\<close>

fun emitted :: "emission \<Rightarrow> block_body list" where
  "emitted (Emit bs) = bs"
| "emitted (Attach _) = []"

fun attached :: "emission \<Rightarrow> added_entry list" where
  "attached (Emit _) = []"
| "attached (Attach es) = es"

definition block_added :: "block list \<times> added_entry list \<Rightarrow> added_entry multiset" where
  "block_added bi = mset (concat (map (\<lambda>b. case injected b of None \<Rightarrow> [] | Some es \<Rightarrow> es) (fst bi)))
     + mset (snd bi)"

lemma applyEmission_body:
  "map body (fst (applyEmission bi em)) = map body (fst bi) @ emitted em"
  by (cases bi; cases em)
     (auto simp: applyEmission_def attachInjected_def mk_block_def map_update_at o_def split: option.splits)

lemma mset_concat_update:
  assumes "i < length xs" and "\<And>x. mset (f (g x)) = mset (f x) + M"
  shows "mset (concat (map f (update_at i g xs))) = mset (concat (map f xs)) + M"
proof -
  have split: "xs = take i xs @ xs ! i # drop (Suc i) xs"
    by (rule id_take_nth_drop [OF assms(1)])
  have "update_at i g xs = take i xs @ g (xs ! i) # drop (Suc i) xs"
    by (simp only: update_at_def upd_conv_take_nth_drop [OF assms(1)])
  then have "mset (concat (map f (update_at i g xs)))
      = mset (concat (map f (take i xs @ xs ! i # drop (Suc i) xs))) + M"
    by (simp add: assms(2) ac_simps)
  with split show ?thesis by simp
qed

lemma applyEmission_added: "block_added (applyEmission bi em) = block_added bi + mset (attached em)"
proof (cases em)
  case (Emit bs)
  have "concat (map (\<lambda>b. case injected b of None \<Rightarrow> [] | Some es \<Rightarrow> es) (map mk_block bs)) = []"
    by (induction bs) (simp_all add: mk_block_def)
  with Emit show ?thesis by (cases bi) (simp add: applyEmission_def block_added_def)
next
  case (Attach es)
  obtain blocks ti where bi: "bi = (blocks, ti)" by force
  show ?thesis
  proof (cases "last_index (\<lambda>b. anchors_added (body b)) blocks")
    case None
    with Attach bi show ?thesis by (simp add: applyEmission_def attachInjected_def block_added_def)
  next
    case (Some i)
    then have "i < length blocks" using last_index_Some by blast
    with Attach bi Some show ?thesis
      by (simp add: applyEmission_def attachInjected_def block_added_def addInjected_def
          mset_concat_update [where M = "mset es"] split: option.splits)
  qed
qed

definition emissions :: "event list \<Rightarrow> emission list" where
  "emissions es = map (\<lambda>(i, e). emitEvent (indexEvents es) (hasCompactBoundary es) i e) (enumerate 0 es)"

lemma processEvents_emissions: "processEvents es = foldl applyEmission ([], []) (emissions es)"
  by (simp add: processEvents_def emissions_def foldl_map case_prod_unfold Let_def)

lemma foldl_emissions:
  "map body (fst (foldl applyEmission bi ems)) = map body (fst bi) @ concat (map emitted ems)"
  "block_added (foldl applyEmission bi ems) = block_added bi + mset (concat (map attached ems))"
  by (induction ems arbitrary: bi) (simp_all add: applyEmission_body applyEmission_added)

lemma processEvents_bodies: "map body (fst (processEvents es)) = concat (map emitted (emissions es))"
  by (simp add: processEvents_emissions foldl_emissions)

lemma processEvents_added: "block_added (processEvents es) = mset (concat (map attached (emissions es)))"
  by (simp add: processEvents_emissions foldl_emissions) (simp add: block_added_def)

section \<open>Calls and results\<close>

fun is_tool_body :: "block_body \<Rightarrow> bool" where
  "is_tool_body (Block_tool _ _ _ _) = True"
| "is_tool_body _ = False"

fun call_and_result :: "block_body \<Rightarrow> (event \<times> event option) list" where
  "call_and_result (Block_tool u r _ _) = [(u, r)]"
| "call_and_result _ = []"

definition calls_of :: "block list \<Rightarrow> (event \<times> event option) list" where
  "calls_of bs = concat (map call_and_result (map body bs))"

text \<open>The last result the events carry for a call.\<close>

definition resultFor :: "event list \<Rightarrow> string option \<Rightarrow> event option" where
  "resultFor es t =
     (if nonempty t then find (\<lambda>e. ev_subtype e = Sub_TOOL_RESULT \<and> tool_use_id e = t) (rev es) else None)"

definition isTopCall :: "event \<Rightarrow> bool" where
  "isTopCall e \<longleftrightarrow> \<not> nested e \<and> ev_subtype e = Sub_TOOL_USE"

lemma segmentBlocks_no_call: "b \<in> set (segmentBlocks e n ss) \<Longrightarrow> call_and_result b = []"
  by (induction e n ss rule: segmentBlocks.induct) auto

lemma emitEvent_calls:
  "concat (map call_and_result (emitted (emitEvent ix b i e))) =
     (if isTopCall e then call_and_result (toolBlock ix e) else [])"
  by (auto simp: emitEvent_def isTopCall_def segmentBlocks_no_call Let_def split: option.splits)

lemma noteCompaction_results [simp]: "ix_toolResults (noteCompaction e ix) = ix_toolResults ix"
  by (simp add: noteCompaction_def)

lemma noteNested_results [simp]: "ix_toolResults (noteNested e ix) = ix_toolResults ix"
  by (simp add: noteNested_def Let_def)

lemma indexStep_results:
  "ix_toolResults (indexStep ix (i, e)) = ix_toolResults (noteResult e ix)"
  by (simp add: indexStep_def Let_def)

lemma indexEvents_snoc:
  "indexEvents (es @ [e]) = indexStep (indexEvents es) (length es, e)"
  by (simp add: indexEvents_def enumerate_snoc)

lemma indexEvents_results:
  assumes "t \<noteq> []"
  shows "ix_toolResults (indexEvents es) t = resultFor es (Some t)"
proof (induction es rule: rev_induct)
  case Nil
  then show ?case by (simp add: indexEvents_def empty_index_def resultFor_def)
next
  case (snoc e es)
  with assms show ?case
    by (auto simp: indexEvents_snoc indexStep_results noteResult_def resultFor_def nonempty_iff str_or_def)
qed

text \<open>C7. Calls and blocks correspond one to one: the tool blocks of a turn are, in order, its top-level
  tool calls, each paired with the last result the turn holds for it - wherever in the turn that result
  lies - and with no result when it holds none.\<close>

theorem tool_blocks_pair_results:
  "calls_of (fst (processEvents es)) =
     map (\<lambda>u. (u, resultFor es (tool_use_id u))) (filter isTopCall es)"
proof -
  let ?ix = "indexEvents es"
  have pair: "call_and_result (toolBlock ?ix u) = [(u, resultFor es (tool_use_id u))]" for u
    using indexEvents_results [of "str_or (tool_use_id u) []" es]
    by (auto simp: toolBlock_def nonempty_iff str_or_def resultFor_def)
  have "calls_of (fst (processEvents es)) = concat (map call_and_result (concat (map emitted (emissions es))))"
    by (simp only: calls_of_def processEvents_bodies)
  also have "\<dots> = concat (map (\<lambda>(i, e). if isTopCall e then call_and_result (toolBlock ?ix e) else [])
                       (enumerate 0 es))"
    by (simp add: concat_map_concat emissions_def o_def case_prod_unfold emitEvent_calls)
  also have "\<dots> = concat (map (\<lambda>e. if isTopCall e then [(e, resultFor es (tool_use_id e))] else []) es)"
    by (simp add: pair map_enumerate_snd cong: if_cong)
  also have "\<dots> = map (\<lambda>u. (u, resultFor es (tool_use_id u))) (filter isTopCall es)"
    by (rule concat_map_if)
  finally show ?thesis .
qed

section \<open>What a compaction says\<close>

text \<open>
  The rules of the first pass, read off the positions of a turn's events. A compaction speaks after its
  boundary, for as long as only results and messages no one wrote follow: \<open>compacting pre\<close> holds after the
  events \<open>pre\<close> if going back from their end over such events one meets a boundary with an id. What such a
  message says there belongs to the compaction.
\<close>

definition skill_call :: "event \<Rightarrow> bool" where
  "skill_call e \<longleftrightarrow> ev_subtype e = Sub_TOOL_USE \<and> content e = Some SKILL"

definition unwritten :: "event \<Rightarrow> bool" where
  "unwritten e \<longleftrightarrow> ev_type e = Ty_USER \<and> \<not> is_human e \<and> ev_subtype e \<noteq> Sub_COMPACT_BOUNDARY \<and> \<not> skill_call e"

definition passes_compaction :: "event \<Rightarrow> bool" where
  "passes_compaction e \<longleftrightarrow> unwritten e \<or> ev_subtype e = Sub_TOOL_RESULT"

definition compacting :: "event list \<Rightarrow> bool" where
  "compacting pre \<longleftrightarrow>
     (case dropWhile passes_compaction (rev pre) of
        [] \<Rightarrow> False
      | b # bs \<Rightarrow> ev_subtype b = Sub_COMPACT_BOUNDARY \<and> nonempty (ev_id b))"

definition said_by_compaction :: "event list \<Rightarrow> string option \<Rightarrow> bool" where
  "said_by_compaction es c \<longleftrightarrow>
     (\<exists>i \<in> {0..<length es}. unwritten (es ! i) \<and> compacting (take i es) \<and> content (es ! i) = c)"

lemma compacting_snoc:
  "compacting (es @ [e]) \<longleftrightarrow>
     (if passes_compaction e then compacting es else ev_subtype e = Sub_COMPACT_BOUNDARY \<and> nonempty (ev_id e))"
  by (simp add: compacting_def)

lemma said_snoc:
  "said_by_compaction (es @ [e]) c \<longleftrightarrow>
     said_by_compaction es c \<or> (unwritten e \<and> compacting es \<and> content e = c)"
  by (auto simp: said_by_compaction_def nth_append less_Suc_eq)

lemma nonempty_None [simp]: "\<not> nonempty None"
  by (simp add: nonempty_iff)

lemma index_frames [simp]:
  "ix_pairing (noteCompaction e ix) = ix_pairing ix" "ix_pairing (noteResult e ix) = ix_pairing ix"
  "ix_pairing (noteNested e ix) = ix_pairing ix"
  "ix_lastCompact (noteResult e ix) = ix_lastCompact ix" "ix_lastCompact (noteNested e ix) = ix_lastCompact ix"
  "ix_compactionSummary (noteResult e ix) = ix_compactionSummary ix"
  "ix_compactionSummary (noteNested e ix) = ix_compactionSummary ix"
  by (simp_all add: noteCompaction_def noteResult_def noteNested_def Let_def)

lemma noteCompaction_result [simp]:
  "ix_lastCompact (noteCompaction e (noteResult e ix)) = ix_lastCompact (noteCompaction e ix)"
  "ix_compactionSummary (noteCompaction e (noteResult e ix)) = ix_compactionSummary (noteCompaction e ix)"
  unfolding noteCompaction_def by auto

lemma indexStep_lastCompact: "ix_lastCompact (indexStep ix (i, e)) = ix_lastCompact (noteCompaction e ix)"
  by (simp add: indexStep_def Let_def)

lemma indexStep_summary: "ix_compactionSummary (indexStep ix (i, e)) = ix_compactionSummary (noteCompaction e ix)"
  by (simp add: indexStep_def Let_def)

lemma index_lastCompact: "nonempty (ix_lastCompact (indexEvents es)) \<longleftrightarrow> compacting es"
proof (induction es rule: rev_induct)
  case Nil
  then show ?case by (simp add: indexEvents_def empty_index_def compacting_def)
next
  case (snoc e es)
  then show ?case
    by (auto simp: indexEvents_snoc indexStep_lastCompact compacting_snoc noteCompaction_def
        passes_compaction_def unwritten_def skill_call_def)
qed

definition summaries :: "(string \<times> string option list) list \<Rightarrow> string option set" where
  "summaries m = \<Union> (set ` snd ` set m)"

lemma summaries_add: "summaries (addSummary k c m) = insert c (summaries m)"
  unfolding addSummary_def summaries_def by (induction m) auto

lemma index_summaries: "c \<in> summaries (ix_compactionSummary (indexEvents es)) \<longleftrightarrow> said_by_compaction es c"
proof (induction es rule: rev_induct)
  case Nil
  then show ?case by (simp add: indexEvents_def empty_index_def summaries_def said_by_compaction_def)
next
  case (snoc e es)
  then show ?case
    using index_lastCompact [of es]
    by (auto simp: indexEvents_snoc indexStep_summary said_snoc noteCompaction_def unwritten_def
        skill_call_def summaries_add)
qed

section \<open>What a skill says\<close>

text \<open>
  A skill's text follows the result of its call. Only top-level events outside a compaction count, the
  quiet ones. \<open>awaits_text\<close> reads the quiet events before a position, the latest first: a text is awaited if
  going back over notes of a re-invocation, results of other calls, failed results and events of other
  kinds one meets a result of an earlier Skill call - and no call, no other message no one wrote and
  nothing of the assistant.
\<close>

definition quiet :: "event list \<Rightarrow> nat \<Rightarrow> bool" where
  "quiet es i \<longleftrightarrow> \<not> nested (es ! i) \<and> \<not> compacting (take (Suc i) es)"

definition quiet_events :: "event list \<Rightarrow> event list" where
  "quiet_events es = map (\<lambda>i. es ! i) (filter (quiet es) [0..<length es])"

definition succeeds_skill :: "event \<Rightarrow> event list \<Rightarrow> bool" where
  "succeeds_skill e before \<longleftrightarrow> ev_subtype e = Sub_TOOL_RESULT \<and> \<not> is_error e
     \<and> (\<exists>c \<in> set before. skill_call c \<and> tool_use_id c = tool_use_id e)"

fun awaits_text :: "event list \<Rightarrow> bool" where
  "awaits_text [] = False"
| "awaits_text (e # before) =
     (if succeeds_skill e before then nonempty (tool_use_id e)
      else ev_subtype e \<noteq> Sub_TOOL_USE
        \<and> (ev_subtype e = Sub_TOOL_RESULT
           \<or> (if isAddedText e then SKILL_REINVOCATION_PATTERN (trim (str_or (content e) []))
              else ev_type e \<noteq> Ty_ASSISTANT \<and> ev_type e \<noteq> Ty_RESULT))
        \<and> awaits_text before)"

definition skill_text :: "event list \<Rightarrow> nat \<Rightarrow> bool" where
  "skill_text es i \<longleftrightarrow> quiet es i \<and> isAddedText (es ! i) \<and> awaits_text (rev (quiet_events (take i es)))"

lemma quiet_append: "i < length es \<Longrightarrow> quiet (es @ fs) i = quiet es i"
  by (simp add: quiet_def nth_append)

lemma quiet_events_snoc:
  "quiet_events (es @ [e]) = quiet_events es @ (if \<not> nested e \<and> \<not> compacting (es @ [e]) then [e] else [])"
proof -
  have "filter (quiet (es @ [e])) [0..<length es] = filter (quiet es) [0..<length es]"
    by (rule filter_cong) (simp_all add: quiet_append)
  moreover have "map (\<lambda>i. (es @ [e]) ! i) (filter (quiet es) [0..<length es])
      = map (\<lambda>i. es ! i) (filter (quiet es) [0..<length es])"
    by (rule map_cong) (auto simp: nth_append)
  ultimately show ?thesis by (simp add: quiet_events_def quiet_def)
qed

lemma skill_text_append: "i < length es \<Longrightarrow> skill_text (es @ fs) i = skill_text es i"
  by (simp add: skill_text_def quiet_append nth_append)

text \<open>What the pairing of the first pass knows.\<close>

definition pairing_of :: "event list \<Rightarrow> skill_pairing \<Rightarrow> bool" where
  "pairing_of es p \<longleftrightarrow>
     set (callIds p) = tool_use_id ` {c \<in> set (quiet_events es). skill_call c}
     \<and> (nonempty (awaiting p) \<longleftrightarrow> awaits_text (rev (quiet_events es)))
     \<and> set (skillTexts p) = {i. i < length es \<and> skill_text es i}"

lemma pairSkillText_fields:
  "set (callIds (pairSkillText i e p)) = set (callIds p) \<union> (if skill_call e then {tool_use_id e} else {})"
  "nonempty (awaiting (pairSkillText i e p)) \<longleftrightarrow>
     (if ev_subtype e = Sub_TOOL_RESULT \<and> \<not> is_error e \<and> tool_use_id e \<in> set (callIds p)
      then nonempty (tool_use_id e)
      else ev_subtype e \<noteq> Sub_TOOL_USE
        \<and> (ev_subtype e = Sub_TOOL_RESULT
           \<or> (if isAddedText e then SKILL_REINVOCATION_PATTERN (trim (str_or (content e) []))
              else ev_type e \<noteq> Ty_ASSISTANT \<and> ev_type e \<noteq> Ty_RESULT))
        \<and> nonempty (awaiting p))"
  "set (skillTexts (pairSkillText i e p)) =
     set (skillTexts p) \<union> (if isAddedText e \<and> nonempty (awaiting p) then {i} else {})"
  by (auto simp: pairSkillText_def skill_call_def isAddedText_def Let_def)

lemma pairing_snoc:
  assumes pairing: "pairing_of es p" and quiet: "\<not> nested e" "\<not> compacting (es @ [e])"
  shows "pairing_of (es @ [e]) (pairSkillText (length es) e p)"
proof -
  have events: "quiet_events (es @ [e]) = quiet_events es @ [e]" using quiet by (simp add: quiet_events_snoc)
  have calls: "tool_use_id e \<in> set (callIds p) \<longleftrightarrow>
      (\<exists>c \<in> set (quiet_events es). skill_call c \<and> tool_use_id c = tool_use_id e)"
    using pairing by (simp add: pairing_of_def image_iff) metis
  have last: "skill_text (es @ [e]) (length es) \<longleftrightarrow> isAddedText e \<and> nonempty (awaiting p)"
    using pairing quiet by (auto simp: skill_text_def quiet_def pairing_of_def)
  have "{i. i < length (es @ [e]) \<and> skill_text (es @ [e]) i}
      = {i. i < length es \<and> skill_text es i} \<union> (if isAddedText e \<and> nonempty (awaiting p) then {length es} else {})"
    using last by (auto simp: less_Suc_eq skill_text_append)
  moreover have "nonempty (awaiting (pairSkillText (length es) e p)) \<longleftrightarrow> awaits_text (rev (quiet_events (es @ [e])))"
    using pairing unfolding pairSkillText_fields events calls
    by (auto simp: pairing_of_def succeeds_skill_def)
  ultimately show ?thesis
    using pairing unfolding pairing_of_def pairSkillText_fields events by auto
qed

lemma pairing_skip:
  assumes pairing: "pairing_of es p" and loud: "nested e \<or> compacting (es @ [e])"
  shows "pairing_of (es @ [e]) p"
proof -
  have "\<not> skill_text (es @ [e]) (length es)" using loud by (auto simp: skill_text_def quiet_def)
  then have "{i. i < length (es @ [e]) \<and> skill_text (es @ [e]) i} = {i. i < length es \<and> skill_text es i}"
    by (auto simp: less_Suc_eq skill_text_append)
  with pairing loud show ?thesis by (auto simp: pairing_of_def quiet_events_snoc)
qed

lemma index_pairing: "pairing_of es (ix_pairing (indexEvents es))"
proof (induction es rule: rev_induct)
  case Nil
  then show ?case
    by (simp add: pairing_of_def indexEvents_def empty_index_def quiet_events_def)
next
  case (snoc e es)
  have compact: "nonempty (ix_lastCompact (noteCompaction e (noteResult e (indexEvents es)))) \<longleftrightarrow> compacting (es @ [e])"
    using index_lastCompact [of "es @ [e]"] unfolding indexEvents_snoc indexStep_lastCompact by simp
  show ?case
  proof (cases "nested e \<or> compacting (es @ [e])")
    case True
    then have "ix_pairing (indexEvents (es @ [e])) = ix_pairing (indexEvents es)"
      using compact by (auto simp: indexEvents_snoc indexStep_def Let_def)
    with pairing_skip [OF snoc True] show ?thesis by simp
  next
    case False
    then have "ix_pairing (indexEvents (es @ [e])) = pairSkillText (length es) e (ix_pairing (indexEvents es))"
      using compact by (simp add: indexEvents_snoc indexStep_def Let_def)
    with pairing_snoc [OF snoc] False show ?thesis by simp
  qed
qed

section \<open>Added texts\<close>

text \<open>An echo of a setting, shown as the setting's change, and the acknowledgment of an interrupt, which
  the mark on the turn stands for.\<close>

definition echo :: "event \<Rightarrow> bool" where
  "echo e \<longleftrightarrow> (let t = trim (str_or (content e) [])
     in MODEL_SET_PATTERN t \<or> EFFORT_SET_PATTERN t \<or> INTERRUPT_ACK_PATTERN t)"

definition shows_added :: "event list \<Rightarrow> nat \<Rightarrow> bool" where
  "shows_added es i \<longleftrightarrow> \<not> nested (es ! i) \<and> has_text (es ! i) \<and> \<not> skill_text es i
     \<and> \<not> said_by_compaction es (content (es ! i)) \<and> \<not> echo (es ! i)"

definition entries_of :: "event \<Rightarrow> added_entry list" where
  "entries_of e = (case addedTexts e of Some added \<Rightarrow> added | None \<Rightarrow> [])"

lemma addedTexts_Some: "addedTexts e = Some a \<Longrightarrow> isAddedText e"
  by (simp add: addedTexts_def split: if_splits)

lemma isRedundantText_iff:
  assumes "i < length es" and "isAddedText (es ! i)" and "has_text (es ! i)"
  shows "isRedundantText (indexEvents es) i (es ! i) \<longleftrightarrow>
    skill_text es i \<or> said_by_compaction es (content (es ! i)) \<or> echo (es ! i)"
proof -
  have "list_ex (\<lambda>(_, texts). content (es ! i) \<in> set texts) (ix_compactionSummary (indexEvents es))
      \<longleftrightarrow> content (es ! i) \<in> summaries (ix_compactionSummary (indexEvents es))"
    unfolding summaries_def list_ex_iff by (simp add: case_prod_unfold)
  moreover have "i \<in> set (skillTexts (ix_pairing (indexEvents es))) \<longleftrightarrow> skill_text es i"
    using index_pairing [of es] assms(1) by (simp add: pairing_of_def)
  moreover have "isInterruptAck (es ! i) \<longleftrightarrow> INTERRUPT_ACK_PATTERN (trim (str_or (content (es ! i)) []))"
    using assms(2,3) by (auto simp: isInterruptAck_def has_text_def str_or_def split: option.splits)
  ultimately show ?thesis
    unfolding isRedundantText_def echo_def Let_def by (simp add: index_summaries)
qed

lemma emitEvent_attached:
  assumes "i < length es"
  shows "attached (emitEvent (indexEvents es) b i (es ! i)) = (if shows_added es i then entries_of (es ! i) else [])"
proof (cases "addedTexts (es ! i)")
  case None
  then show ?thesis by (auto simp: emitEvent_def entries_of_def Let_def)
next
  case (Some a)
  have added: "isAddedText (es ! i)" using addedTexts_Some [OF Some] .
  show ?thesis
  proof (cases "has_text (es ! i)")
    case True
    with Some added isRedundantText_iff [OF assms added True] show ?thesis
      by (simp add: emitEvent_def entries_of_def shows_added_def isAddedText_def Let_def)
  next
    case False
    with added show ?thesis by (simp add: emitEvent_def shows_added_def isAddedText_def)
  qed
qed

text \<open>C8. An added text is shown exactly once or is one of four kinds: the entries hanging on a turn's
  blocks, with those left on the turn itself, are exactly the entries of its top-level events with text,
  without the text of a skill (shown on its call), the words of a compaction (shown on its block),
  the echoes of a setting and the acknowledgment of an interrupt. The words of a compaction are told by
  their content: any other message of the turn with the same content is left out with them.\<close>

theorem added_texts_conserved:
  "block_added (processEvents es) =
     mset (concat (map (\<lambda>i. if shows_added es i then entries_of (es ! i) else []) [0..<length es]))"
proof -
  have "map attached (emissions es) = map (\<lambda>i. if shows_added es i then entries_of (es ! i) else []) [0..<length es]"
    by (rule nth_equalityI)
       (simp_all add: emissions_def emitEvent_attached case_prod_unfold nth_enumerate_eq)
  then show ?thesis by (simp add: processEvents_added)
qed

text \<open>A message of a hook that a compaction took up, and the same message again after the assistant has
  spoken: neither is shown beside a block.\<close>

definition hook_note :: event where
  "hook_note = blank_event\<lparr>ev_type := Ty_USER, content := Some (STOP_HOOK_FEEDBACK_PATTERN @ ''tests fail'')\<rparr>"

definition spoken :: event where
  "spoken = blank_event\<lparr>content := Some ''done''\<rparr>"

definition boundary :: event where
  "boundary = blank_event\<lparr>ev_type := Ty_SYSTEM, ev_subtype := Sub_COMPACT_BOUNDARY, ev_id := Some ''c1''\<rparr>"

lemma repeated_hook_note_is_dropped:
  "addedTexts hook_note = Some [(STOP_HOOK, ''tests fail'')]
   \<and> length (snd (processEvents [spoken, hook_note])) = 0
   \<and> list_ex (\<lambda>b. injected b \<noteq> None) (fst (processEvents [spoken, hook_note]))
   \<and> snd (processEvents [boundary, hook_note, spoken, hook_note]) = []
   \<and> list_all (\<lambda>b. injected b = None) (fst (processEvents [boundary, hook_note, spoken, hook_note]))"
  by code_simp

section \<open>Nested events come from one source\<close>

definition tailed :: "event \<Rightarrow> bool" where
  "tailed e = nonempty (source_file e)"

text \<open>Which source a key was first seen from.\<close>

definition firstSource :: "event list \<Rightarrow> string \<times> event_subtype \<times> string \<Rightarrow> bool option" where
  "firstSource es k = map_option tailed (find (\<lambda>e. nested e \<and> nestedDedupKey e = k) es)"

definition nestedOf :: "event_index \<Rightarrow> string \<Rightarrow> event list" where
  "nestedOf ix p = (case ix_nestedEvents ix p of None \<Rightarrow> [] | Some es \<Rightarrow> es)"

definition keptNested :: "event list \<Rightarrow> event \<Rightarrow> bool" where
  "keptNested es e \<longleftrightarrow> nested e \<and> firstSource es (nestedDedupKey e) = Some (tailed e)"

lemma find_snoc: "find p (xs @ [x]) = (case find p xs of Some y \<Rightarrow> Some y | None \<Rightarrow> if p x then Some x else None)"
  by (induction xs) auto

lemma firstSource_snoc:
  "firstSource (es @ [e]) k =
     (case firstSource es k of Some b \<Rightarrow> Some b
      | None \<Rightarrow> if nested e \<and> nestedDedupKey e = k then Some (tailed e) else None)"
  by (auto simp: firstSource_def find_snoc split: option.splits)

lemma firstSource_some: "e \<in> set es \<Longrightarrow> nested e \<Longrightarrow> firstSource es (nestedDedupKey e) \<noteq> None"
  by (auto simp: firstSource_def find_None_iff)

lemma index_frame:
  "ix_nestedEvents (noteCompaction e ix) = ix_nestedEvents ix"
  "ix_dedupSources (noteCompaction e ix) = ix_dedupSources ix"
  "ix_nestedEvents (noteResult e ix) = ix_nestedEvents ix"
  "ix_dedupSources (noteResult e ix) = ix_dedupSources ix"
  by (simp_all add: noteCompaction_def noteResult_def)

lemma indexEvents_sources: "ix_dedupSources (indexEvents es) = firstSource es"
proof (induction es rule: rev_induct)
  case Nil
  then show ?case by (simp add: indexEvents_def empty_index_def firstSource_def fun_eq_iff)
next
  case (snoc e es)
  show ?case
  proof
    fix k
    show "ix_dedupSources (indexEvents (es @ [e])) k = firstSource (es @ [e]) k"
      using snoc
      by (simp add: indexEvents_snoc indexStep_def noteNested_def index_frame firstSource_snoc
          tailed_def Let_def split: option.splits)
  qed
qed

lemma keptNested_snoc:
  assumes "x \<in> set es"
  shows "keptNested (es @ [e]) x = keptNested es x"
  using firstSource_some [OF assms]
  by (auto simp: keptNested_def firstSource_snoc split: option.splits)

lemma nestedOf_snoc:
  "nestedOf (indexEvents (es @ [e])) p =
     nestedOf (indexEvents es) p @ (if keptNested (es @ [e]) e \<and> parent_key e = p then [e] else [])"
  by (simp add: indexEvents_snoc indexStep_def noteNested_def index_frame indexEvents_sources nestedOf_def
      keptNested_def firstSource_snoc tailed_def Let_def split: option.splits)

text \<open>A background subagent's output that arrives both live and tailed is listed once: the nested
  events of a call are, in order, those of its events whose key was first seen from their own source -
  all of them, so that nothing a single source delivered is dropped.\<close>

theorem nested_events_from_one_source:
  "nestedOf (indexEvents es) p = filter (\<lambda>e. keptNested es e \<and> parent_key e = p) es"
proof (induction es rule: rev_induct)
  case Nil
  then show ?case by (simp add: indexEvents_def empty_index_def nestedOf_def)
next
  case (snoc e es)
  have "filter (\<lambda>x. keptNested (es @ [e]) x \<and> parent_key x = p) es
      = filter (\<lambda>x. keptNested es x \<and> parent_key x = p) es"
    by (rule filter_cong) (simp_all add: keptNested_snoc)
  with snoc show ?case by (simp add: nestedOf_snoc)
qed

end
