(* ===== verification/Accumulators.thy ===== *)
theory Accumulators
  imports Tools
begin

text \<open>
  The incremental accumulators of \<open>utils/eventProcessing.js\<close>: turn results, task notifications,
  background launches and subagent labels. Each takes the accumulated value and a batch of events;
  the code's copy-on-write (a new \<open>Map\<close> when something changes, the same reference otherwise) is
  invisible on values. A \<open>Map\<close> whose order is observed is an association list, \<open>set\<close> being
  \<open>AList.update\<close>; the others are HOL maps. The position of an event in the session's log is the base
  index of its batch plus its place in the batch.
\<close>

section \<open>Turn results\<close>

type_synonym results_map = "string \<rightharpoonup> event_subtype"

definition isFailureEvent :: "event \<Rightarrow> bool" where
  "isFailureEvent e \<longleftrightarrow> ev_type e = Ty_SYSTEM \<and> ev_subtype e = Sub_ERROR"

definition turnResultStep :: "results_map \<Rightarrow> event \<Rightarrow> results_map" where
  "turnResultStep results e =
     (let isFailure = isFailureEvent e; tid = str_or (ev_turn_id e) []
      in if (ev_type e = Ty_RESULT \<or> isFailure) \<and> nonempty (ev_turn_id e) then
           (if \<not> isFailure \<and> results tid = Some Sub_ERROR then results
            else results(tid \<mapsto> (if isFailure then Sub_ERROR else ev_subtype e)))
         else results)"

definition appendTurnResults :: "results_map \<Rightarrow> event list \<Rightarrow> results_map" where
  "appendTurnResults existing newEvents = foldl turnResultStep existing newEvents"

section \<open>Task notifications\<close>

record notification =
  n_status :: jval
  n_summary :: string
  n_content :: jval
  n_ts :: "int option"
  n_index :: nat

type_synonym notifications = "jval \<rightharpoonup> notification"

definition isTaskNotification :: "event \<Rightarrow> bool" where
  "isTaskNotification e \<longleftrightarrow> ev_type e = Ty_SYSTEM \<and> ev_subtype e = Sub_TASK_NOTIFICATION"

definition first_line :: "string \<Rightarrow> string" where
  "first_line s = takeWhile (\<lambda>c. c \<noteq> CHR 0x0A) s"

definition notificationStep :: "notifications \<Rightarrow> nat \<times> event \<Rightarrow> notifications" where
  "notificationStep m ie =
     (case ie of (i, e) \<Rightarrow>
        let data = message_data e; task = jget data ''task_id''
        in if isTaskNotification e \<and> truthy task then
             (let text = jor (jget data ''content'') (jor (jget data ''summary'')
                           (jor (jget data ''status'') (JStr ''Completed'')))
              in m(task \<mapsto> \<lparr>n_status = jor (jget data ''status'') (JStr ''completed''),
                            n_summary = first_line (jstring text), n_content = text,
                            n_ts = eventTimeMs e, n_index = i\<rparr>))
           else m)"

definition appendTaskNotifications :: "notifications \<Rightarrow> event list \<Rightarrow> nat \<Rightarrow> notifications" where
  "appendTaskNotifications existing newEvents baseIndex =
     foldl notificationStep existing (enumerate baseIndex newEvents)"

section \<open>Background launches\<close>

record launch =
  l_id :: string
  l_name :: string
  l_toolUseId :: "string option"
  l_index :: nat

type_synonym launches = "(string \<times> launch) list"
type_synonym bash_inputs = "string \<rightharpoonup> jval"

text \<open>The launch a result reports, given the input of the command it answers: a background command, or
  else an asynchronous subagent.\<close>

definition launchOf :: "jval option \<Rightarrow> jval \<Rightarrow> (string \<times> string) option" where
  "launchOf input result =
     (if (case input of Some i \<Rightarrow> truthy i | None \<Rightarrow> False) \<and> is_jstr (jget result ''backgroundTaskId'') then
        (let i = (case input of Some i \<Rightarrow> i | None \<Rightarrow> JUndef)
         in Some (jstring (jget result ''backgroundTaskId''),
                  jstring (jor (jget i ''description'') (jor (jget i ''command'') (JStr [])))))
      else if isAsyncTask result \<and> is_jstr (jget result ''agentId'') then
        Some (jstring (jget result ''agentId''), jstring (jor (jget result ''description'') (JStr [])))
      else None)"

definition launchStep :: "launches \<times> bash_inputs \<Rightarrow> nat \<times> event \<Rightarrow> launches \<times> bash_inputs" where
  "launchStep lb ie =
     (case (lb, ie) of ((ls, inputs), (i, e)) \<Rightarrow>
        if nested e then (ls, inputs)
        else if ev_subtype e = Sub_TOOL_USE \<and> toolOf e = Some BASH \<and> nonempty (tool_use_id e) then
          (ls, inputs(str_or (tool_use_id e) [] \<mapsto> jcoalesce (tool_input e) (JObj [])))
        else if ev_subtype e \<noteq> Sub_TOOL_RESULT then (ls, inputs)
        else
          (let input = (case tool_use_id e of Some t \<Rightarrow> inputs t | None \<Rightarrow> None);
               inputs' = (case (input, tool_use_id e) of
                            (Some v, Some t) \<Rightarrow> if truthy v then inputs(t := None) else inputs
                          | _ \<Rightarrow> inputs);
               ls' = (case launchOf input (tool_use_result e) of
                        Some (lid, name) \<Rightarrow>
                          AList.update lid \<lparr>l_id = lid, l_name = name, l_toolUseId = tool_use_id e, l_index = i\<rparr> ls
                      | None \<Rightarrow> ls)
           in (ls', inputs')))"

definition appendBackgroundLaunches ::
  "launches \<Rightarrow> bash_inputs \<Rightarrow> event list \<Rightarrow> nat \<Rightarrow> launches \<times> bash_inputs" where
  "appendBackgroundLaunches existing bashInputs newEvents baseIndex =
     foldl launchStep (existing, bashInputs) (enumerate baseIndex newEvents)"

definition selectRunningBackgroundWork :: "launches \<Rightarrow> notifications \<Rightarrow> int \<Rightarrow> launch list" where
  "selectRunningBackgroundWork ls ns lastRestartIndex =
     filter (\<lambda>l. ns (JStr (l_id l)) = None \<and> int (l_index l) > lastRestartIndex) (map snd ls)"

definition hasUnclaimedCompletion :: "launches \<Rightarrow> notifications \<Rightarrow> int \<Rightarrow> int \<Rightarrow> bool" where
  "hasUnclaimedCompletion ls ns lastSettledIndex lastRestartIndex =
     list_ex (\<lambda>l. case ns (JStr (l_id l)) of
         Some n \<Rightarrow> int (n_index n) > lastSettledIndex \<and> int (l_index l) > lastRestartIndex
       | None \<Rightarrow> False) (map snd ls)"

section \<open>Subagent labels\<close>

type_synonym labels = "string \<rightharpoonup> jval"

definition labelStep :: "labels \<Rightarrow> event \<Rightarrow> labels" where
  "labelStep m e =
     (if ev_subtype e = Sub_TOOL_USE \<and> content e = Some TASK then
        (let description = jget (tool_input e) ''description''
         in if nonempty (tool_use_id e) \<and> truthy description
            then m(str_or (tool_use_id e) [] \<mapsto> description) else m)
      else m)"

definition appendSubagentLabels :: "labels \<Rightarrow> event list \<Rightarrow> labels" where
  "appendSubagentLabels existing newEvents = foldl labelStep existing newEvents"

section \<open>Batches\<close>

text \<open>The session keeps the log's length beside each accumulator; a batch advances it.\<close>

definition notificationsBatch :: "notifications \<times> nat \<Rightarrow> event list \<Rightarrow> notifications \<times> nat" where
  "notificationsBatch s es = (appendTaskNotifications (fst s) es (snd s), snd s + length es)"

definition launchesBatch :: "(launches \<times> bash_inputs) \<times> nat \<Rightarrow> event list \<Rightarrow> (launches \<times> bash_inputs) \<times> nat" where
  "launchesBatch s es = (appendBackgroundLaunches (fst (fst s)) (snd (fst s)) es (snd s), snd s + length es)"

interpretation results: batch_fold appendTurnResults
  by unfold_locales (simp_all add: appendTurnResults_def)

interpretation notices: batch_fold notificationsBatch
  by unfold_locales
     (simp_all add: notificationsBatch_def appendTaskNotifications_def enumerate_append_eq)

interpretation launched: batch_fold launchesBatch
  by unfold_locales
     (simp_all add: launchesBatch_def appendBackgroundLaunches_def enumerate_append_eq)

interpretation labelled: batch_fold appendSubagentLabels
  by unfold_locales (simp_all add: appendSubagentLabels_def)

section \<open>Results are sticky\<close>

lemma turnResultStep_error: "r t = Some Sub_ERROR \<Longrightarrow> turnResultStep r e t = Some Sub_ERROR"
  by (auto simp: turnResultStep_def Let_def)

lemma appendTurnResults_error: "r t = Some Sub_ERROR \<Longrightarrow> appendTurnResults r es t = Some Sub_ERROR"
  by (rule results.app_invariant [of "\<lambda>r. r t = Some Sub_ERROR"])
     (simp_all add: appendTurnResults_def turnResultStep_error)

text \<open>C5. A reported failure is never downgraded: once a turn's failure event is in the log, the turn's
  result is an error whatever results the log holds before or after it and however it was cut into
  batches.\<close>

theorem failure_is_final:
  assumes "e \<in> set (concat batches)" and "isFailureEvent e" and "ev_turn_id e = Some t" and "t \<noteq> []"
  shows "foldl appendTurnResults r batches t = Some Sub_ERROR"
proof -
  from split_list [OF assms(1)] obtain xs ys where log: "concat batches = xs @ e # ys" by blast
  have "appendTurnResults r (xs @ [e]) t = Some Sub_ERROR"
    using assms(2-4) by (simp add: appendTurnResults_def turnResultStep_def str_or_def Let_def)
  then have "appendTurnResults r ((xs @ [e]) @ ys) t = Some Sub_ERROR"
    unfolding results.app_append by (rule appendTurnResults_error)
  with log show ?thesis by (simp add: results.app_batches)
qed

lemma failure_is_final_witness:
  "foldl appendTurnResults Map.empty
     [[blank_event\<lparr>ev_type := Ty_SYSTEM, ev_subtype := Sub_ERROR, ev_turn_id := Some ''t''\<rparr>],
      [blank_event\<lparr>ev_type := Ty_RESULT, ev_subtype := Sub_other ''success'', ev_turn_id := Some ''t''\<rparr>]] ''t''
   = Some Sub_ERROR"
  by (rule failure_is_final
      [where e = "blank_event\<lparr>ev_type := Ty_SYSTEM, ev_subtype := Sub_ERROR, ev_turn_id := Some ''t''\<rparr>"])
     (simp_all add: isFailureEvent_def)

end
