(* ===== verification/Todos.thy ===== *)
theory Todos
  imports Accumulators
begin

text \<open>
  Todo and task diffs (\<open>appendTodoDiffs\<close>, \<open>appendTaskDiffs\<close> and their helpers in
  \<open>utils/eventProcessing.js\<close>).

  A todo item is an object that the per-subagent lists and the diffs share: when a task's id becomes
  known it is written into the item itself, so that every list holding the item sees it. Items
  therefore live in a heap, and lists and diffs hold their addresses. A list may have holes (\<open>None\<close>):
  assigning past the end of an array leaves them.
\<close>

section \<open>State\<close>

type_synonym address = nat
type_synonym todo_list = "address option list"

record todo_diff =
  d_completed :: "address list"
  d_started :: "address list"
  d_added :: "address list"
  d_removed :: "address list"

type_synonym binding = "string \<times> nat"

record todo_state =
  heap :: "jval list"
  diffs :: "string \<rightharpoonup> todo_diff"
  prevTodos :: "string \<rightharpoonup> todo_list"
  asyncTaskIdMap :: "jval \<rightharpoonup> string option"
  taskIdMap :: "string \<rightharpoonup> binding"
  pendingCreatesMap :: "string \<rightharpoonup> binding"

definition initial_todos :: todo_state where
  "initial_todos = \<lparr>heap = [], diffs = Map.empty, prevTodos = Map.empty, asyncTaskIdMap = Map.empty,
     taskIdMap = Map.empty, pendingCreatesMap = Map.empty\<rparr>"

definition item_at :: "jval list \<Rightarrow> address \<Rightarrow> jval" where
  "item_at h a = (if a < length h then h ! a else JUndef)"

text \<open>A new object per element.\<close>

definition alloc :: "jval list \<Rightarrow> jval list \<Rightarrow> jval list \<times> address list" where
  "alloc h vs = (h @ vs, [length h..<length h + length vs])"

text \<open>Assignment of a property.\<close>

definition jset :: "jval \<Rightarrow> string \<Rightarrow> jval \<Rightarrow> jval" where
  "jset v k x = (case v of JObj fs \<Rightarrow> JObj (AList.update k x fs) | _ \<Rightarrow> v)"

definition list_of :: "todo_state \<Rightarrow> string \<Rightarrow> todo_list" where
  "list_of s k = (case prevTodos s k of None \<Rightarrow> [] | Some l \<Rightarrow> l)"

definition subagent_key :: "event \<Rightarrow> string" where
  "subagent_key e = (if nested e then str_or (parent_tool_use_id e) [] else ''main'')"

section \<open>Whole-list diffs\<close>

text \<open>\<open>new Map(todos.map(t => [t.content, t]))\<close>: the last item with a given content.\<close>

definition by_content :: "jval list \<Rightarrow> address list \<Rightarrow> jval \<Rightarrow> address option" where
  "by_content h as c = find (\<lambda>a. jget (item_at h a) ''content'' = c) (rev as)"

definition status_is :: "jval list \<Rightarrow> string \<Rightarrow> address \<Rightarrow> bool" where
  "status_is h st a \<longleftrightarrow> jget (item_at h a) ''status'' = JStr st"

text \<open>How a current item counts: \<open>None\<close> when nothing about it changed (or it went back to pending).\<close>

datatype change = Completed | Started | Added

definition classify :: "jval list \<Rightarrow> address list \<Rightarrow> address \<Rightarrow> change option" where
  "classify h prev a =
     (case by_content h prev (jget (item_at h a) ''content'') of
        None \<Rightarrow> Some (if status_is h ''completed'' a then Completed
                      else if status_is h ''in_progress'' a then Started else Added)
      | Some p \<Rightarrow>
          if jget (item_at h p) ''status'' \<noteq> jget (item_at h a) ''status'' then
            (if status_is h ''completed'' a then Some Completed
             else if status_is h ''in_progress'' a then Some Started else None)
          else None)"

definition computeSingleDiff :: "jval list \<Rightarrow> address list \<Rightarrow> address list \<Rightarrow> todo_diff" where
  "computeSingleDiff h prev cur =
     \<lparr>d_completed = filter (\<lambda>a. classify h prev a = Some Completed) cur,
      d_started = filter (\<lambda>a. classify h prev a = Some Started) cur,
      d_added = filter (\<lambda>a. classify h prev a = Some Added) cur,
      d_removed = filter (\<lambda>a. by_content h cur (jget (item_at h a) ''content'') = None) prev\<rparr>"

text \<open>Reading \<open>content\<close> of a hole or of a null item raises; \<open>whole\<close> lists have no hole.\<close>

definition whole :: "todo_list \<Rightarrow> address list option" where
  "whole l = (if None \<in> set l then None else Some (map the l))"

section \<open>TodoWrite\<close>

definition resolveAsyncTaskIds :: "event \<Rightarrow> (jval \<rightharpoonup> string option) \<Rightarrow> string list" where
  "resolveAsyncTaskIds e asyncMap =
     (if isTaskNotification e then
        (let task = jget (message_data e) ''task_id''
         in if truthy task then
              (case asyncMap task of Some (Some t) \<Rightarrow> if t \<noteq> [] then [t] else [] | _ \<Rightarrow> [])
            else [])
      else [])"

definition todoWrite :: "event \<Rightarrow> todo_state \<Rightarrow> todo_state option" where
  "todoWrite e s =
     (if ev_subtype e = Sub_TOOL_USE \<and> content e = Some TODO_WRITE then
        (let key = subagent_key e; (h, cur) = alloc (heap s) (jelems (jget (tool_input e) ''todos''))
         in case whole (list_of s key) of
              None \<Rightarrow> None
            | Some prev \<Rightarrow>
                Some (s\<lparr>heap := h,
                   diffs := (if nonempty (tool_use_id e)
                             then (diffs s)(str_or (tool_use_id e) [] \<mapsto> computeSingleDiff h prev cur)
                             else diffs s),
                   prevTodos := (prevTodos s)(key \<mapsto> map Some cur)\<rparr>))
      else Some s)"

definition todoResult :: "event \<Rightarrow> todo_state \<Rightarrow> todo_state" where
  "todoResult e s =
     (if ev_subtype e = Sub_TOOL_RESULT then
        (let s' = (case tool_use_id e of Some t \<Rightarrow> s\<lparr>prevTodos := (prevTodos s)(t := None)\<rparr> | None \<Rightarrow> s);
             r = tool_use_result e
         in if truthy (jget r ''isAsync'') \<and> truthy (jget r ''agentId'')
            then s'\<lparr>asyncTaskIdMap := (asyncTaskIdMap s')(jget r ''agentId'' \<mapsto> tool_use_id e)\<rparr> else s')
      else s)"

definition todoCleanup :: "event \<Rightarrow> todo_state \<Rightarrow> todo_state" where
  "todoCleanup e s =
     foldl (\<lambda>s t. s\<lparr>prevTodos := (prevTodos s)(t := None)\<rparr>) s (resolveAsyncTaskIds e (asyncTaskIdMap s))"

definition todoStep :: "todo_state option \<Rightarrow> event \<Rightarrow> todo_state option" where
  "todoStep so e = Option.bind so (\<lambda>s. map_option (\<lambda>s. todoCleanup e (todoResult e s)) (todoWrite e s))"

definition appendTodoDiffs :: "todo_state \<Rightarrow> event list \<Rightarrow> todo_state option" where
  "appendTodoDiffs s es = foldl todoStep (Some s) es"

section \<open>TaskCreate, TaskUpdate and their results\<close>

definition empty_diff :: todo_diff where
  "empty_diff = \<lparr>d_completed = [], d_started = [], d_added = [], d_removed = []\<rparr>"

definition newTaskItem :: "jval \<Rightarrow> jval" where
  "newTaskItem input =
     JObj [(''content'', jor (jget input ''subject'') (JStr [])),
           (''subtitle'', jor (jget input ''description'') JNull),
           (''status'', JStr ''pending''),
           (''activeForm'', jor (jget input ''activeForm'') (JStr []))]"

definition applyTaskCreate :: "todo_state \<Rightarrow> event \<Rightarrow> todo_state" where
  "applyTaskCreate s e =
     (if \<not> nonempty (tool_use_id e) then s
      else
        (let t = str_or (tool_use_id e) []; a = length (heap s); key = subagent_key e;
             l = list_of s key @ [Some a]
         in s\<lparr>heap := heap s @ [newTaskItem (tool_input e)],
              diffs := (diffs s)(t \<mapsto> empty_diff\<lparr>d_added := [a]\<rparr>),
              prevTodos := (prevTodos s)(key \<mapsto> l),
              pendingCreatesMap := (pendingCreatesMap s)(t \<mapsto> (key, length l - 1))\<rparr>))"

text \<open>\<open>addBlockedBy\<close> when it is an array.\<close>

definition blockers :: "jval \<Rightarrow> jval list option" where
  "blockers v = (case v of JArr vs \<Rightarrow> Some vs | _ \<Rightarrow> None)"

definition has_blockers :: "jval list option \<Rightarrow> bool" where
  "has_blockers b = (case b of Some (v # vs) \<Rightarrow> True | _ \<Rightarrow> False)"

definition mergeTaskUpdate :: "jval \<Rightarrow> jval \<Rightarrow> jval \<Rightarrow> jval list option \<Rightarrow> jval" where
  "mergeTaskUpdate current taskId newStatus addBlockedBy =
     JObj [(''content'', jor (jget current ''content'')
              (JStr (''Task #'' @ jstring (jcoalesce taskId (JStr ''?''))))),
           (''subtitle'', jor (jget current ''subtitle'') JNull),
           (''activeForm'', jor (jget current ''activeForm'') (JStr [])),
           (''status'', jor newStatus (jor (jget current ''status'') (JStr ''pending''))),
           (''blockedBy'', (if has_blockers addBlockedBy
              then JArr (jelems (jor (jget current ''blockedBy'') (JArr [])) @ the addBlockedBy)
              else jor (jget current ''blockedBy'') JNull)),
           (''_taskId'', jor (jget current ''_taskId'')
              (if nullish taskId then JNull else JStr (jstring taskId)))]"

definition classifyTaskUpdateDiff :: "address \<Rightarrow> jval \<Rightarrow> jval list option \<Rightarrow> todo_diff" where
  "classifyTaskUpdateDiff updated newStatus addBlockedBy =
     (if newStatus = JStr ''in_progress'' then empty_diff\<lparr>d_started := [updated]\<rparr>
      else if newStatus = JStr ''completed'' then empty_diff\<lparr>d_completed := [updated]\<rparr>
      else if has_blockers addBlockedBy then empty_diff\<lparr>d_added := [updated]\<rparr>
      else empty_diff)"

text \<open>\<open>next[i] = x\<close> on an array: past the end it leaves holes.\<close>

definition assign_at :: "'a option list \<Rightarrow> nat \<Rightarrow> 'a \<Rightarrow> 'a option list" where
  "assign_at l i x = (if i < length l then l[i := Some x] else l @ replicate (i - length l) None @ [Some x])"

definition slot :: "'a option list \<Rightarrow> nat \<Rightarrow> 'a option" where
  "slot l i = (if i < length l then l ! i else None)"

definition applyTaskUpdate :: "todo_state \<Rightarrow> event \<Rightarrow> todo_state" where
  "applyTaskUpdate s e =
     (if \<not> nonempty (tool_use_id e) then s
      else
        (let t = str_or (tool_use_id e) []; input = tool_input e; taskId = jget input ''taskId'';
             newStatus = jget input ''status''; addBlockedBy = blockers (jget input ''addBlockedBy'');
             bind = (if nullish taskId then None else taskIdMap s (jstring taskId));
             current = (case bind of
                          Some (key, i) \<Rightarrow> (case slot (list_of s key) i of
                                              Some a \<Rightarrow> item_at (heap s) a | None \<Rightarrow> JUndef)
                        | None \<Rightarrow> JNull);
             a = length (heap s)
         in s\<lparr>heap := heap s @ [mergeTaskUpdate current taskId newStatus addBlockedBy],
              prevTodos := (case bind of
                  Some (key, i) \<Rightarrow> (prevTodos s)(key \<mapsto> assign_at (list_of s key) i a)
                | None \<Rightarrow> prevTodos s),
              diffs := (diffs s)(t \<mapsto> classifyTaskUpdateDiff a newStatus addBlockedBy)\<rparr>))"

definition applyTaskResult :: "todo_state \<Rightarrow> event \<Rightarrow> todo_state" where
  "applyTaskResult s e =
     (let pending = (case tool_use_id e of Some t \<Rightarrow> pendingCreatesMap s t | None \<Rightarrow> None);
          taskId = jget (jget (tool_use_result e) ''task'') ''id''
      in case (pending, tool_use_id e) of
           (Some (key, i), Some t) \<Rightarrow>
             if nullish taskId then s
             else
               (let s' = s\<lparr>taskIdMap := (taskIdMap s)(jstring taskId \<mapsto> (key, i)),
                           pendingCreatesMap := (pendingCreatesMap s)(t := None)\<rparr>
                in case slot (list_of s key) i of
                     Some a \<Rightarrow> s'\<lparr>heap := update_at a (\<lambda>v. jset v ''_taskId'' (JStr (jstring taskId))) (heap s')\<rparr>
                   | None \<Rightarrow> s')
         | _ \<Rightarrow> s)"

definition taskStep :: "todo_state \<Rightarrow> event \<Rightarrow> todo_state" where
  "taskStep s e =
     (if ev_subtype e = Sub_TOOL_USE \<and> toolOf e = Some TASK_CREATE then applyTaskCreate s e
      else if ev_subtype e = Sub_TOOL_USE \<and> toolOf e = Some TASK_UPDATE then applyTaskUpdate s e
      else if ev_subtype e = Sub_TOOL_RESULT then applyTaskResult s e
      else s)"

definition appendTaskDiffs :: "todo_state \<Rightarrow> event list \<Rightarrow> todo_state" where
  "appendTaskDiffs s es = foldl taskStep s es"

interpretation tasked: batch_fold appendTaskDiffs
  by unfold_locales (simp_all add: appendTaskDiffs_def)

section \<open>What a whole-list diff says\<close>

definition contents :: "jval list \<Rightarrow> address list \<Rightarrow> jval set" where
  "contents h as = (\<lambda>a. jget (item_at h a) ''content'') ` set as"

lemma by_content_None: "by_content h as c = None \<longleftrightarrow> c \<notin> contents h as"
  by (auto simp: by_content_def contents_def find_None_iff)

lemma by_content_Some: "by_content h as c = Some a \<Longrightarrow> a \<in> set as \<and> jget (item_at h a) ''content'' = c"
  by (auto simp: by_content_def dest!: find_SomeD)

lemma classify_new:
  "jget (item_at h a) ''content'' \<notin> contents h prev \<Longrightarrow> classify h prev a \<noteq> None"
  by (simp add: classify_def by_content_None [symmetric])

lemma classify_Completed: "classify h prev a = Some Completed \<Longrightarrow> status_is h ''completed'' a"
  by (auto simp: classify_def split: option.splits if_splits)

lemma classify_Started: "classify h prev a = Some Started \<Longrightarrow> status_is h ''in_progress'' a"
  by (auto simp: classify_def split: option.splits if_splits)

definition changed :: "todo_diff \<Rightarrow> address list" where
  "changed d = d_completed d @ d_started d @ d_added d"

lemma set_changed: "set (changed (computeSingleDiff h prev cur)) = {a \<in> set cur. classify h prev a \<noteq> None}"
proof -
  have "x \<noteq> None \<longleftrightarrow> x = Some Completed \<or> x = Some Started \<or> x = Some Added" for x
    by (cases x; cases "the x") simp_all
  then show ?thesis by (auto simp: changed_def computeSingleDiff_def)
qed

text \<open>A todo diff is faithful: the contents on the new list are those of the old one without the
  removed items, together with the changed items; an item reported completed or started has that status;
  and an item of the new list is left out only when the old list has an item with its content and either
  the same status or a status change back to neither of the two.\<close>

theorem todo_diff_faithful:
  assumes "d = computeSingleDiff h prev cur"
  shows "contents h cur = (contents h prev - contents h (d_removed d)) \<union> contents h (changed d)
    \<and> (\<forall>a \<in> set (d_completed d). status_is h ''completed'' a)
    \<and> (\<forall>a \<in> set (d_started d). status_is h ''in_progress'' a)
    \<and> (\<forall>a \<in> set cur - set (changed d). \<exists>p \<in> set prev.
          jget (item_at h p) ''content'' = jget (item_at h a) ''content''
          \<and> (jget (item_at h p) ''status'' = jget (item_at h a) ''status''
             \<or> \<not> status_is h ''completed'' a \<and> \<not> status_is h ''in_progress'' a))"
proof (intro conjI ballI)
  have removed: "contents h (d_removed d) = contents h prev - contents h cur"
    by (auto simp: assms computeSingleDiff_def by_content_None contents_def)
  have "contents h (changed d) \<subseteq> contents h cur"
    by (auto simp: contents_def assms set_changed)
  moreover have "contents h cur \<subseteq> contents h prev \<union> contents h (changed d)"
    using classify_new by (fastforce simp: contents_def assms set_changed)
  ultimately show "contents h cur = (contents h prev - contents h (d_removed d)) \<union> contents h (changed d)"
    using removed by blast
next
  fix a assume "a \<in> set (d_completed d)"
  then show "status_is h ''completed'' a" by (auto simp: assms computeSingleDiff_def dest: classify_Completed)
next
  fix a assume "a \<in> set (d_started d)"
  then show "status_is h ''in_progress'' a" by (auto simp: assms computeSingleDiff_def dest: classify_Started)
next
  fix a assume "a \<in> set cur - set (changed d)"
  then have none: "classify h prev a = None" by (simp add: assms set_changed)
  then obtain p where p: "by_content h prev (jget (item_at h a) ''content'') = Some p"
    by (auto simp: classify_def split: option.splits)
  with none have "jget (item_at h p) ''status'' = jget (item_at h a) ''status''
      \<or> \<not> status_is h ''completed'' a \<and> \<not> status_is h ''in_progress'' a"
    by (auto simp: classify_def split: if_splits)
  with by_content_Some [OF p] show "\<exists>p \<in> set prev.
      jget (item_at h p) ''content'' = jget (item_at h a) ''content''
      \<and> (jget (item_at h p) ''status'' = jget (item_at h a) ''status''
         \<or> \<not> status_is h ''completed'' a \<and> \<not> status_is h ''in_progress'' a)"
    by blast
qed

text \<open>Two items: one completed, one new.\<close>

definition sample_heap :: "jval list" where
  "sample_heap =
     [JObj [(''content'', JStr ''a''), (''status'', JStr ''pending'')],
      JObj [(''content'', JStr ''a''), (''status'', JStr ''completed'')],
      JObj [(''content'', JStr ''b''), (''status'', JStr ''pending'')]]"

lemma todo_diff_faithful_witness:
  "d_completed (computeSingleDiff sample_heap [0] [1, 2]) = [1]
   \<and> contents sample_heap [1, 2] =
      (contents sample_heap [0] - contents sample_heap (d_removed (computeSingleDiff sample_heap [0] [1, 2])))
      \<union> contents sample_heap (changed (computeSingleDiff sample_heap [0] [1, 2]))"
proof
  show "d_completed (computeSingleDiff sample_heap [0] [1, 2]) = [1]" by code_simp
qed (rule todo_diff_faithful [OF refl, THEN conjunct1])

section \<open>Tasks stay bound to their items\<close>

text \<open>
  What must hold of one agent's list, the one under key \<open>k\<close>: every task id and every pending creation
  bound to it names a position the list has, and every position holds an item. It lasts as long as the
  list does: a list call of that agent replaces the list, and the end of the agent deletes it.
\<close>

definition task_inv :: "string \<Rightarrow> todo_state \<Rightarrow> bool" where
  "task_inv k s \<longleftrightarrow>
     (\<forall>i. (k, i) \<in> ran (taskIdMap s) \<union> ran (pendingCreatesMap s) \<longrightarrow> i < length (list_of s k))
     \<and> (\<forall>x \<in> set (list_of s k). \<exists>a. x = Some a \<and> a < length (heap s))"

lemma initial_task_inv: "task_inv k initial_todos"
  by (simp add: task_inv_def initial_todos_def list_of_def)

lemma task_invI:
  assumes "\<And>t i. taskIdMap s t = Some (k, i) \<Longrightarrow> i < length (list_of s k)"
    and "\<And>t i. pendingCreatesMap s t = Some (k, i) \<Longrightarrow> i < length (list_of s k)"
    and "\<And>x. x \<in> set (list_of s k) \<Longrightarrow> \<exists>a. x = Some a \<and> a < length (heap s)"
  shows "task_inv k s"
  using assms by (auto simp: task_inv_def ran_def)

lemma task_invD:
  assumes "task_inv k s"
  shows "taskIdMap s t = Some (k, i) \<Longrightarrow> i < length (list_of s k)"
    and "pendingCreatesMap s t = Some (k, i) \<Longrightarrow> i < length (list_of s k)"
    and "x \<in> set (list_of s k) \<Longrightarrow> \<exists>a. x = Some a \<and> a < length (heap s)"
  using assms by (auto simp: task_inv_def ran_def)

lemma applyTaskCreate_inv:
  assumes inv: "task_inv k s"
  shows "task_inv k (applyTaskCreate s e)"
proof (cases "nonempty (tool_use_id e)")
  case False
  with inv show ?thesis by (simp add: applyTaskCreate_def)
next
  case True
  let ?s = "applyTaskCreate s e" and ?k = "subagent_key e"
  have lists: "list_of ?s k = (if k = ?k then list_of s k @ [Some (length (heap s))] else list_of s k)"
    using True by (simp add: applyTaskCreate_def list_of_def Let_def)
  have heap: "length (heap ?s) = Suc (length (heap s))"
    using True by (simp add: applyTaskCreate_def Let_def)
  show ?thesis
  proof (rule task_invI)
    fix t i assume "taskIdMap ?s t = Some (k, i)"
    then have "taskIdMap s t = Some (k, i)" using True by (simp add: applyTaskCreate_def Let_def)
    from task_invD(1) [OF inv this] show "i < length (list_of ?s k)" by (simp add: lists) (auto intro: less_SucI)
  next
    fix t i assume "pendingCreatesMap ?s t = Some (k, i)"
    then have "(k, i) = (?k, length (list_of s ?k)) \<or> pendingCreatesMap s t = Some (k, i)"
      using True by (auto simp: applyTaskCreate_def Let_def split: if_splits)
    then show "i < length (list_of ?s k)"
      using task_invD(2) [OF inv, of t i] by (auto simp: lists)
  next
    fix x assume "x \<in> set (list_of ?s k)"
    then show "\<exists>a. x = Some a \<and> a < length (heap ?s)"
      using task_invD(3) [OF inv] by (fastforce simp: lists heap split: if_splits)
  qed
qed

lemma assign_at_inside [simp]: "i < length l \<Longrightarrow> assign_at l i x = l[i := Some x]"
  by (simp add: assign_at_def)

definition updateBinding :: "todo_state \<Rightarrow> event \<Rightarrow> binding option" where
  "updateBinding s e =
     (if nullish (jget (tool_input e) ''taskId'') then None
      else taskIdMap s (jstring (jget (tool_input e) ''taskId'')))"

lemma applyTaskUpdate_prev:
  assumes "nonempty (tool_use_id e)"
  shows "prevTodos (applyTaskUpdate s e) =
     (case updateBinding s e of
        Some (key, i) \<Rightarrow> (prevTodos s)(key \<mapsto> assign_at (list_of s key) i (length (heap s)))
      | None \<Rightarrow> prevTodos s)"
  using assms by (simp add: applyTaskUpdate_def updateBinding_def Let_def)

lemma applyTaskUpdate_lists:
  assumes "task_inv k s" and "nonempty (tool_use_id e)"
  shows "list_of (applyTaskUpdate s e) k =
     (case updateBinding s e of
        Some (key, i) \<Rightarrow> if k = key then (list_of s k)[i := Some (length (heap s))] else list_of s k
      | None \<Rightarrow> list_of s k)"
proof (cases "updateBinding s e")
  case None
  then show ?thesis by (simp add: list_of_def applyTaskUpdate_prev [OF assms(2)])
next
  case (Some b)
  obtain key i where b: "b = (key, i)" by force
  from Some b have bound: "taskIdMap s (jstring (jget (tool_input e) ''taskId'')) = Some (key, i)"
    by (simp add: updateBinding_def split: if_splits)
  have prev: "list_of (applyTaskUpdate s e) k =
      (if k = key then assign_at (list_of s k) i (length (heap s)) else list_of s k)"
    using Some b by (simp add: list_of_def [of "applyTaskUpdate s e"] applyTaskUpdate_prev [OF assms(2)])
      (simp add: list_of_def)
  show ?thesis
  proof (cases "k = key")
    case True
    with bound have "i < length (list_of s k)" using task_invD(1) [OF assms(1)] by blast
    with True Some b prev show ?thesis by simp
  next
    case False
    with Some b prev show ?thesis by simp
  qed
qed

lemma applyTaskUpdate_frame:
  "taskIdMap (applyTaskUpdate s e) = taskIdMap s"
  "pendingCreatesMap (applyTaskUpdate s e) = pendingCreatesMap s"
  "nonempty (tool_use_id e) \<Longrightarrow> length (heap (applyTaskUpdate s e)) = Suc (length (heap s))"
  by (simp_all add: applyTaskUpdate_def Let_def)

lemma applyTaskUpdate_inv:
  assumes inv: "task_inv k s"
  shows "task_inv k (applyTaskUpdate s e)"
proof (cases "nonempty (tool_use_id e)")
  case False
  with inv show ?thesis by (simp add: applyTaskUpdate_def)
next
  case True
  let ?s = "applyTaskUpdate s e"
  note lists = applyTaskUpdate_lists [OF inv True]
  have same: "length (list_of ?s k) = length (list_of s k)"
    by (simp add: lists split: option.splits prod.splits)
  show ?thesis
  proof (rule task_invI)
    fix x assume "x \<in> set (list_of ?s k)"
    then have "x \<in> set (list_of s k) \<or> x = Some (length (heap s))"
      by (auto simp: lists dest!: set_update_subset_insert [THEN subsetD] split: option.splits if_splits)
    then show "\<exists>a. x = Some a \<and> a < length (heap ?s)"
      using task_invD(3) [OF inv] applyTaskUpdate_frame(3) [OF True, of s] by fastforce
  qed (use task_invD(1,2) [OF inv] in \<open>simp_all add: same applyTaskUpdate_frame\<close>)
qed

lemma applyTaskResult_lists: "list_of (applyTaskResult s e) k = list_of s k"
  "length (heap (applyTaskResult s e)) = length (heap s)"
  by (auto simp: applyTaskResult_def list_of_def Let_def split: option.splits prod.splits)

lemma applyTaskResult_inv:
  assumes inv: "task_inv k s"
  shows "task_inv k (applyTaskResult s e)"
proof (rule task_invI)
  let ?s = "applyTaskResult s e"
  fix t i assume "taskIdMap ?s t = Some (k, i)"
  then have "taskIdMap s t = Some (k, i) \<or> (\<exists>t. pendingCreatesMap s t = Some (k, i))"
    by (auto simp: applyTaskResult_def Let_def split: option.splits prod.splits if_splits)
  then show "i < length (list_of ?s k)"
    using task_invD(1,2) [OF inv] by (auto simp: applyTaskResult_lists)
next
  let ?s = "applyTaskResult s e"
  fix t i assume "pendingCreatesMap ?s t = Some (k, i)"
  then have "pendingCreatesMap s t = Some (k, i)"
    by (auto simp: applyTaskResult_def Let_def split: option.splits prod.splits if_splits)
  then show "i < length (list_of ?s k)"
    using task_invD(2) [OF inv] by (simp add: applyTaskResult_lists)
next
  fix x assume "x \<in> set (list_of (applyTaskResult s e) k)"
  then show "\<exists>a. x = Some a \<and> a < length (heap (applyTaskResult s e))"
    using task_invD(3) [OF inv] by (simp add: applyTaskResult_lists)
qed

lemma taskStep_inv: "task_inv k s \<Longrightarrow> task_inv k (taskStep s e)"
  by (simp add: taskStep_def applyTaskCreate_inv applyTaskUpdate_inv applyTaskResult_inv)

lemma appendTaskDiffs_inv: "task_inv k s \<Longrightarrow> task_inv k (appendTaskDiffs s es)"
  by (rule tasked.app_invariant) (simp_all add: appendTaskDiffs_def taskStep_inv)

text \<open>A task update changes one item: it appends a merged copy of the item its id is bound to - the
  content kept, the status replaced when one is given - puts it at that very position, and leaves every
  other position of every list and every existing item as it was.\<close>

theorem task_update_local:
  assumes "task_inv k s" and "ev_subtype e = Sub_TOOL_USE" and "toolOf e = Some TASK_UPDATE"
    and "nonempty (tool_use_id e)" and "updateBinding s e = Some (k, i)"
    and "list_of s k ! i = Some a" and "s' = taskStep s e"
  shows "list_of s' k = (list_of s k)[i := Some (length (heap s))] \<and> i < length (list_of s k)
    \<and> (\<forall>k'. k' \<noteq> k \<longrightarrow> list_of s' k' = list_of s k')
    \<and> take (length (heap s)) (heap s') = heap s
    \<and> (let old = item_at (heap s) a; new = item_at (heap s') (length (heap s));
           st = jget (tool_input e) ''status''
       in (truthy (jget old ''content'') \<longrightarrow> jget new ''content'' = jget old ''content'')
          \<and> jget new ''status'' = jor st (jor (jget old ''status'') (JStr ''pending'')))"
proof -
  from assms(5) have bind: "taskIdMap s (jstring (jget (tool_input e) ''taskId'')) = Some (k, i)"
    and id: "\<not> nullish (jget (tool_input e) ''taskId'')"
    by (auto simp: updateBinding_def split: if_splits)
  from task_invD(1) [OF assms(1) bind] have i: "i < length (list_of s k)" .
  have s': "s' = applyTaskUpdate s e"
    using assms(2,3,7) by (simp add: taskStep_def)
  have "heap s' = heap s @ [mergeTaskUpdate (item_at (heap s) a) (jget (tool_input e) ''taskId'')
      (jget (tool_input e) ''status'') (blockers (jget (tool_input e) ''addBlockedBy''))]"
    using assms(4,6) bind id i by (simp add: s' applyTaskUpdate_def slot_def Let_def)
  moreover have "jget (mergeTaskUpdate c t st b) ''content'' = jor (jget c ''content'')
      (JStr (''Task #'' @ jstring (jcoalesce t (JStr ''?''))))"
    "jget (mergeTaskUpdate c t st b) ''status'' = jor st (jor (jget c ''status'') (JStr ''pending''))"
    for c t st b by (simp_all add: mergeTaskUpdate_def)
  moreover have "prevTodos s' = (prevTodos s)(k \<mapsto> (list_of s k)[i := Some (length (heap s))])"
    using i assms(5) by (simp add: s' applyTaskUpdate_prev [OF assms(4)])
  ultimately show ?thesis
    using i by (simp add: list_of_def item_at_def jor_def Let_def)
qed

section \<open>What the list pipeline leaves alone\<close>

text \<open>An event that replaces the list under key \<open>k\<close> (a list call of that agent), and one that ends the
  agent: a result for the call that started it. An asynchronous agent's end is announced by a notification
  for an id that such a result has bound.\<close>

definition replaces_list :: "string \<Rightarrow> event \<Rightarrow> bool" where
  "replaces_list k e \<longleftrightarrow>
     ev_subtype e = Sub_TOOL_USE \<and> content e = Some TODO_WRITE \<and> subagent_key e = k"

definition ends_agent :: "string \<Rightarrow> event \<Rightarrow> bool" where
  "ends_agent k e \<longleftrightarrow> ev_subtype e = Sub_TOOL_RESULT \<and> tool_use_id e = Some k"

definition list_lasts :: "string \<Rightarrow> todo_state \<Rightarrow> bool" where
  "list_lasts k s \<longleftrightarrow> task_inv k s \<and> Some k \<notin> ran (asyncTaskIdMap s)"

lemma delete_lists [simp]:
  fixes ks :: "string list" and u :: todo_state
  defines "v \<equiv> foldl (\<lambda>s t. s\<lparr>prevTodos := (prevTodos s)(t := None)\<rparr>) u ks"
  shows "taskIdMap v = taskIdMap u" "pendingCreatesMap v = pendingCreatesMap u" "heap v = heap u"
    "asyncTaskIdMap v = asyncTaskIdMap u"
    "prevTodos v k = (if k \<in> set ks then None else prevTodos u k)"
  unfolding v_def by (induction ks arbitrary: u) auto

lemma todoCleanup_frame [simp]:
  "taskIdMap (todoCleanup e s) = taskIdMap s" "pendingCreatesMap (todoCleanup e s) = pendingCreatesMap s"
  "heap (todoCleanup e s) = heap s" "asyncTaskIdMap (todoCleanup e s) = asyncTaskIdMap s"
  by (simp_all add: todoCleanup_def)

lemma todoResult_frame [simp]:
  "taskIdMap (todoResult e s) = taskIdMap s" "pendingCreatesMap (todoResult e s) = pendingCreatesMap s"
  "heap (todoResult e s) = heap s"
  by (simp_all add: todoResult_def Let_def split: option.splits)

lemma todoWrite_frame:
  assumes "todoWrite e s = Some t"
  shows "taskIdMap t = taskIdMap s" "pendingCreatesMap t = pendingCreatesMap s"
    "asyncTaskIdMap t = asyncTaskIdMap s" "length (heap s) \<le> length (heap t)"
    "\<not> replaces_list k e \<Longrightarrow> prevTodos t k = prevTodos s k"
  using assms
  by (auto simp: todoWrite_def alloc_def Let_def replaces_list_def split: if_splits option.splits)

lemma resolveAsyncTaskIds_bound:
  assumes "t \<in> set (resolveAsyncTaskIds e m)"
  shows "m (jget (message_data e) ''task_id'') = Some (Some t)"
proof -
  let ?x = "m (jget (message_data e) ''task_id'')"
  have listed: "resolveAsyncTaskIds e m =
      (if isTaskNotification e \<and> truthy (jget (message_data e) ''task_id'')
       then (case ?x of Some (Some t) \<Rightarrow> if t \<noteq> [] then [t] else [] | _ \<Rightarrow> []) else [])"
    by (simp add: resolveAsyncTaskIds_def)
  show ?thesis
  proof (cases "?x = None \<or> ?x = Some None")
    case True
    then have "(case ?x of Some (Some t) \<Rightarrow> if t \<noteq> [] then [t] else [] | _ \<Rightarrow> []) = []"
      by (elim disjE) simp_all
    then have "resolveAsyncTaskIds e m = []" unfolding listed by (simp only: if_cancel)
    with assms show ?thesis by simp
  next
    case False
    then obtain u where "?x = Some (Some u)" by auto
    then have "(case ?x of Some (Some t) \<Rightarrow> if t \<noteq> [] then [t] else [] | _ \<Rightarrow> []) = (if u \<noteq> [] then [u] else [])"
      by simp
    then have "resolveAsyncTaskIds e m \<in> {[], [u]}" unfolding listed by simp
    with assms \<open>?x = Some (Some u)\<close> show ?thesis by auto
  qed
qed

lemma todoCleanup_list:
  assumes "Some k \<notin> ran (asyncTaskIdMap s)"
  shows "prevTodos (todoCleanup e s) k = prevTodos s k"
proof -
  have "k \<notin> set (resolveAsyncTaskIds e (asyncTaskIdMap s))"
    using assms resolveAsyncTaskIds_bound [of k e "asyncTaskIdMap s"] by (auto simp: ran_def)
  then show ?thesis by (simp add: todoCleanup_def)
qed

lemma todoResult_prev:
  "prevTodos (todoResult e s) =
     (if ev_subtype e = Sub_TOOL_RESULT
      then (case tool_use_id e of Some t \<Rightarrow> (prevTodos s)(t := None) | None \<Rightarrow> prevTodos s) else prevTodos s)"
  by (simp add: todoResult_def Let_def split: option.splits)

lemma todoResult_async:
  "asyncTaskIdMap (todoResult e s) = asyncTaskIdMap s
   \<or> ev_subtype e = Sub_TOOL_RESULT
     \<and> asyncTaskIdMap (todoResult e s) = (asyncTaskIdMap s)(jget (tool_use_result e) ''agentId'' \<mapsto> tool_use_id e)"
  by (simp add: todoResult_def Let_def split: option.splits)

lemma todoResult_list:
  assumes "\<not> ends_agent k e"
  shows "prevTodos (todoResult e s) k = prevTodos s k"
    and "Some k \<notin> ran (asyncTaskIdMap s) \<Longrightarrow> Some k \<notin> ran (asyncTaskIdMap (todoResult e s))"
  using assms todoResult_async [of e s]
  by (auto simp: todoResult_prev ends_agent_def ran_def split: option.splits if_splits)

lemma todoStep_lasts:
  assumes "list_lasts k s" and "\<not> replaces_list k e" and "\<not> ends_agent k e"
    and "todoStep (Some s) e = Some s'"
  shows "list_lasts k s'"
proof -
  from assms(4) obtain t where t: "todoWrite e s = Some t" and s': "s' = todoCleanup e (todoResult e t)"
    by (auto simp: todoStep_def)
  note w = todoWrite_frame [OF t]
  have async: "Some k \<notin> ran (asyncTaskIdMap (todoResult e t))"
    using assms(1) todoResult_list(2) [OF assms(3)] w(3) by (simp add: list_lasts_def)
  have "list_of s' k = list_of s k"
    using todoCleanup_list [OF async] todoResult_list(1) [OF assms(3)] w(5) [OF assms(2)]
    by (simp add: s' list_of_def)
  then have "task_inv k s'"
    using assms(1) w(1,2,4) by (fastforce simp: s' list_lasts_def task_inv_def)
  with async show ?thesis by (simp add: list_lasts_def s')
qed

lemma todoStep_None: "foldl todoStep None es = None"
  by (induction es) (simp_all add: todoStep_def)

lemma appendTodoDiffs_snoc: "appendTodoDiffs s (es @ [e]) = todoStep (appendTodoDiffs s es) e"
  by (simp add: appendTodoDiffs_def)

lemma appendTodoDiffs_invariant:
  assumes "appendTodoDiffs s es = Some s'" and "P s"
    and "\<And>s e s'. e \<in> set es \<Longrightarrow> P s \<Longrightarrow> todoStep (Some s) e = Some s' \<Longrightarrow> P s'"
  shows "P s'"
  using assms
proof (induction es arbitrary: s' rule: rev_induct)
  case Nil
  then show ?case by (simp add: appendTodoDiffs_def)
next
  case (snoc e es)
  from snoc.prems(1) obtain t where t: "appendTodoDiffs s es = Some t" and s': "todoStep (Some t) e = Some s'"
    by (cases "appendTodoDiffs s es") (simp_all add: appendTodoDiffs_snoc todoStep_def)
  have "P t" using snoc.IH [OF t snoc.prems(2)] snoc.prems(3) by auto
  with snoc.prems(3) [OF _ _ s'] show ?case by simp
qed

lemma taskStep_async: "asyncTaskIdMap (taskStep s e) = asyncTaskIdMap s"
  by (simp add: taskStep_def applyTaskCreate_def applyTaskUpdate_def applyTaskResult_def Let_def
      split: option.splits prod.splits)

lemma appendTaskDiffs_async: "asyncTaskIdMap (appendTaskDiffs s es) = asyncTaskIdMap s"
  by (rule tasked.app_invariant [where P = "\<lambda>t. asyncTaskIdMap t = asyncTaskIdMap s"])
     (simp_all add: appendTaskDiffs_def taskStep_async)

section \<open>The session's todo state\<close>

text \<open>Both pipelines run on every batch, the whole-list one first (\<open>flushBatch\<close>).\<close>

definition flushTodos :: "todo_state \<Rightarrow> event list \<Rightarrow> todo_state option" where
  "flushTodos s es = map_option (\<lambda>s. appendTaskDiffs s es) (appendTodoDiffs s es)"

lemma flushTodos_lasts:
  assumes "list_lasts k s" and "\<forall>e \<in> set es. \<not> replaces_list k e \<and> \<not> ends_agent k e"
    and "flushTodos s es = Some s'"
  shows "list_lasts k s'"
proof -
  from assms(3) obtain t where t: "appendTodoDiffs s es = Some t" and s': "s' = appendTaskDiffs t es"
    by (auto simp: flushTodos_def)
  from t assms(1) have "list_lasts k t"
    by (rule appendTodoDiffs_invariant) (use assms(2) todoStep_lasts in blast)
  then show ?thesis by (simp add: s' list_lasts_def appendTaskDiffs_inv appendTaskDiffs_async)
qed

text \<open>Without a call of the task tools the second pipeline does nothing, and the first goes event by event.\<close>

definition task_call :: "event \<Rightarrow> bool" where
  "task_call e \<longleftrightarrow> ev_subtype e = Sub_TOOL_USE \<and> (toolOf e = Some TASK_CREATE \<or> toolOf e = Some TASK_UPDATE)"

lemma appendTaskDiffs_idle:
  assumes "pendingCreatesMap s = Map.empty" and "\<forall>e \<in> set es. \<not> task_call e"
  shows "appendTaskDiffs s es = s"
  using assms
  by (induction es) (auto simp: appendTaskDiffs_def taskStep_def task_call_def applyTaskResult_def Let_def
      split: option.splits)

lemma flushTodos_idle:
  assumes "pendingCreatesMap s = Map.empty" and "\<forall>e \<in> set es. \<not> task_call e"
    and "flushTodos s es = Some s'"
  shows "appendTodoDiffs s es = Some s' \<and> pendingCreatesMap s' = Map.empty"
proof -
  from assms(3) obtain t where t: "appendTodoDiffs s es = Some t" and s': "s' = appendTaskDiffs t es"
    by (auto simp: flushTodos_def)
  from t assms(1) have "pendingCreatesMap t = Map.empty"
    by (rule appendTodoDiffs_invariant) (auto simp: todoStep_def dest!: todoWrite_frame(2))
  with assms(2) t show ?thesis by (simp add: s' appendTaskDiffs_idle)
qed

text \<open>A task created in a session, and its result.\<close>

definition task_create :: "string \<Rightarrow> string option \<Rightarrow> event" where
  "task_create t p = blank_event\<lparr>ev_subtype := Sub_TOOL_USE, content := Some TASK_CREATE,
     tool_use_id := Some t, parent_tool_use_id := p,
     tool_input := JObj [(''subject'', JStr ''write tests'')]\<rparr>"

definition task_created :: "string \<Rightarrow> int \<Rightarrow> event" where
  "task_created t n = blank_event\<lparr>ev_subtype := Sub_TOOL_RESULT, tool_use_id := Some t,
     tool_use_result := JObj [(''task'', JObj [(''id'', JNum n)])]\<rparr>"

definition task_update :: "string \<Rightarrow> int \<Rightarrow> string \<Rightarrow> event" where
  "task_update t n st = blank_event\<lparr>ev_subtype := Sub_TOOL_USE, content := Some TASK_UPDATE,
     tool_use_id := Some t,
     tool_input := JObj [(''taskId'', JNum n), (''status'', JStr st)]\<rparr>"

definition sub_result :: "string \<Rightarrow> event" where
  "sub_result t = blank_event\<lparr>ev_subtype := Sub_TOOL_RESULT, tool_use_id := Some t\<rparr>"

definition todo_write :: "string \<Rightarrow> string option \<Rightarrow> event" where
  "todo_write t p = blank_event\<lparr>ev_subtype := Sub_TOOL_USE, content := Some TODO_WRITE,
     tool_use_id := Some t, parent_tool_use_id := p, tool_input := JObj [(''todos'', JArr [])]\<rparr>"

lemmas task_samples =
  task_create_def task_created_def task_update_def sub_result_def blank_event_def

definition sample_tasks :: todo_state where
  "sample_tasks = appendTaskDiffs initial_todos [task_create ''u1'' None, task_created ''u1'' 7]"

lemma task_update_local_witness:
  "jget (item_at (heap (taskStep sample_tasks (task_update ''u2'' 7 ''completed''))) 1) ''status'' = JStr ''completed''"
proof -
  let ?e = "task_update ''u2'' 7 ''completed''"
  have inv: "task_inv ''main'' sample_tasks"
    unfolding sample_tasks_def by (rule appendTaskDiffs_inv [OF initial_task_inv])
  have pre: "ev_subtype ?e = Sub_TOOL_USE" "toolOf ?e = Some TASK_UPDATE" "nonempty (tool_use_id ?e)"
    "updateBinding sample_tasks ?e = Some (''main'', 0)" "list_of sample_tasks ''main'' ! 0 = Some 0"
    "length (heap sample_tasks) = 1" "jget (tool_input ?e) ''status'' = JStr ''completed''"
    by code_simp+
  show ?thesis
    using task_update_local [OF inv pre(1-5) refl] pre(6,7) by (simp add: Let_def jor_def)
qed

text \<open>The todo state depends on where the log was cut: when a subagent creates a task and finishes,
  flushing its two events one after the other removes the subagent's list, while flushing them in one
  batch, as a replay does, leaves the list behind - the clean-up runs over the whole batch before the
  batch's tasks are created.\<close>

theorem subagent_cleanup_depends_on_batching:
  "map_option (\<lambda>s. prevTodos s ''p'')
       (flushTodos initial_todos [task_create ''c1'' (Some ''p''), sub_result ''p'']) = Some (Some [Some 0])
   \<and> map_option (\<lambda>s. prevTodos s ''p'')
       (Option.bind (flushTodos initial_todos [task_create ''c1'' (Some ''p'')])
          (\<lambda>s. flushTodos s [sub_result ''p''])) = Some None"
  by code_simp

text \<open>A list may outlive its agent in pieces: the end of an agent deletes its list and leaves the task ids
  bound to its positions, so that a later update of the second of two tasks makes a list whose first
  position is a hole, and the next list call under that key raises.\<close>

theorem update_after_the_end_leaves_a_hole:
  "map_option (\<lambda>s. (prevTodos s ''p'', Option.is_none (flushTodos s [todo_write ''w1'' (Some ''p'')])))
     (Option.bind (flushTodos initial_todos
         [task_create ''c1'' (Some ''p''), task_created ''c1'' 7,
          task_create ''c2'' (Some ''p''), task_created ''c2'' 8])
       (\<lambda>s. flushTodos s [sub_result ''p'', task_update ''u1'' 8 ''completed'']))
   = Some (Some [None, Some 2], True)"
  by code_simp

end
