(* ===== verification/Ownership.thy ===== *)
theory Ownership
  imports Prelude
begin

text \<open>
  Whose state is it: the record of the sessions a tab creates (\<open>nextCreations\<close> in
  \<open>context/utils/eventsReducer.js\<close>), the owner tags built on it (\<open>utils/sessionOwnership.js\<close>) and the
  fate of picker changes made before their session is on screen (\<open>utils/pickBuffer.js\<close>).
\<close>

section \<open>Creations\<close>

datatype creation_status = Pending | Created | Failed | Routed

record creation =
  c_status :: creation_status
  c_sessionId :: "string option"
  c_fromRoute :: "string option"

record creations =
  current_seq :: nat
  bySeq :: "nat \<rightharpoonup> creation"

definition initial_creations :: creations where
  "initial_creations = \<lparr>current_seq = 0, bySeq = Map.empty\<rparr>"

datatype creation_action =
    CREATING_STARTED nat "string option"
  | CREATE_REQUEST_SETTLED nat "string option"
  | CREATING_FAILED nat
  | CREATION_ROUTED nat

definition withEntry :: "creations \<Rightarrow> nat \<Rightarrow> (creation \<Rightarrow> creation) \<Rightarrow> creations" where
  "withEntry cs seq patch = cs\<lparr>bySeq := (bySeq cs)(seq := map_option patch (bySeq cs seq))\<rparr>"

definition status_of :: "creations \<Rightarrow> nat \<Rightarrow> creation_status option" where
  "status_of cs seq = map_option c_status (bySeq cs seq)"

fun nextCreations :: "creations \<Rightarrow> creation_action \<Rightarrow> creations" where
  "nextCreations cs (CREATING_STARTED seq fromRoute) =
     \<lparr>current_seq = seq,
      bySeq = (bySeq cs)(seq \<mapsto> \<lparr>c_status = Pending, c_sessionId = None, c_fromRoute = fromRoute\<rparr>)\<rparr>"
| "nextCreations cs (CREATE_REQUEST_SETTLED seq sid) =
     (if status_of cs seq = Some Pending
      then withEntry cs seq (\<lambda>c. c\<lparr>c_status := Created, c_sessionId := sid\<rparr>) else cs)"
| "nextCreations cs (CREATING_FAILED seq) =
     (if status_of cs seq = Some Pending then withEntry cs seq (\<lambda>c. c\<lparr>c_status := Failed\<rparr>) else cs)"
| "nextCreations cs (CREATION_ROUTED seq) =
     (if status_of cs seq = Some Created then withEntry cs seq (\<lambda>c. c\<lparr>c_status := Routed\<rparr>) else cs)"

section \<open>Owners\<close>

definition openCreation :: "creations \<Rightarrow> string option \<Rightarrow> (nat \<times> creation) option" where
  "openCreation cs routedSessionId =
     (case bySeq cs (current_seq cs) of
        None \<Rightarrow> None
      | Some entry \<Rightarrow>
          if c_status entry = Pending
             \<or> (c_status entry = Created \<and> c_sessionId entry \<noteq> routedSessionId
                \<and> c_fromRoute entry = routedSessionId)
          then Some (current_seq cs, entry) else None)"

definition ownerSessionIdOf :: "string option \<Rightarrow> creations \<Rightarrow> string option" where
  "ownerSessionIdOf routedSessionId cs =
     (case openCreation cs routedSessionId of
        Some (_, entry) \<Rightarrow> c_sessionId entry
      | None \<Rightarrow> routedSessionId)"

definition isOwnerAttachedFor ::
  "string option \<Rightarrow> string option \<Rightarrow> creations \<Rightarrow> bool \<Rightarrow> bool \<Rightarrow> bool" where
  "isOwnerAttachedFor routedSessionId attachedSessionId cs isResumeRequestPending isCreateRequestPending =
     (if isResumeRequestPending \<or> isCreateRequestPending then False
      else (let owner = ownerSessionIdOf routedSessionId cs
            in owner \<noteq> None \<and> owner = attachedSessionId))"

datatype owner_tag = SessionTag string | CreationTag nat

definition ownerTagFor :: "string option \<Rightarrow> creations \<Rightarrow> owner_tag" where
  "ownerTagFor routedSessionId cs =
     (case openCreation cs routedSessionId of
        Some (seq, _) \<Rightarrow> CreationTag seq
      | None \<Rightarrow>
          (case routedSessionId of
             Some s \<Rightarrow> if s \<noteq> [] then SessionTag s else CreationTag (current_seq cs + 1)
           | None \<Rightarrow> CreationTag (current_seq cs + 1)))"

definition resolveOwnerTag :: "owner_tag option \<Rightarrow> creations \<Rightarrow> string option" where
  "resolveOwnerTag tag cs =
     (case tag of
        None \<Rightarrow> None
      | Some (SessionTag s) \<Rightarrow> Some s
      | Some (CreationTag seq) \<Rightarrow>
          (case bySeq cs seq of
             Some entry \<Rightarrow>
               if c_status entry = Created \<or> c_status entry = Routed then c_sessionId entry else None
           | None \<Rightarrow> None))"

definition isOrphanedTag :: "owner_tag option \<Rightarrow> creations \<Rightarrow> bool" where
  "isOrphanedTag tag cs =
     (case tag of Some (CreationTag seq) \<Rightarrow> status_of cs seq = Some Failed | _ \<Rightarrow> False)"

definition isOpenFor :: "string option \<Rightarrow> string option \<Rightarrow> bool" where
  "isOpenFor openedFor routedSessionId \<longleftrightarrow> openedFor \<noteq> None \<and> openedFor = routedSessionId"

definition toggleOpenFor :: "string option \<Rightarrow> string option \<Rightarrow> string option" where
  "toggleOpenFor openedFor routedSessionId =
     (if isOpenFor openedFor routedSessionId then None else routedSessionId)"

section \<open>Picker changes\<close>

datatype pick_fate = WAIT | DRAIN | DISCARD | REBIND

definition sameOwner :: "owner_tag \<Rightarrow> owner_tag \<Rightarrow> bool" where
  "sameOwner a b =
     (case (a, b) of
        (SessionTag s, SessionTag t) \<Rightarrow> s = t
      | (CreationTag m, CreationTag n) \<Rightarrow> m = n
      | _ \<Rightarrow> False)"

record picks =
  p_owner :: owner_tag
  p_workspaceId :: "string option"
  p_model :: "string option"
  p_permissionMode :: "string option"
  p_effortLevel :: "string option"
  p_bundle :: "string option"

definition pickBufferFate ::
  "picks \<Rightarrow> string option \<Rightarrow> string option \<Rightarrow> string option \<Rightarrow> bool \<Rightarrow> creations \<Rightarrow> pick_fate" where
  "pickBufferFate pend workspaceId routedSessionId attachedSessionId isOwnerAttached cs =
     (if p_workspaceId pend \<noteq> workspaceId then DISCARD
      else case p_owner pend of
        SessionTag s \<Rightarrow>
          if routedSessionId \<noteq> Some s then DISCARD
          else if isOwnerAttached \<and> attachedSessionId = Some s then DRAIN else WAIT
      | CreationTag seq \<Rightarrow>
          (case bySeq cs seq of
             None \<Rightarrow> if nonempty attachedSessionId then DISCARD else WAIT
           | Some entry \<Rightarrow>
               if c_status entry = Pending then WAIT
               else if c_status entry = Failed then REBIND
               else if attachedSessionId = c_sessionId entry then
                 (if isOwnerAttached then DRAIN else WAIT)
               else if nonempty attachedSessionId then DISCARD else WAIT))"

definition hasSettings :: "picks option \<Rightarrow> bool" where
  "hasSettings pend =
     (case pend of
        None \<Rightarrow> False
      | Some p \<Rightarrow> nonempty (p_model p) \<or> nonempty (p_permissionMode p) \<or> nonempty (p_effortLevel p))"

section \<open>The life of a creation\<close>

text \<open>
  The context numbers creations \<open>current + 1\<close> (\<open>startCreating\<close>), so that a start never names an existing
  creation. \<open>numbered\<close> is what that keeps: no creation lies past the current one.
\<close>

definition numbered :: "creations \<Rightarrow> bool" where
  "numbered cs \<longleftrightarrow> (\<forall>n > current_seq cs. bySeq cs n = None)"

inductive creation_step :: "creations \<Rightarrow> creations \<Rightarrow> bool" where
  start: "creation_step cs (nextCreations cs (CREATING_STARTED (current_seq cs + 1) r))"
| settle: "creation_step cs (nextCreations cs (CREATE_REQUEST_SETTLED seq sid))"
| fail: "creation_step cs (nextCreations cs (CREATING_FAILED seq))"
| route: "creation_step cs (nextCreations cs (CREATION_ROUTED seq))"

inductive_cases creation_stepE: "creation_step cs cs'"

lemma numbered_initial: "numbered initial_creations"
  by (simp add: numbered_def initial_creations_def)

lemma withEntry_fields [simp]:
  "current_seq (withEntry cs n f) = current_seq cs"
  "bySeq (withEntry cs n f) m = (if m = n then map_option f (bySeq cs n) else bySeq cs m)"
  by (simp_all add: withEntry_def)

lemma numbered_step:
  assumes "creation_step cs cs'" and "numbered cs"
  shows "numbered cs'"
  using assms(1)
proof (cases rule: creation_step.cases)
  case (start r)
  with assms(2) show ?thesis by (simp add: numbered_def)
qed (use assms(2) in \<open>simp_all add: numbered_def\<close>)

text \<open>What an entry may become: its status moves forward only, and its route and session are settled
  once.\<close>

fun progressed :: "creation_status \<Rightarrow> creation_status \<Rightarrow> bool" where
  "progressed Pending _ = True"
| "progressed Created s = (s = Created \<or> s = Routed)"
| "progressed Failed s = (s = Failed)"
| "progressed Routed s = (s = Routed)"

definition advanced :: "creation \<Rightarrow> creation \<Rightarrow> bool" where
  "advanced c d \<longleftrightarrow> progressed (c_status c) (c_status d) \<and> c_fromRoute d = c_fromRoute c
     \<and> (c_status c \<noteq> Pending \<longrightarrow> c_sessionId d = c_sessionId c)"

lemma advanced_refl: "advanced c c"
  by (cases "c_status c") (simp_all add: advanced_def)

lemma advanced_trans: "advanced c d \<Longrightarrow> advanced d e \<Longrightarrow> advanced c e"
  by (cases "c_status c"; cases "c_status d") (auto simp: advanced_def)

lemma creation_step_advances:
  assumes "creation_step cs cs'" and "numbered cs" and "bySeq cs n = Some c"
  shows "\<exists>d. bySeq cs' n = Some d \<and> advanced c d"
  using assms(1)
proof (cases rule: creation_step.cases)
  case (start r)
  from assms(2,3) have "n \<noteq> Suc (current_seq cs)" by (force simp: numbered_def)
  with start assms(3) show ?thesis by (simp add: advanced_refl)
next
  case (settle seq sid)
  with assms(3) show ?thesis
    by (cases "n = seq") (simp_all add: status_of_def advanced_refl, simp add: advanced_def)
next
  case (fail seq)
  with assms(3) show ?thesis
    by (cases "n = seq") (simp_all add: status_of_def advanced_refl, simp add: advanced_def)
next
  case (route seq)
  with assms(3) show ?thesis
    by (cases "n = seq") (simp_all add: status_of_def advanced_refl, simp add: advanced_def)
qed

lemma creation_steps_advance:
  assumes "creation_step\<^sup>*\<^sup>* cs cs'" and "numbered cs"
  shows "numbered cs' \<and> (\<forall>n c. bySeq cs n = Some c \<longrightarrow> (\<exists>d. bySeq cs' n = Some d \<and> advanced c d))"
  using assms
proof (induction rule: rtranclp_induct)
  case base
  then show ?case using advanced_refl by blast
next
  case (step x y)
  then have x: "numbered x"
    and old: "\<And>n c. bySeq cs n = Some c \<Longrightarrow> \<exists>d. bySeq x n = Some d \<and> advanced c d"
    by auto
  show ?case
  proof (intro conjI allI impI)
    show "numbered y" using step(2) x by (rule numbered_step)
  next
    fix n c assume "bySeq cs n = Some c"
    from old [OF this] obtain d where d: "bySeq x n = Some d" "advanced c d" by blast
    from creation_step_advances [OF step(2) x d(1)] obtain e where "bySeq y n = Some e" "advanced d e" by blast
    with d(2) advanced_trans show "\<exists>e. bySeq y n = Some e \<and> advanced c e" by blast
  qed
qed

text \<open>An owner never changes hands: once a tag names a session it names that session for ever,
  whatever creations start, settle, fail or are routed afterwards; and a tag whose creation failed never
  comes to name one.\<close>

theorem owner_tag_stable:
  assumes "creation_step\<^sup>*\<^sup>* cs cs'" and "numbered cs"
  shows "(resolveOwnerTag tag cs = Some sid \<longrightarrow> resolveOwnerTag tag cs' = Some sid)
    \<and> (isOrphanedTag tag cs \<longrightarrow> isOrphanedTag tag cs' \<and> resolveOwnerTag tag cs' = None)"
proof (cases tag)
  case None
  then show ?thesis by (simp add: resolveOwnerTag_def isOrphanedTag_def)
next
  case (Some t)
  show ?thesis
  proof (cases t)
    case (SessionTag s)
    with Some show ?thesis by (simp add: resolveOwnerTag_def isOrphanedTag_def)
  next
    case (CreationTag n)
    show ?thesis
    proof (cases "bySeq cs n")
      case None
      with Some CreationTag show ?thesis
        by (simp add: resolveOwnerTag_def isOrphanedTag_def status_of_def)
    next
      case c: (Some c)
      with creation_steps_advance [OF assms] obtain d where d: "bySeq cs' n = Some d" "advanced c d"
        by blast
      with c Some CreationTag show ?thesis
        by (auto simp: resolveOwnerTag_def isOrphanedTag_def status_of_def advanced_def split: if_splits)
    qed
  qed
qed

text \<open>A tab that creates a session and reaches it.\<close>

definition sample_created :: creations where
  "sample_created = nextCreations (nextCreations initial_creations (CREATING_STARTED 1 None))
     (CREATE_REQUEST_SETTLED 1 (Some ''s1''))"

lemma sample_numbered: "numbered sample_created"
  by (simp add: sample_created_def numbered_def initial_creations_def status_of_def)

lemma owner_tag_stable_witness:
  "resolveOwnerTag (Some (CreationTag 1))
     (nextCreations (nextCreations sample_created (CREATION_ROUTED 1)) (CREATING_STARTED 2 None)) = Some ''s1''"
proof -
  let ?a = "nextCreations sample_created (CREATION_ROUTED 1)"
  have "creation_step sample_created ?a" by (rule creation_step.route)
  moreover have "current_seq ?a + 1 = 2" by code_simp
  then have "creation_step ?a (nextCreations ?a (CREATING_STARTED 2 None))"
    using creation_step.start [of ?a None] by (simp only:)
  ultimately have steps: "creation_step\<^sup>*\<^sup>* sample_created (nextCreations ?a (CREATING_STARTED 2 None))"
    by (rule converse_rtranclp_into_rtranclp [OF _ r_into_rtranclp])
  have "resolveOwnerTag (Some (CreationTag 1)) sample_created = Some ''s1''" by code_simp
  then show ?thesis using owner_tag_stable [OF steps sample_numbered] by blast
qed

section \<open>State made before its session exists\<close>

lemma openCreation_current: "openCreation cs r = Some (n, c) \<Longrightarrow> n = current_seq cs \<and> bySeq cs n = Some c"
  by (auto simp: openCreation_def split: option.splits if_splits)

text \<open>What is made on the welcome screen goes to the session created next: with no session routed and
  none being created, the owner tag resolves to nothing until the next creation settles, and from then
  on to the very session that creation produced.\<close>

theorem welcome_tag_names_next_creation:
  assumes "numbered cs" and "openCreation cs None = None"
    and "started = nextCreations cs (CREATING_STARTED (current_seq cs + 1) None)"
    and "settled = nextCreations started (CREATE_REQUEST_SETTLED (current_seq cs + 1) (Some sid))"
  shows "resolveOwnerTag (Some (ownerTagFor None cs)) cs = None
    \<and> resolveOwnerTag (Some (ownerTagFor None cs)) started = None
    \<and> ownerTagFor None started = ownerTagFor None cs
    \<and> resolveOwnerTag (Some (ownerTagFor None cs)) settled = Some sid"
proof -
  have tag: "ownerTagFor None cs = CreationTag (current_seq cs + 1)"
    using assms(2) by (simp add: ownerTagFor_def)
  have "bySeq cs (Suc (current_seq cs)) = None" using assms(1) by (simp add: numbered_def)
  then show ?thesis
    unfolding tag
    by (simp add: assms(3,4) resolveOwnerTag_def ownerTagFor_def openCreation_def status_of_def)
qed

lemma welcome_tag_names_next_creation_witness:
  "resolveOwnerTag (Some (ownerTagFor None initial_creations))
     (nextCreations (nextCreations initial_creations (CREATING_STARTED 1 None))
        (CREATE_REQUEST_SETTLED 1 (Some ''s1''))) = Some ''s1''"
proof -
  have closed: "openCreation initial_creations None = None" by code_simp
  have next_seq: "current_seq initial_creations + 1 = 1" by code_simp
  show ?thesis
    using welcome_tag_names_next_creation [OF numbered_initial closed refl refl, of "''s1''"]
    unfolding next_seq by blast
qed

text \<open>Picker changes reach only the session they were made for: when a buffer drains, its workspace
  is the current one and the session on screen, which the owner check has confirmed attached with no
  request in flight, is the session its owner tag names.\<close>

theorem picks_drain_into_owner:
  assumes "pickBufferFate pend ws routed attached
      (isOwnerAttachedFor routed attached cs resumePending createPending) cs = DRAIN"
  shows "p_workspaceId pend = ws \<and> attached \<noteq> None
    \<and> resolveOwnerTag (Some (p_owner pend)) cs = attached \<and> \<not> resumePending \<and> \<not> createPending"
proof -
  have owner: "\<not> resumePending \<and> \<not> createPending \<and> attached \<noteq> None"
    if "isOwnerAttachedFor routed attached cs resumePending createPending"
    using that by (auto simp: isOwnerAttachedFor_def Let_def split: if_splits)
  show ?thesis
  proof (cases "p_owner pend")
    case (SessionTag s)
    with assms owner show ?thesis
      by (auto simp: pickBufferFate_def resolveOwnerTag_def split: if_splits)
  next
    case (CreationTag n)
    show ?thesis
    proof (cases "bySeq cs n")
      case None
      with assms CreationTag show ?thesis by (simp add: pickBufferFate_def split: if_splits)
    next
      case (Some c)
      with assms CreationTag owner show ?thesis
        by (cases "c_status c") (auto simp: pickBufferFate_def resolveOwnerTag_def split: if_splits)
    qed
  qed
qed

lemma picks_drain_into_owner_witness:
  "resolveOwnerTag (Some (CreationTag 1)) sample_created = Some ''s1''"
proof -
  define pend where "pend = \<lparr>p_owner = CreationTag 1, p_workspaceId = Some ''w'', p_model = Some ''m'',
    p_permissionMode = None, p_effortLevel = None, p_bundle = None\<rparr>"
  have "pickBufferFate pend (Some ''w'') (Some ''s1'') (Some ''s1'')
      (isOwnerAttachedFor (Some ''s1'') (Some ''s1'') sample_created False False) sample_created = DRAIN"
    unfolding pend_def by code_simp
  from picks_drain_into_owner [OF this] show ?thesis by (simp add: pend_def)
qed

end
