(* ===== verification/EventsReducer.thy ===== *)
theory EventsReducer
  imports TurnGrouping Accumulators Todos Ownership
begin

text \<open>
  The events reducer, \<open>context/utils/eventsReducer.js\<close>: the session's state and every action on it.

  \<open>todoDiffs\<close>, \<open>todosBySubagent\<close> (always equal to \<open>_previousTodosBySubagent\<close>) and the three id maps of the
  two todo pipelines are the one component \<open>todos\<close>. \<open>Date.now()\<close> is the reading \<open>now\<close> an action carries.
  A reducer that raises (a todo list with a hole, see \<open>Todos\<close>) yields \<open>None\<close>.
\<close>

section \<open>State\<close>

record events_state =
  events :: "event list"
  isResponding :: bool
  resultCount :: nat
  compactionCount :: nat
  isCompacting :: bool
  isResuming :: bool
  resumeRequest :: "nat option"
  isReplaying :: bool
  replayTotal :: nat
  replayDrained :: nat
  lastEventTimestamp :: "int option"
  respondingSince :: "int option"
  isCreating :: bool
  createRequest :: "nat option"
  creations_of :: creations
  isForking :: bool
  isOpeningBoard :: bool
  isOpeningWorkspace :: bool
  visibleEvents :: "event list"
  turns :: "turn list"
  turnResults :: results_map
  taskNotifications :: notifications
  todos :: todo_state
  subagentLabels :: labels
  backgroundLaunches :: launches
  runningBackgroundWork :: "launch list"
  unclaimedCompletion :: bool
  lastRestartIndex :: int
  lastSettledIndex :: int
  turnGroupingState :: turn_grouping
  backgroundBashInputs :: bash_inputs
  replayReplace :: bool

definition initialState :: events_state where
  "initialState =
     \<lparr>events = [], isResponding = False, resultCount = 0, compactionCount = 0, isCompacting = False,
      isResuming = False, resumeRequest = None, isReplaying = False, replayTotal = 0, replayDrained = 0,
      lastEventTimestamp = None, respondingSince = None, isCreating = False, createRequest = None,
      creations_of = initial_creations, isForking = False, isOpeningBoard = False,
      isOpeningWorkspace = False, visibleEvents = [], turns = [], turnResults = Map.empty,
      taskNotifications = Map.empty, todos = initial_todos, subagentLabels = Map.empty,
      backgroundLaunches = [], runningBackgroundWork = [], unclaimedCompletion = False,
      lastRestartIndex = -1, lastSettledIndex = -1, turnGroupingState = INITIAL_TURN_GROUPING_STATE,
      backgroundBashInputs = Map.empty, replayReplace = False\<rparr>"

section \<open>Flags\<close>

definition applyEventFlags :: "int \<Rightarrow> events_state \<Rightarrow> event \<Rightarrow> events_state" where
  "applyEventFlags now s e =
     (let wasResponding = isResponding s;
          responding = (if isRespondingEvent e then True
                        else if isDoneRespondingEvent e then False else wasResponding);
          eventTs = (case ts e of Some t \<Rightarrow> t | None \<Rightarrow> now)
      in s\<lparr>isResponding := responding,
           resultCount := (if wasResponding \<and> \<not> responding then resultCount s + 1 else resultCount s),
           compactionCount := (if ev_subtype e = Sub_COMPACT_BOUNDARY then compactionCount s + 1
                               else compactionCount s),
           isCompacting := (if isHumanEvent e then False
                            else if ev_subtype e = Sub_COMPACT_START then True
                            else if ev_subtype e = Sub_COMPACT_BOUNDARY then False
                            else isCompacting s),
           respondingSince := (if responding \<and> \<not> wasResponding then Some eventTs
                               else if \<not> responding then None else respondingSince s)\<rparr>)"

definition foldEventFlags :: "int \<Rightarrow> events_state \<Rightarrow> event list \<Rightarrow> events_state" where
  "foldEventFlags now s batch = foldl (applyEventFlags now) s batch"

section \<open>Derived state\<close>

definition lastIndexOf :: "event list \<Rightarrow> nat \<Rightarrow> (event \<Rightarrow> bool) \<Rightarrow> int \<Rightarrow> int" where
  "lastIndexOf batch baseIndex p previous =
     (case last_index p batch of Some i \<Rightarrow> int (baseIndex + i) | None \<Rightarrow> previous)"

text \<open>
  The code recomputes the running work only when one of its three inputs is a new value, telling by
  reference. A launch or notification stored in this batch carries a log position no earlier one has,
  so "a new reference" is "another value" for the launches, and "a notification in the batch" for the
  notifications.
\<close>

definition notificationsTouched :: "event list \<Rightarrow> bool" where
  "notificationsTouched batch \<longleftrightarrow>
     (\<exists>e \<in> set batch. isTaskNotification e \<and> truthy (jget (message_data e) ''task_id''))"

definition flushBatch :: "int \<Rightarrow> events_state \<Rightarrow> event list \<Rightarrow> events_state option" where
  "flushBatch now s batch =
     (if batch = [] then Some s
      else
        (let visibleBatch = filter isVisibleEvent batch;
             results = appendTurnResults (turnResults s) batch;
             (turns', grouping) = appendTurns (turns s) (turnGroupingState s) visibleBatch results;
             baseIndex = length (events s);
             notices = appendTaskNotifications (taskNotifications s) batch baseIndex;
             (launches', inputs') =
               appendBackgroundLaunches (backgroundLaunches s) (backgroundBashInputs s) batch baseIndex;
             labels' = appendSubagentLabels (subagentLabels s) batch;
             restart = lastIndexOf batch baseIndex isContainerRestart (lastRestartIndex s);
             settled' = lastIndexOf batch baseIndex isSettlingEvent (lastSettledIndex s)
         in map_option (\<lambda>todos'. s
              \<lparr>events := events s @ batch,
               lastEventTimestamp := Some (case timestamp (last batch) of Some t \<Rightarrow> t | None \<Rightarrow> now),
               visibleEvents := visibleEvents s @ visibleBatch,
               turns := turns', turnResults := results, taskNotifications := notices,
               todos := todos', subagentLabels := labels', backgroundLaunches := launches',
               runningBackgroundWork :=
                 (if launches' = backgroundLaunches s \<and> \<not> notificationsTouched batch
                     \<and> restart = lastRestartIndex s
                  then runningBackgroundWork s
                  else selectRunningBackgroundWork launches' notices restart),
               unclaimedCompletion := hasUnclaimedCompletion launches' notices settled' restart,
               lastRestartIndex := restart, lastSettledIndex := settled',
               turnGroupingState := grouping, backgroundBashInputs := inputs'\<rparr>)
            (flushTodos (todos s) batch)))"

section \<open>Actions\<close>

datatype action =
    REPLAY_SLICE int "event list"
  | STREAMING_FLAGS int event
  | FLUSH_BATCH int "event list"
  | RESUME_STARTED nat
  | RESUME_REQUEST_SETTLED nat
  | RESUME_CLEARED
  | CREATION creation_action
  | CREATING_ENDED
  | FORKING bool
  | OPENING_BOARD bool
  | OPENING_WORKSPACE bool
  | REPLAY_STARTED nat
  | REPLAY_ENDED
  | CLEAR_EVENTS
  | REPLAY_ABANDONED

text \<open>\<open>{ ...base, ...requestState(state) }\<close>.\<close>

definition withRequestState :: "events_state \<Rightarrow> events_state \<Rightarrow> events_state" where
  "withRequestState base s =
     base\<lparr>isCreating := isCreating s, isResuming := isResuming s, resumeRequest := resumeRequest s,
          createRequest := createRequest s, creations_of := creations_of s\<rparr>"

definition replayResetState :: "events_state \<Rightarrow> events_state" where
  "replayResetState s =
     (withRequestState initialState s)
       \<lparr>isReplaying := isReplaying s, replayTotal := replayTotal s, replayDrained := replayDrained s,
        replayReplace := False\<rparr>"

definition replayBase :: "events_state \<Rightarrow> events_state" where
  "replayBase s = (if replayReplace s then replayResetState s else s)"

fun creationRequest :: "creation_action \<Rightarrow> events_state \<Rightarrow> events_state" where
  "creationRequest (CREATING_STARTED seq r) s = s\<lparr>isCreating := True, createRequest := Some seq\<rparr>"
| "creationRequest (CREATE_REQUEST_SETTLED seq sid) s =
     s\<lparr>createRequest := (if createRequest s = Some seq then None else createRequest s)\<rparr>"
| "creationRequest (CREATING_FAILED seq) s =
     (let isCurrent = (createRequest s = Some seq)
      in s\<lparr>isCreating := (if isCurrent then False else isCreating s),
           createRequest := (if isCurrent then None else createRequest s)\<rparr>)"
| "creationRequest (CREATION_ROUTED seq) s = s"

fun eventsReducer :: "events_state \<Rightarrow> action \<Rightarrow> events_state option" where
  "eventsReducer s (REPLAY_SLICE now batch) =
     (if batch = [] then Some s
      else (let base = replayBase s
            in map_option (\<lambda>s'. s'\<lparr>replayDrained := replayDrained s + length batch\<rparr>)
                 (flushBatch now (foldEventFlags now base batch) batch)))"
| "eventsReducer s (STREAMING_FLAGS now e) = Some (applyEventFlags now s e)"
| "eventsReducer s (FLUSH_BATCH now batch) = (if batch = [] then Some s else flushBatch now s batch)"
| "eventsReducer s (RESUME_STARTED token) = Some (s\<lparr>isResuming := True, resumeRequest := Some token\<rparr>)"
| "eventsReducer s (RESUME_REQUEST_SETTLED token) =
     Some (if resumeRequest s = Some token then s\<lparr>resumeRequest := None\<rparr> else s)"
| "eventsReducer s RESUME_CLEARED = Some (s\<lparr>isResuming := False, resumeRequest := None\<rparr>)"
| "eventsReducer s (CREATION a) =
     Some ((creationRequest a s)\<lparr>creations_of := nextCreations (creations_of s) a\<rparr>)"
| "eventsReducer s CREATING_ENDED =
     Some (if createRequest s = None then s\<lparr>isCreating := False\<rparr> else s)"
| "eventsReducer s (FORKING b) = Some (s\<lparr>isForking := b\<rparr>)"
| "eventsReducer s (OPENING_BOARD b) = Some (s\<lparr>isOpeningBoard := b\<rparr>)"
| "eventsReducer s (OPENING_WORKSPACE b) = Some (s\<lparr>isOpeningWorkspace := b\<rparr>)"
| "eventsReducer s (REPLAY_STARTED n) =
     Some (s\<lparr>isReplaying := True, replayTotal := n, replayDrained := 0, replayReplace := True\<rparr>)"
| "eventsReducer s REPLAY_ENDED =
     Some ((replayBase s)\<lparr>isReplaying := False, isResuming := resumeRequest s \<noteq> None, isCompacting := False\<rparr>)"
| "eventsReducer s CLEAR_EVENTS = Some (withRequestState initialState s)"
| "eventsReducer s REPLAY_ABANDONED =
     Some (s\<lparr>isResponding := False, resultCount := 0, compactionCount := 0, isCompacting := False,
             isReplaying := False, replayTotal := 0, replayDrained := 0, lastEventTimestamp := None,
             respondingSince := None, replayReplace := True\<rparr>)"

text \<open>A sequence of actions; an action that raises stops it.\<close>

definition reduce :: "events_state \<Rightarrow> action list \<Rightarrow> events_state option" where
  "reduce s as = foldl (\<lambda>so a. Option.bind so (\<lambda>s. eventsReducer s a)) (Some s) as"

lemma reduce_Nil [simp]: "reduce s [] = Some s"
  by (simp add: reduce_def)

lemma reduce_snoc: "reduce s (as @ [a]) = Option.bind (reduce s as) (\<lambda>s. eventsReducer s a)"
  by (simp add: reduce_def)

lemma reduce_None: "foldl (\<lambda>so a. Option.bind so (\<lambda>s. eventsReducer s a)) None as = None"
  by (induction as) simp_all

lemma reduce_Cons: "reduce s (a # as) = Option.bind (eventsReducer s a) (\<lambda>s. reduce s as)"
  by (cases "eventsReducer s a") (simp_all add: reduce_def reduce_None)

lemma reduce_append: "reduce s (as @ bs) = Option.bind (reduce s as) (\<lambda>s. reduce s bs)"
proof (induction as arbitrary: s)
  case (Cons a as)
  then show ?case by (cases "eventsReducer s a") (simp_all add: reduce_Cons)
qed simp

end
