(* ===== verification/SessionFacts.thy ===== *)
theory SessionFacts
  imports EventsReducer
begin

text \<open>
  What the events reducer guarantees about every state it reaches: derived state is a function of the
  log, loading flags outlive no request, and the two ways events arrive agree.
\<close>

section \<open>Reachable states\<close>

lemma reduce_invariant:
  assumes "reduce s as = Some s'" and "P s"
    and "\<And>s a s'. P s \<Longrightarrow> eventsReducer s a = Some s' \<Longrightarrow> P s'"
  shows "P s'"
  using assms(1)
proof (induction as arbitrary: s' rule: rev_induct)
  case Nil
  with assms(2) show ?case by simp
next
  case (snoc a as)
  from snoc.prems obtain t where "reduce s as = Some t" "eventsReducer t a = Some s'"
    by (auto simp: reduce_snoc bind_eq_Some_conv)
  with snoc.IH assms(3) show ?case by blast
qed

section \<open>Flags\<close>

lemma applyEventFlags_frame [simp]:
  "events (applyEventFlags now s e) = events s"
  "replayDrained (applyEventFlags now s e) = replayDrained s"
  "replayReplace (applyEventFlags now s e) = replayReplace s"
  "isReplaying (applyEventFlags now s e) = isReplaying s"
  "todos (applyEventFlags now s e) = todos s"
  "turns (applyEventFlags now s e) = turns s"
  "turnGroupingState (applyEventFlags now s e) = turnGroupingState s"
  by (simp_all add: applyEventFlags_def Let_def)

lemma foldEventFlags_invariant:
  "(\<And>s e. P s \<Longrightarrow> P (applyEventFlags now s e)) \<Longrightarrow> P s \<Longrightarrow> P (foldEventFlags now s es)"
  unfolding foldEventFlags_def by (induction es arbitrary: s) simp_all

lemma foldEventFlags_frame [simp]:
  "events (foldEventFlags now s es) = events s"
  "replayDrained (foldEventFlags now s es) = replayDrained s"
  "replayReplace (foldEventFlags now s es) = replayReplace s"
  "isReplaying (foldEventFlags now s es) = isReplaying s"
  "todos (foldEventFlags now s es) = todos s"
  "turns (foldEventFlags now s es) = turns s"
  "turnGroupingState (foldEventFlags now s es) = turnGroupingState s"
  unfolding foldEventFlags_def by (induction es arbitrary: s) simp_all

lemma reduce_streaming:
  "reduce s (map (STREAMING_FLAGS now) es) = Some (foldEventFlags now s es)"
  by (induction es arbitrary: s) (simp_all add: reduce_Cons foldEventFlags_def)

lemma flushBatch_cases:
  assumes "flushBatch now s batch = Some s'" and "batch \<noteq> []"
  obtains todos' turns' grouping launches' inputs' where
    "flushTodos (todos s) batch = Some todos'"
    "appendTurns (turns s) (turnGroupingState s) (filter isVisibleEvent batch)
       (appendTurnResults (turnResults s) batch) = (turns', grouping)"
    "appendBackgroundLaunches (backgroundLaunches s) (backgroundBashInputs s) batch (length (events s))
       = (launches', inputs')"
    "s' = s\<lparr>events := events s @ batch,
       lastEventTimestamp := Some (case timestamp (last batch) of Some t \<Rightarrow> t | None \<Rightarrow> now),
       visibleEvents := visibleEvents s @ filter isVisibleEvent batch,
       turns := turns', turnResults := appendTurnResults (turnResults s) batch,
       taskNotifications := appendTaskNotifications (taskNotifications s) batch (length (events s)),
       todos := todos', subagentLabels := appendSubagentLabels (subagentLabels s) batch,
       backgroundLaunches := launches',
       runningBackgroundWork :=
         (if launches' = backgroundLaunches s \<and> \<not> notificationsTouched batch
             \<and> lastIndexOf batch (length (events s)) isContainerRestart (lastRestartIndex s) = lastRestartIndex s
          then runningBackgroundWork s
          else selectRunningBackgroundWork launches'
                 (appendTaskNotifications (taskNotifications s) batch (length (events s)))
                 (lastIndexOf batch (length (events s)) isContainerRestart (lastRestartIndex s))),
       unclaimedCompletion := hasUnclaimedCompletion launches'
         (appendTaskNotifications (taskNotifications s) batch (length (events s)))
         (lastIndexOf batch (length (events s)) isSettlingEvent (lastSettledIndex s))
         (lastIndexOf batch (length (events s)) isContainerRestart (lastRestartIndex s)),
       lastRestartIndex := lastIndexOf batch (length (events s)) isContainerRestart (lastRestartIndex s),
       lastSettledIndex := lastIndexOf batch (length (events s)) isSettlingEvent (lastSettledIndex s),
       turnGroupingState := grouping, backgroundBashInputs := inputs'\<rparr>"
  using assms by (auto simp: flushBatch_def Let_def split: prod.splits)

section \<open>Replaying and streaming agree\<close>

text \<open>A replayed slice is a streamed batch: committing events as one replay slice gives the very
  state of streaming them one by one and flushing them together - flags, counters, transcript and all
  derived state - and differs only in the progress counter.\<close>

theorem replay_slice_is_streamed_batch:
  assumes "\<not> replayReplace s" and "es \<noteq> []"
  shows "eventsReducer s (REPLAY_SLICE now es) =
     map_option (\<lambda>s'. s'\<lparr>replayDrained := replayDrained s + length es\<rparr>)
       (reduce s (map (STREAMING_FLAGS now) es @ [FLUSH_BATCH now es]))"
  using assms by (simp add: reduce_append reduce_streaming reduce_Cons replayBase_def)

section \<open>Requests and status\<close>

definition requests_shown :: "events_state \<Rightarrow> bool" where
  "requests_shown s \<longleftrightarrow> (createRequest s \<noteq> None \<longrightarrow> isCreating s) \<and> (resumeRequest s \<noteq> None \<longrightarrow> isResuming s)
     \<and> (respondingSince s \<noteq> None \<longleftrightarrow> isResponding s)"

definition status_part :: "events_state \<Rightarrow> nat option \<times> bool \<times> nat option \<times> bool \<times> int option \<times> bool" where
  "status_part s = (createRequest s, isCreating s, resumeRequest s, isResuming s, respondingSince s, isResponding s)"

lemma requests_shown_part: "status_part s = status_part s' \<Longrightarrow> requests_shown s = requests_shown s'"
  by (simp add: requests_shown_def status_part_def)

lemma flushBatch_status: "flushBatch now s es = Some s' \<Longrightarrow> status_part s' = status_part s"
proof (cases "es = []")
  case False
  assume "flushBatch now s es = Some s'"
  then show ?thesis using False by (rule flushBatch_cases) (simp add: status_part_def)
qed (simp add: flushBatch_def)

lemma requests_shown_flags: "requests_shown s \<Longrightarrow> requests_shown (applyEventFlags now s e)"
  by (auto simp: requests_shown_def applyEventFlags_def Let_def)

lemma requests_shown_base: "requests_shown s \<Longrightarrow> requests_shown (replayBase s)"
  by (simp add: requests_shown_def replayBase_def replayResetState_def withRequestState_def initialState_def)

lemma replayBase_request: "resumeRequest (replayBase s) = resumeRequest s"
  by (simp add: replayBase_def replayResetState_def withRequestState_def)

lemma requests_shown_step:
  assumes "requests_shown s" and "eventsReducer s a = Some s'"
  shows "requests_shown s'"
proof (cases a)
  case (REPLAY_SLICE now es)
  show ?thesis
  proof (cases "es = []")
    case True
    with assms REPLAY_SLICE show ?thesis by simp
  next
    case False
    with assms REPLAY_SLICE obtain t where t: "flushBatch now (foldEventFlags now (replayBase s) es) es = Some t"
      and s': "s' = t\<lparr>replayDrained := replayDrained s + length es\<rparr>" by auto
    have "requests_shown (foldEventFlags now (replayBase s) es)"
      using requests_shown_flags requests_shown_base [OF assms(1)] by (rule foldEventFlags_invariant)
    with requests_shown_part [OF flushBatch_status [OF t]] have "requests_shown t" by simp
    with s' show ?thesis by (simp add: requests_shown_def)
  qed
next
  case (FLUSH_BATCH now es)
  with assms have "es = [] \<and> s' = s \<or> flushBatch now s es = Some s'" by (auto split: if_splits)
  with assms(1) requests_shown_part [OF flushBatch_status] show ?thesis by auto
next
  case (STREAMING_FLAGS now e)
  with assms(2) have "s' = applyEventFlags now s e" by simp
  with requests_shown_flags [OF assms(1)] show ?thesis by simp
next
  case (CREATION b)
  with assms show ?thesis by (cases b) (auto simp: requests_shown_def Let_def)
next
  case REPLAY_ENDED
  with assms(2) have "s' = (replayBase s)\<lparr>isReplaying := False, isResuming := resumeRequest (replayBase s) \<noteq> None,
      isCompacting := False\<rparr>" by (simp add: replayBase_request)
  with requests_shown_base [OF assms(1)] show ?thesis by (simp only: requests_shown_def) simp
next
  case CLEAR_EVENTS
  with assms show ?thesis
    by (auto simp: requests_shown_def withRequestState_def initialState_def)
next
  case (RESUME_STARTED n)
  with assms show ?thesis by (auto simp: requests_shown_def split: if_splits)
next
  case (RESUME_REQUEST_SETTLED n)
  with assms show ?thesis by (auto simp: requests_shown_def split: if_splits)
next
  case RESUME_CLEARED
  with assms show ?thesis by (auto simp: requests_shown_def split: if_splits)
next
  case CREATING_ENDED
  with assms show ?thesis by (auto simp: requests_shown_def split: if_splits)
next
  case (FORKING b)
  with assms show ?thesis by (auto simp: requests_shown_def split: if_splits)
next
  case (OPENING_BOARD b)
  with assms show ?thesis by (auto simp: requests_shown_def split: if_splits)
next
  case (OPENING_WORKSPACE b)
  with assms show ?thesis by (auto simp: requests_shown_def split: if_splits)
next
  case (REPLAY_STARTED n)
  with assms show ?thesis by (auto simp: requests_shown_def split: if_splits)
next
  case REPLAY_ABANDONED
  with assms show ?thesis by (auto simp: requests_shown_def split: if_splits)
qed

text \<open>Loading never ends early: in every state the reducer reaches, a create or open request still
  in flight keeps its loading flag up - no soft end, replay end, reset or settlement of another request
  takes it down - and a response start time is held exactly while a response is running.\<close>

theorem pending_requests_stay_shown:
  assumes "reduce initialState as = Some s"
  shows "(createRequest s \<noteq> None \<longrightarrow> isCreating s) \<and> (resumeRequest s \<noteq> None \<longrightarrow> isResuming s)
    \<and> (respondingSince s \<noteq> None \<longleftrightarrow> isResponding s)"
proof -
  have "requests_shown initialState" by (simp add: requests_shown_def initialState_def)
  from reduce_invariant [where P = requests_shown, OF assms this requests_shown_step]
  show ?thesis by (simp add: requests_shown_def)
qed

section \<open>Derived state is a function of the log\<close>

text \<open>The derived state a log determines, all of it in one go.\<close>

definition launchesOf :: "event list \<Rightarrow> launches" where
  "launchesOf log = fst (appendBackgroundLaunches [] Map.empty log 0)"

definition noticesOf :: "event list \<Rightarrow> notifications" where
  "noticesOf log = appendTaskNotifications Map.empty log 0"

definition lastPosition :: "(event \<Rightarrow> bool) \<Rightarrow> event list \<Rightarrow> int" where
  "lastPosition p log = lastIndexOf log 0 p (-1)"

definition derived :: "events_state \<Rightarrow> bool" where
  "derived s \<longleftrightarrow>
     visibleEvents s = filter isVisibleEvent (events s)
     \<and> turnResults s = appendTurnResults Map.empty (events s)
     \<and> taskNotifications s = noticesOf (events s)
     \<and> appendBackgroundLaunches [] Map.empty (events s) 0 = (backgroundLaunches s, backgroundBashInputs s)
     \<and> subagentLabels s = appendSubagentLabels Map.empty (events s)
     \<and> lastRestartIndex s = lastPosition isContainerRestart (events s)
     \<and> lastSettledIndex s = lastPosition isSettlingEvent (events s)
     \<and> runningBackgroundWork s =
         selectRunningBackgroundWork (backgroundLaunches s) (taskNotifications s) (lastRestartIndex s)
     \<and> unclaimedCompletion s =
         hasUnclaimedCompletion (backgroundLaunches s) (taskNotifications s) (lastSettledIndex s)
           (lastRestartIndex s)"

text \<open>The fields that only a batch and a reset write.\<close>

definition log_part :: "events_state \<Rightarrow> (event list \<times> event list \<times> results_map \<times> notifications \<times> launches
    \<times> bash_inputs \<times> labels \<times> int \<times> int \<times> launch list \<times> bool) \<times> turn list \<times> turn_grouping \<times> todo_state" where
  "log_part s = ((events s, visibleEvents s, turnResults s, taskNotifications s, backgroundLaunches s,
     backgroundBashInputs s, subagentLabels s, lastRestartIndex s, lastSettledIndex s,
     runningBackgroundWork s, unclaimedCompletion s), turns s, turnGroupingState s, todos s)"

lemma derived_part: "log_part s = log_part s' \<Longrightarrow> derived s = derived s'"
  by (simp add: derived_def log_part_def)

lemma derived_initial: "log_part s = log_part initialState \<Longrightarrow> derived s"
  by (simp add: derived_def log_part_def initialState_def noticesOf_def appendTaskNotifications_def
      appendTurnResults_def appendBackgroundLaunches_def appendSubagentLabels_def lastPosition_def
      lastIndexOf_def selectRunningBackgroundWork_def hasUnclaimedCompletion_def)

lemma lastPosition_append:
  "lastPosition p (log @ batch) = lastIndexOf batch (length log) p (lastPosition p log)"
  by (simp add: lastPosition_def lastIndexOf_def last_index_append split: option.splits)

lemma noticesOf_append:
  "noticesOf (log @ batch) = appendTaskNotifications (noticesOf log) batch (length log)"
  by (simp add: noticesOf_def appendTaskNotifications_def enumerate_append_eq)

lemma launches_append:
  "appendBackgroundLaunches [] Map.empty log 0 = (ls, inputs) \<Longrightarrow>
     appendBackgroundLaunches [] Map.empty (log @ batch) 0 = appendBackgroundLaunches ls inputs batch (length log)"
  by (simp add: appendBackgroundLaunches_def enumerate_append_eq)

lemma notices_untouched:
  "\<not> notificationsTouched batch \<Longrightarrow> appendTaskNotifications m batch n = m"
proof (induction batch arbitrary: m n)
  case Nil
  then show ?case by (simp add: appendTaskNotifications_def)
next
  case (Cons e batch)
  then have "notificationStep m (n, e) = m" "\<not> notificationsTouched batch"
    by (auto simp: notificationStep_def notificationsTouched_def)
  with Cons.IH [of m "Suc n"] show ?case by (simp add: appendTaskNotifications_def)
qed

lemma derived_flush:
  assumes d: "derived s" and "flushBatch now s batch = Some s'" and "batch \<noteq> []"
  shows "derived s'"
  using assms(2,3)
proof (rule flushBatch_cases)
  fix todos' turns' grouping launches' inputs'
  let ?n = "length (events s)"
  let ?notices = "appendTaskNotifications (taskNotifications s) batch ?n"
  let ?restart = "lastIndexOf batch ?n isContainerRestart (lastRestartIndex s)"
  assume l: "appendBackgroundLaunches (backgroundLaunches s) (backgroundBashInputs s) batch ?n = (launches', inputs')"
  assume s': "s' = s\<lparr>events := events s @ batch,
       lastEventTimestamp := Some (case timestamp (last batch) of Some t \<Rightarrow> t | None \<Rightarrow> now),
       visibleEvents := visibleEvents s @ filter isVisibleEvent batch,
       turns := turns', turnResults := appendTurnResults (turnResults s) batch,
       taskNotifications := ?notices,
       todos := todos', subagentLabels := appendSubagentLabels (subagentLabels s) batch,
       backgroundLaunches := launches',
       runningBackgroundWork :=
         (if launches' = backgroundLaunches s \<and> \<not> notificationsTouched batch \<and> ?restart = lastRestartIndex s
          then runningBackgroundWork s
          else selectRunningBackgroundWork launches' ?notices ?restart),
       unclaimedCompletion := hasUnclaimedCompletion launches' ?notices
         (lastIndexOf batch ?n isSettlingEvent (lastSettledIndex s)) ?restart,
       lastRestartIndex := ?restart,
       lastSettledIndex := lastIndexOf batch ?n isSettlingEvent (lastSettledIndex s),
       turnGroupingState := grouping, backgroundBashInputs := inputs'\<rparr>"
  have "runningBackgroundWork s' = selectRunningBackgroundWork launches' ?notices ?restart"
    using d by (simp add: s' derived_def notices_untouched)
  moreover have "appendBackgroundLaunches [] Map.empty (events s @ batch) 0 = (launches', inputs')"
    using d l launches_append [of "events s"] by (simp add: derived_def)
  ultimately show ?thesis
    using d
    by (simp add: s' derived_def lastPosition_append noticesOf_append results.app_append labelled.app_append)
qed

lemma log_part_flags: "log_part (applyEventFlags now s e) = log_part s"
  by (simp add: log_part_def applyEventFlags_def Let_def)

text \<open>
  What a log determines is proved once for all actions: a predicate that depends on the log's part only,
  holds of the empty log and is kept by every batch holds in every reachable state.
\<close>

lemma log_step:
  assumes part: "\<And>s s'. log_part s = log_part s' \<Longrightarrow> P s \<Longrightarrow> P s'"
    and init: "P initialState"
    and flush: "\<And>now s batch s'. P s \<Longrightarrow> flushBatch now s batch = Some s' \<Longrightarrow> batch \<noteq> [] \<Longrightarrow> P s'"
    and "P s" and "eventsReducer s a = Some s'"
  shows "P s'"
proof -
  have base: "P (replayBase s)"
  proof (cases "replayReplace s")
    case True
    then have "log_part initialState = log_part (replayBase s)"
      by (simp add: replayBase_def replayResetState_def withRequestState_def log_part_def)
    then show ?thesis using init by (rule part)
  next
    case False
    then show ?thesis using assms(4) by (simp add: replayBase_def)
  qed
  have same: "log_part s = log_part s' \<Longrightarrow> P s'" by (rule part [OF _ assms(4)])
  show ?thesis
  proof (cases a)
    case (REPLAY_SLICE now es)
    show ?thesis
    proof (cases "es = []")
      case True
      with assms(4,5) REPLAY_SLICE show ?thesis by simp
    next
      case False
      with assms(4,5) REPLAY_SLICE obtain t where t: "flushBatch now (foldEventFlags now (replayBase s) es) es = Some t"
        and s': "s' = t\<lparr>replayDrained := replayDrained s + length es\<rparr>" by auto
      have "P (applyEventFlags now u e)" if "P u" for u e
        using that by (rule part [OF log_part_flags [symmetric]])
      then have "P (foldEventFlags now (replayBase s) es)" using base by (rule foldEventFlags_invariant)
      from flush [OF this t False] have "P t" .
      with part [of t s'] show ?thesis by (simp add: s' log_part_def)
    qed
  next
    case (FLUSH_BATCH now es)
    with assms(4,5) flush [OF assms(4), of now es s'] show ?thesis by (auto split: if_splits)
  next
    case (STREAMING_FLAGS now e)
    with assms(5) log_part_flags show ?thesis by (intro same) auto
  next
    case (CREATION b)
    with assms(5) show ?thesis by (intro same, cases b) (auto simp: log_part_def Let_def)
  next
    case REPLAY_ENDED
    with assms(5) part [OF _ base, of s'] show ?thesis by (auto simp: log_part_def)
  next
    case CLEAR_EVENTS
    with assms(5) part [OF _ init, of s'] show ?thesis by (auto simp: log_part_def withRequestState_def)
  qed (rule same, use assms(5) in \<open>fastforce simp: log_part_def split: if_splits\<close>)+
qed

lemma log_invariant:
  assumes "reduce initialState as = Some s"
    and "\<And>s s'. log_part s = log_part s' \<Longrightarrow> P s \<Longrightarrow> P s'"
    and "P initialState"
    and "\<And>now s batch s'. P s \<Longrightarrow> flushBatch now s batch = Some s' \<Longrightarrow> batch \<noteq> [] \<Longrightarrow> P s'"
  shows "P s"
proof (rule reduce_invariant [where P = P, OF assms(1,3)])
  fix s a s' assume "P s" "eventsReducer s a = Some s'"
  then show "P s'" by (rule log_step [rotated 3]) (fact assms)+
qed

lemma derived_reached: "reduce initialState as = Some s \<Longrightarrow> derived s"
  by (erule log_invariant [where P = derived])
     (drule derived_part, simp, simp add: derived_initial, rule derived_flush)

section \<open>The turns a log determines\<close>

definition turn_view :: "events_state \<Rightarrow> bool" where
  "turn_view s \<longleftrightarrow>
     (grounded False (filter isVisibleEvent (events s)) \<longrightarrow>
        settled (turns s) (turnGroupingState s)
        \<and> turn_content (turns s) = mset (filter placed (filter isVisibleEvent (events s)))
        \<and> ((\<exists>e \<in> set (filter isVisibleEvent (events s)). opensTurn e)
             \<longrightarrow> currentTurnIndex (turnGroupingState s) \<noteq> None))
     \<and> ((\<forall>e \<in> set (filter isVisibleEvent (events s)). \<not> compactEvent e) \<and> (\<forall>e \<in> set (events s). modern e) \<longrightarrow>
        (turns s, turnGroupingState s) = turnsOf (events s))"

lemma turn_view_flush:
  assumes view: "turn_view s" and flush: "flushBatch now s batch = Some s'" "batch \<noteq> []"
  shows "turn_view s'"
proof -
  let ?V = "filter isVisibleEvent (events s)" and ?W = "filter isVisibleEvent batch"
  let ?R = "appendTurnResults (turnResults s) batch"
  obtain turns' grouping where run: "appendTurns (turns s) (turnGroupingState s) ?W ?R = (turns', grouping)"
    by force
  from flush have s': "events s' = events s @ batch" "turns s' = turns'" "turnGroupingState s' = grouping"
    by (rule flushBatch_cases; simp add: run)+
  show ?thesis unfolding turn_view_def s'
  proof (intro conjI impI)
    assume "grounded False (filter isVisibleEvent (events s @ batch))"
    then have V: "grounded False ?V" and W: "grounded (\<exists>e \<in> set ?V. opensTurn e) ?W"
      by (simp_all add: grounded_append)
    from view V have old: "settled (turns s) (turnGroupingState s)"
      "turn_content (turns s) = mset (filter placed ?V)"
      and opened: "(\<exists>e \<in> set ?V. opensTurn e) \<longrightarrow> currentTurnIndex (turnGroupingState s) \<noteq> None"
      by (simp_all add: turn_view_def)
    from W opened have W': "grounded (currentTurnIndex (turnGroupingState s) \<noteq> None) ?W" by (rule grounded_mono)
    show "settled turns' grouping" by (rule settled_appendTurns [OF old(1) W' run])
    show "turn_content turns' = mset (filter placed (filter isVisibleEvent (events s @ batch)))"
      using appendTurns_content [OF old(1) W' run] old(2) by simp
    assume "\<exists>e \<in> set (filter isVisibleEvent (events s @ batch)). opensTurn e"
    with opened have "currentTurnIndex (turnGroupingState s) \<noteq> None \<or> (\<exists>e \<in> set ?W. opensTurn e)" by auto
    with appendTurns_current [OF old(1) W' run] show "currentTurnIndex grouping \<noteq> None" .
  next
    assume plain: "(\<forall>e \<in> set (filter isVisibleEvent (events s @ batch)). \<not> compactEvent e)
      \<and> (\<forall>e \<in> set (events s @ batch). modern e)"
    then have "\<forall>e \<in> set ?V. \<not> compactEvent e" "\<forall>e \<in> set (events s). modern e" by auto
    with view have one: "turnsOf (events s) = (turns s, turnGroupingState s)"
      by (simp add: turn_view_def)
    have pending: "run_pending (runOf (events s)) = []" by (rule runOf_plain) (use plain in auto)
    have "turnsOf (events s @ batch) = appendTurns (turns s) (turnGroupingState s) ?W ?R"
      using pending one by (rule turnsOf_append) (use plain in auto)
    with run show "(turns', grouping) = turnsOf (events s @ batch)" by simp
  qed
qed

lemma turn_view_reached: "reduce initialState as = Some s \<Longrightarrow> turn_view s"
proof (erule log_invariant [where P = turn_view])
  show "turn_view initialState"
    by (simp add: turn_view_def initialState_def settled_initial turnsOf_def appendTurns_def)
qed (simp add: turn_view_def log_part_def, rule turn_view_flush)

section \<open>The todo lists a log determines\<close>

lemma flushBatch_todos:
  assumes "flushBatch now s batch = Some s'" and "batch \<noteq> []"
  shows "flushTodos (todos s) batch = Some (todos s') \<and> events s' = events s @ batch"
  using assms by (rule flushBatch_cases) simp

definition todo_view :: "events_state \<Rightarrow> bool" where
  "todo_view s \<longleftrightarrow>
     ((\<forall>e \<in> set (events s). \<not> task_call e) \<longrightarrow>
        appendTodoDiffs initial_todos (events s) = Some (todos s) \<and> pendingCreatesMap (todos s) = Map.empty)"

lemma todo_view_flush:
  assumes view: "todo_view s" and flush: "flushBatch now s batch = Some s'" "batch \<noteq> []"
  shows "todo_view s'"
proof -
  from flushBatch_todos [OF flush] have todos: "flushTodos (todos s) batch = Some (todos s')"
    and log: "events s' = events s @ batch" by simp_all
  show ?thesis unfolding todo_view_def log
  proof (rule impI)
    assume idle: "\<forall>e \<in> set (events s @ batch). \<not> task_call e"
    with view have old: "appendTodoDiffs initial_todos (events s) = Some (todos s)"
      "pendingCreatesMap (todos s) = Map.empty" by (simp_all add: todo_view_def)
    from flushTodos_idle [OF old(2) _ todos] idle
    have "appendTodoDiffs (todos s) batch = Some (todos s')" "pendingCreatesMap (todos s') = Map.empty" by simp_all
    with old(1) show "appendTodoDiffs initial_todos (events s @ batch) = Some (todos s')
        \<and> pendingCreatesMap (todos s') = Map.empty"
      by (simp add: appendTodoDiffs_def)
  qed
qed

lemma todo_view_reached: "reduce initialState as = Some s \<Longrightarrow> todo_view s"
proof (erule log_invariant [where P = todo_view])
  show "todo_view initialState"
    by (simp add: todo_view_def initialState_def initial_todos_def appendTodoDiffs_def)
qed (simp add: todo_view_def log_part_def, rule todo_view_flush)

definition lists_last :: "string \<Rightarrow> events_state \<Rightarrow> bool" where
  "lists_last k s \<longleftrightarrow>
     ((\<forall>e \<in> set (events s). \<not> replaces_list k e \<and> \<not> ends_agent k e) \<longrightarrow> list_lasts k (todos s))"

lemma lists_last_reached: "reduce initialState as = Some s \<Longrightarrow> lists_last k s"
proof (erule log_invariant [where P = "lists_last k"])
  show "lists_last k initialState"
    by (simp add: lists_last_def list_lasts_def initialState_def initial_task_inv)
       (simp add: initial_todos_def)
next
  fix now s batch s'
  assume last: "lists_last k s" and flush: "flushBatch now s batch = Some s'" "batch \<noteq> []"
  from flushBatch_todos [OF flush] last show "lists_last k s'"
    by (auto simp: lists_last_def intro: flushTodos_lasts)
qed (simp add: lists_last_def log_part_def)

text \<open>C6. Tasks never lose their place: in every reachable state, as long as the log has no list call of
  the agent \<open>k\<close> and no result for the call that started it (there is none for \<open>main\<close>), every known task
  id and every pending creation bound to that agent's list names a position the list has, every position
  of the list holds an item and no position is a hole. Both hypotheses are needed: a list call puts a new
  list in place, and the end of an agent deletes its list while the bindings stay.\<close>

theorem task_bindings_valid:
  assumes "reduce initialState as = Some s"
    and "\<forall>e \<in> set (events s). \<not> replaces_list k e \<and> \<not> ends_agent k e"
  shows "(\<forall>t i. taskIdMap (todos s) t = Some (k, i) \<longrightarrow> i < length (list_of (todos s) k))
    \<and> (\<forall>t i. pendingCreatesMap (todos s) t = Some (k, i) \<longrightarrow> i < length (list_of (todos s) k))
    \<and> (\<forall>x \<in> set (list_of (todos s) k). \<exists>a. x = Some a \<and> a < length (heap (todos s)))"
  using lists_last_reached [OF assms(1), of k] assms(2)
  by (auto simp: lists_last_def list_lasts_def task_inv_def ran_def)

section \<open>The views together\<close>

text \<open>C3. Derived state is a materialized view: in every state the reducer reaches, by whatever mix of
  streamed batches, replay slices, resets and requests, the visible events, results, notifications,
  launches and the commands that may still become launches, labels, the two log positions, the memoized
  running work and the unclaimed completion are what a single pass over the log computes. The turns hold
  exactly the log's placed events, each once, when no compaction comes before the first message; they are
  the turns of a single pass when the log has no compaction (whose buffer is flushed at the end of each
  batch) and its interrupts say whether they stopped a turn. The todo lists and diffs are those of a
  single pass when the log has no call of the task tools; with one they are not, they depend on where the
  log was cut into batches.\<close>

theorem derived_state_is_view_of_log:
  assumes "reduce initialState as = Some s"
  shows "visibleEvents s = filter isVisibleEvent (events s)
    \<and> turnResults s = appendTurnResults Map.empty (events s)
    \<and> taskNotifications s = noticesOf (events s)
    \<and> (backgroundLaunches s, backgroundBashInputs s) = appendBackgroundLaunches [] Map.empty (events s) 0
    \<and> backgroundLaunches s = launchesOf (events s)
    \<and> subagentLabels s = appendSubagentLabels Map.empty (events s)
    \<and> lastRestartIndex s = lastPosition isContainerRestart (events s)
    \<and> lastSettledIndex s = lastPosition isSettlingEvent (events s)
    \<and> runningBackgroundWork s = selectRunningBackgroundWork (launchesOf (events s)) (noticesOf (events s))
         (lastPosition isContainerRestart (events s))
    \<and> unclaimedCompletion s = hasUnclaimedCompletion (launchesOf (events s)) (noticesOf (events s))
         (lastPosition isSettlingEvent (events s)) (lastPosition isContainerRestart (events s))
    \<and> (grounded False (filter isVisibleEvent (events s)) \<longrightarrow>
         turn_content (turns s) = mset (filter placed (filter isVisibleEvent (events s))))
    \<and> ((\<forall>e \<in> set (filter isVisibleEvent (events s)). \<not> compactEvent e) \<and> (\<forall>e \<in> set (events s). modern e) \<longrightarrow>
         (turns s, turnGroupingState s)
           = appendTurns [] INITIAL_TURN_GROUPING_STATE (filter isVisibleEvent (events s)) Map.empty)
    \<and> ((\<forall>e \<in> set (events s). \<not> task_call e) \<longrightarrow>
         appendTodoDiffs initial_todos (events s) = Some (todos s))"
proof -
  from derived_reached [OF assms] have "derived s" .
  moreover from turn_view_reached [OF assms] have "turn_view s" .
  moreover from todo_view_reached [OF assms] have "todo_view s" .
  ultimately show ?thesis
    unfolding turn_view_def todo_view_def turnsOf_def derived_def by (simp add: launchesOf_def)
qed

section \<open>Running background work\<close>

definition finishes :: "string \<Rightarrow> event \<Rightarrow> bool" where
  "finishes k e \<longleftrightarrow> isTaskNotification e \<and> k \<noteq> [] \<and> jget (message_data e) ''task_id'' = JStr k"

lemma noticesOf_snoc: "noticesOf (log @ [e]) = notificationStep (noticesOf log) (length log, e)"
  by (simp add: noticesOf_append) (simp add: appendTaskNotifications_def)

lemma notice_absent: "noticesOf log (JStr k) = None \<Longrightarrow> e \<in> set log \<Longrightarrow> \<not> finishes k e"
proof (induction log rule: rev_induct)
  case Nil
  then show ?case by simp
next
  case (snoc x log)
  then have "noticesOf log (JStr k) = None" "\<not> finishes k x"
    by (auto simp: noticesOf_snoc notificationStep_def finishes_def Let_def split: if_splits)
  with snoc show ?case by auto
qed

lemma lastPosition_bound:
  assumes "i < length log" and "p (log ! i)"
  shows "int i \<le> lastPosition p log"
proof (cases "last_index p log")
  case None
  with assms show ?thesis by (auto simp: last_index_None)
next
  case (Some k)
  with last_index_Some [OF Some] assms have "i \<le> k" by (meson leI)
  with Some show ?thesis by (simp add: lastPosition_def lastIndexOf_def)
qed

text \<open>C4. What is shown as running is alive: in every reachable state each background task listed as
  running was launched after every container restart in the log and the log holds no completion notice
  for it.\<close>

theorem running_work_is_alive:
  assumes "reduce initialState as = Some s" and "l \<in> set (runningBackgroundWork s)"
    and "i < length (events s)"
  shows "\<not> finishes (l_id l) (events s ! i)
    \<and> (isContainerRestart (events s ! i) \<longrightarrow> i < l_index l)"
proof -
  from derived_reached [OF assms(1)] assms(2) have absent: "noticesOf (events s) (JStr (l_id l)) = None"
    and after: "lastPosition isContainerRestart (events s) < int (l_index l)"
    by (auto simp: derived_def selectRunningBackgroundWork_def)
  from notice_absent [OF absent] assms(3) have "\<not> finishes (l_id l) (events s ! i)" by simp
  moreover have "int i < int (l_index l)" if "isContainerRestart (events s ! i)"
    using lastPosition_bound [of i "events s" isContainerRestart] assms(3) that after by linarith
  ultimately show ?thesis by simp
qed

section \<open>A session\<close>

text \<open>A command goes to the background, after a restart; then a second replay replaces the transcript.\<close>

definition bash_call :: "string \<Rightarrow> event" where
  "bash_call t = blank_event\<lparr>ev_subtype := Sub_TOOL_USE, content := Some BASH, tool_use_id := Some t,
     tool_input := JObj [(''command'', JStr ''make'')]\<rparr>"

definition bash_launched :: "string \<Rightarrow> string \<Rightarrow> event" where
  "bash_launched t task = blank_event\<lparr>ev_subtype := Sub_TOOL_RESULT, tool_use_id := Some t,
     tool_use_result := JObj [(''backgroundTaskId'', JStr task)]\<rparr>"

definition restarted :: event where
  "restarted = blank_event\<lparr>ev_type := Ty_SYSTEM, ev_subtype := Sub_CONTAINER_RESTARTED\<rparr>"

definition sample_actions :: "action list" where
  "sample_actions =
     [CREATION (CREATING_STARTED 1 None), STREAMING_FLAGS 5 (human_msg ''t1'' ''hi''),
      FLUSH_BATCH 5 [human_msg ''t1'' ''hi'', restarted], CREATING_ENDED,
      REPLAY_SLICE 9 [bash_call ''u1'', bash_launched ''u1'' ''b1'']]"

definition sample_session :: events_state where
  "sample_session = (case reduce initialState sample_actions of Some s \<Rightarrow> s | None \<Rightarrow> initialState)"

lemma sample_session_reached: "reduce initialState sample_actions = Some sample_session"
proof -
  have "reduce initialState sample_actions \<noteq> None" by code_simp
  then show ?thesis by (auto simp: sample_session_def)
qed

lemma pending_requests_stay_shown_witness: "isCreating sample_session"
proof -
  have "createRequest sample_session \<noteq> None" by code_simp
  with pending_requests_stay_shown [OF sample_session_reached] show ?thesis by blast
qed

lemma derived_state_is_view_of_log_witness:
  "turnResults sample_session = appendTurnResults Map.empty (events sample_session)
   \<and> length (events sample_session) = 4
   \<and> turn_content (turns sample_session)
       = mset (filter placed (filter isVisibleEvent (events sample_session)))
   \<and> turns sample_session = fst (appendTurns [] INITIAL_TURN_GROUPING_STATE
       (filter isVisibleEvent (events sample_session)) Map.empty)
   \<and> appendTodoDiffs initial_todos (events sample_session) = Some (todos sample_session)"
proof -
  have log: "grounded False (filter isVisibleEvent (events sample_session))"
    "\<forall>e \<in> set (filter isVisibleEvent (events sample_session)). \<not> compactEvent e"
    "\<forall>e \<in> set (events sample_session). \<not> task_call e" "length (events sample_session) = 4"
    by code_simp+
  have "list_all modern (events sample_session)" unfolding modern_def by code_simp
  then have "\<forall>e \<in> set (events sample_session). modern e" by (simp add: list_all_iff)
  with log derived_state_is_view_of_log [OF sample_session_reached] show ?thesis
    by (metis fst_conv)
qed

text \<open>Two tasks are created, in two batches; the first one is started.\<close>

definition task_actions :: "action list" where
  "task_actions =
     [FLUSH_BATCH 1 [task_create ''u1'' None, task_create ''u2'' None],
      FLUSH_BATCH 2 [task_created ''u1'' 7, task_update ''u3'' 7 ''in_progress'']]"

lemma task_bindings_valid_witness:
  "\<exists>s. reduce initialState task_actions = Some s \<and> taskIdMap (todos s) ''7'' = Some (''main'', 0)
     \<and> 0 < length (list_of (todos s) ''main'') \<and> None \<notin> set (list_of (todos s) ''main'')"
proof -
  have "case reduce initialState task_actions of None \<Rightarrow> False | Some s \<Rightarrow>
      taskIdMap (todos s) ''7'' = Some (''main'', 0)
      \<and> list_all (\<lambda>e. \<not> replaces_list ''main'' e \<and> \<not> ends_agent ''main'' e) (events s)"
    by code_simp
  then obtain s where s: "reduce initialState task_actions = Some s"
    and seven: "taskIdMap (todos s) ''7'' = Some (''main'', 0)"
    and log: "\<forall>e \<in> set (events s). \<not> replaces_list ''main'' e \<and> \<not> ends_agent ''main'' e"
    by (auto simp: list_all_iff split: option.splits)
  from task_bindings_valid [OF s log] s seven show ?thesis by fastforce
qed

lemma running_work_is_alive_witness:
  "\<exists>l. runningBackgroundWork sample_session = [l] \<and> 1 < l_index l"
proof -
  have run: "map l_id (runningBackgroundWork sample_session) = [''b1'']"
    and pos: "1 < length (events sample_session)" "isContainerRestart (events sample_session ! 1)"
    by code_simp+
  from run obtain l where l: "runningBackgroundWork sample_session = [l]" by auto
  then have "l \<in> set (runningBackgroundWork sample_session)" by simp
  from running_work_is_alive [OF sample_session_reached this pos(1)] pos(2) l show ?thesis by blast
qed

lemma replay_slice_is_streamed_batch_witness:
  "eventsReducer sample_session (REPLAY_SLICE 9 [restarted]) \<noteq> None
   \<and> eventsReducer sample_session (REPLAY_SLICE 9 [restarted]) =
     map_option (\<lambda>s'. s'\<lparr>replayDrained := replayDrained sample_session + length [restarted]\<rparr>)
       (reduce sample_session (map (STREAMING_FLAGS 9) [restarted] @ [FLUSH_BATCH 9 [restarted]]))"
proof
  show "eventsReducer sample_session (REPLAY_SLICE 9 [restarted]) \<noteq> None" by code_simp
  have "\<not> replayReplace sample_session" by code_simp
  then show "eventsReducer sample_session (REPLAY_SLICE 9 [restarted]) =
     map_option (\<lambda>s'. s'\<lparr>replayDrained := replayDrained sample_session + length [restarted]\<rparr>)
       (reduce sample_session (map (STREAMING_FLAGS 9) [restarted] @ [FLUSH_BATCH 9 [restarted]]))"
    by (rule replay_slice_is_streamed_batch) simp
qed

end
