(* ===== verification/EventStream.thy ===== *)
theory EventStream
  imports SessionFacts ReplaySlice
begin

text \<open>
  The stream of a session (\<open>onMessage\<close>, \<open>drainReplaySlice\<close> and the buffer handling of
  \<open>context/EventsContext.jsx\<close>): live events are flagged at once and flushed in batches, replayed events
  are queued and materialized slice by slice.

  The refs of the component are the fields of \<open>stream\<close>; a posted port message and a running timer are
  flags, and the scheduler that delivers them is the environment: any order of messages, drains and
  timeouts is a run.
\<close>

definition REPLAY_DRAIN_SLICE_SIZE :: nat where
  "REPLAY_DRAIN_SLICE_SIZE = 500"

record stream =
  st :: events_state
  eventBuffer :: "event list"
  batchTimeout :: bool
  isReplayingRef :: bool
  replayBuffer :: "event list"
  replayScheduled :: bool
  replayServerDone :: bool

definition initial_stream :: stream where
  "initial_stream = \<lparr>st = initialState, eventBuffer = [], batchTimeout = False, isReplayingRef = False,
     replayBuffer = [], replayScheduled = False, replayServerDone = False\<rparr>"

definition dispatch :: "action \<Rightarrow> stream \<Rightarrow> stream option" where
  "dispatch a s = map_option (\<lambda>t. s\<lparr>st := t\<rparr>) (eventsReducer (st s) a)"

definition isReplayStarted :: "event \<Rightarrow> bool" where
  "isReplayStarted e \<longleftrightarrow> ev_type e = Ty_SYSTEM \<and> ev_subtype e = Sub_REPLAY_STARTED"

definition isReplayEnded :: "event \<Rightarrow> bool" where
  "isReplayEnded e \<longleftrightarrow> ev_type e = Ty_SYSTEM \<and> ev_subtype e = Sub_REPLAY_ENDED"

definition stamp :: "int \<Rightarrow> event \<Rightarrow> event" where
  "stamp now e = e\<lparr>timestamp := Some now\<rparr>"

text \<open>\<open>onMessage\<close> on a parsed message; \<open>replayCount\<close> is \<open>event.count ?? 0\<close> of a replay's start.\<close>

definition onMessage :: "int \<Rightarrow> nat \<Rightarrow> event \<Rightarrow> stream \<Rightarrow> stream option" where
  "onMessage now replayCount e0 s =
     (let e = stamp now e0
      in if isReplayStarted e then
           dispatch (REPLAY_STARTED replayCount)
             (s\<lparr>isReplayingRef := True, replayServerDone := False, replayBuffer := []\<rparr>)
         else if isReplayEnded e then
           Some (s\<lparr>replayServerDone := True, replayBuffer := replayBuffer s @ eventBuffer s,
                   eventBuffer := [], replayScheduled := True\<rparr>)
         else if isReplayingRef s then
           Some (s\<lparr>replayBuffer := replayBuffer s @ [e], replayScheduled := True\<rparr>)
         else Option.bind (dispatch (STREAMING_FLAGS now e) s) (\<lambda>s.
           if isDoneRespondingEvent e then
             dispatch (FLUSH_BATCH now (eventBuffer s @ [e])) (s\<lparr>eventBuffer := [], batchTimeout := False\<rparr>)
           else Some (s\<lparr>eventBuffer := eventBuffer s @ [e], batchTimeout := True\<rparr>)))"

definition batchTimerFires :: "int \<Rightarrow> stream \<Rightarrow> stream option" where
  "batchTimerFires now s =
     dispatch (FLUSH_BATCH now (eventBuffer s)) (s\<lparr>batchTimeout := False, eventBuffer := []\<rparr>)"

definition drainReplaySlice :: "int \<Rightarrow> stream \<Rightarrow> stream option" where
  "drainReplaySlice now s0 =
     (let s = s0\<lparr>replayScheduled := False\<rparr>;
          n = replaySliceEnd (replayBuffer s) REPLAY_DRAIN_SLICE_SIZE (replayServerDone s)
      in if n = 0 \<and> replayBuffer s \<noteq> [] then Some s
         else Option.bind
           (if n > 0 then dispatch (REPLAY_SLICE now (take n (replayBuffer s)))
                            (s\<lparr>replayBuffer := drop n (replayBuffer s)\<rparr>)
            else Some s)
           (\<lambda>s. if replayBuffer s \<noteq> [] then Some (s\<lparr>replayScheduled := True\<rparr>)
                else if \<not> replayServerDone s then Some s
                else dispatch REPLAY_ENDED (s\<lparr>isReplayingRef := False\<rparr>)))"

definition resetEventBuffers :: "stream \<Rightarrow> stream" where
  "resetEventBuffers s =
     s\<lparr>isReplayingRef := False, replayServerDone := False, replayBuffer := [], eventBuffer := [],
       replayScheduled := False, batchTimeout := False\<rparr>"

text \<open>The transcript side of the three connection calls; the connection itself is \<open>SSE\<close>.\<close>

definition disconnectSSE :: "stream \<Rightarrow> stream option" where
  "disconnectSSE s = map_option resetEventBuffers (dispatch CLEAR_EVENTS s)"

definition reconnectSSE :: "stream \<Rightarrow> stream option" where
  "reconnectSSE s = map_option resetEventBuffers (dispatch REPLAY_ABANDONED s)"

definition closeSSE :: "stream \<Rightarrow> stream option" where
  "closeSSE s = map_option resetEventBuffers (dispatch CLEAR_EVENTS s)"

section \<open>A connection\<close>

text \<open>
  \<open>conn log n s\<close>: on a connection whose server sent its replay start and since then the events \<open>log\<close>,
  \<open>s\<close> is a state the stream can be in, \<open>n\<close> of the events having come after the replay was drained. The
  server sends one replay per connection. Drains and timeouts may fire at any time.
\<close>

inductive conn :: "event list \<Rightarrow> nat \<Rightarrow> stream \<Rightarrow> bool" where
  started: "eventBuffer s = [] \<Longrightarrow> isReplayStarted e \<Longrightarrow> onMessage now c e s = Some s' \<Longrightarrow> conn [] 0 s'"
| event: "conn log n s \<Longrightarrow> \<not> isReplayStarted e \<Longrightarrow> \<not> isReplayEnded e \<Longrightarrow> onMessage now c e s = Some s' \<Longrightarrow>
    n' = (if isReplayingRef s then n else Suc n) \<Longrightarrow> conn (log @ [stamp now e]) n' s'"
| ended: "conn log n s \<Longrightarrow> \<not> replayServerDone s \<Longrightarrow> isReplayEnded e \<Longrightarrow> onMessage now c e s = Some s' \<Longrightarrow>
    conn log n s'"
| drain: "conn log n s \<Longrightarrow> drainReplaySlice now s = Some s' \<Longrightarrow> conn log n s'"
| timeout: "conn log n s \<Longrightarrow> batchTimerFires now s = Some s' \<Longrightarrow> conn log n s'"

text \<open>The transcript as it will be once everything buffered has been materialized.\<close>

definition view :: "stream \<Rightarrow> event list" where
  "view s = (if replayReplace (st s) then [] else events (st s)) @ replayBuffer s @ eventBuffer s"

definition stream_inv :: "stream \<Rightarrow> bool" where
  "stream_inv s \<longleftrightarrow>
     (if isReplayingRef s then eventBuffer s = []
      else replayBuffer s = [] \<and> \<not> replayReplace (st s) \<and> replayServerDone s)"

lemma flushBatch_log:
  "flushBatch now s es = Some s' \<Longrightarrow> events s' = events s @ es \<and> replayReplace s' = replayReplace s"
  by (cases "es = []") (simp add: flushBatch_def, erule flushBatch_cases, assumption, simp)

lemma replayBase_log:
  "events (replayBase s) = (if replayReplace s then [] else events s)" "\<not> replayReplace (replayBase s)"
  by (simp_all add: replayBase_def replayResetState_def withRequestState_def initialState_def)

text \<open>What the actions the stream dispatches do to the log.\<close>

lemma slice_log:
  assumes "eventsReducer s (REPLAY_SLICE now es) = Some s'" and "es \<noteq> []"
  shows "events s' = events (replayBase s) @ es" and "\<not> replayReplace s'"
  using assms flushBatch_log [of now "foldEventFlags now (replayBase s) es" es] replayBase_log(2) [of s]
  by auto

lemma flush_log:
  assumes "eventsReducer s (FLUSH_BATCH now es) = Some s'"
  shows "events s' = events s @ es" and "replayReplace s' = replayReplace s"
  using assms flushBatch_log [of now s es s'] by (auto split: if_splits)

lemma dispatch_Some: "dispatch a s = Some s' \<longleftrightarrow> (\<exists>t. eventsReducer (st s) a = Some t \<and> s' = s\<lparr>st := t\<rparr>)"
  by (auto simp: dispatch_def)

lemma dispatch_flags: "dispatch (STREAMING_FLAGS now e) s = Some (s\<lparr>st := applyEventFlags now (st s) e\<rparr>)"
  by (simp add: dispatch_def)

lemma stamp_markers [simp]:
  "isReplayStarted (stamp now e) = isReplayStarted e" "isReplayEnded (stamp now e) = isReplayEnded e"
  by (simp_all add: isReplayStarted_def isReplayEnded_def stamp_def)

section \<open>Steps\<close>

lemma view_event:
  assumes "onMessage now c e s = Some s'" and "\<not> isReplayStarted e" and "\<not> isReplayEnded e" and "stream_inv s"
  shows "view s' = view s @ [stamp now e] \<and> stream_inv s'"
proof (cases "isReplayingRef s")
  case True
  with assms show ?thesis by (auto simp: onMessage_def view_def stream_inv_def Let_def)
next
  case False
  let ?e = "stamp now e" and ?t = "applyEventFlags now (st s) (stamp now e)"
  note inv = assms(4) [unfolded stream_inv_def]
  show ?thesis
  proof (cases "isDoneRespondingEvent ?e")
    case True
    with assms(1-3) False obtain u where
      u: "eventsReducer ?t (FLUSH_BATCH now (eventBuffer s @ [?e])) = Some u"
      and s': "s' = s\<lparr>st := u, eventBuffer := [], batchTimeout := False\<rparr>"
      by (auto simp: onMessage_def dispatch_flags Let_def dispatch_Some simp del: eventsReducer.simps)
    from flush_log [OF u] inv False show ?thesis by (simp add: s' view_def stream_inv_def)
  next
    case not_done: False
    with assms(1-3) False have "s' = s\<lparr>st := ?t, eventBuffer := eventBuffer s @ [?e], batchTimeout := True\<rparr>"
      by (simp add: onMessage_def dispatch_def Let_def)
    with inv False show ?thesis by (simp add: view_def stream_inv_def)
  qed
qed

lemma view_timeout:
  assumes "batchTimerFires now s = Some s'" and "stream_inv s"
  shows "view s' = view s \<and> stream_inv s'"
proof -
  from assms(1) obtain u where u: "eventsReducer (st s) (FLUSH_BATCH now (eventBuffer s)) = Some u"
    and s': "s' = s\<lparr>st := u, batchTimeout := False, eventBuffer := []\<rparr>"
    by (auto simp: batchTimerFires_def dispatch_Some simp del: eventsReducer.simps)
  from flush_log [OF u] assms(2) show ?thesis
    by (auto simp: s' view_def stream_inv_def split: if_splits)
qed

lemma view_ended:
  assumes "onMessage now c e s = Some s'" and "isReplayEnded e" and "\<not> replayServerDone s" and "stream_inv s"
  shows "view s' = view s \<and> stream_inv s' \<and> replayServerDone s'"
proof -
  have "\<not> isReplayStarted e" using assms(2) by (auto simp: isReplayStarted_def isReplayEnded_def)
  with assms show ?thesis
    by (auto simp: onMessage_def view_def stream_inv_def Let_def split: if_splits)
qed

text \<open>The three things a drain can do.\<close>

lemma drain_eq:
  assumes "n = replaySliceEnd (replayBuffer s) REPLAY_DRAIN_SLICE_SIZE (replayServerDone s)"
  shows "drainReplaySlice now s =
     (if n = 0 \<and> replayBuffer s \<noteq> [] then Some (s\<lparr>replayScheduled := False\<rparr>)
      else Option.bind
        (if n > 0 then dispatch (REPLAY_SLICE now (take n (replayBuffer s)))
                         (s\<lparr>replayScheduled := False, replayBuffer := drop n (replayBuffer s)\<rparr>)
         else Some (s\<lparr>replayScheduled := False\<rparr>))
        (\<lambda>s. if replayBuffer s \<noteq> [] then Some (s\<lparr>replayScheduled := True\<rparr>)
             else if \<not> replayServerDone s then Some s
             else dispatch REPLAY_ENDED (s\<lparr>isReplayingRef := False\<rparr>)))"
  unfolding assms by (simp add: drainReplaySlice_def Let_def)

lemma drain_cases:
  assumes "drainReplaySlice now s = Some s'"
  obtains (idle) "s' = s\<lparr>replayScheduled := False\<rparr>" "replayBuffer s \<noteq> [] \<or> \<not> replayServerDone s"
      "replaySliceEnd (replayBuffer s) REPLAY_DRAIN_SLICE_SIZE (replayServerDone s) = 0"
  | (slice) t n where "n = replaySliceEnd (replayBuffer s) REPLAY_DRAIN_SLICE_SIZE (replayServerDone s)" "0 < n"
      "eventsReducer (st s) (REPLAY_SLICE now (take n (replayBuffer s))) = Some t"
      "drop n (replayBuffer s) \<noteq> [] \<or> \<not> replayServerDone s"
      "s' = s\<lparr>st := t, replayBuffer := drop n (replayBuffer s),
              replayScheduled := drop n (replayBuffer s) \<noteq> []\<rparr>"
  | (last) t n where "n = replaySliceEnd (replayBuffer s) REPLAY_DRAIN_SLICE_SIZE (replayServerDone s)" "0 < n"
      "eventsReducer (st s) (REPLAY_SLICE now (take n (replayBuffer s))) = Some t"
      "drop n (replayBuffer s) = []" "replayServerDone s"
      "s' = s\<lparr>st := (replayBase t)\<lparr>isReplaying := False, isResuming := resumeRequest t \<noteq> None,
                isCompacting := False\<rparr>, replayBuffer := [], replayScheduled := False, isReplayingRef := False\<rparr>"
  | (empty) "replayBuffer s = []" "replayServerDone s"
      "s' = s\<lparr>st := (replayBase (st s))\<lparr>isReplaying := False, isResuming := resumeRequest (st s) \<noteq> None,
                isCompacting := False\<rparr>, replayScheduled := False, isReplayingRef := False\<rparr>"
proof -
  define n where "n = replaySliceEnd (replayBuffer s) REPLAY_DRAIN_SLICE_SIZE (replayServerDone s)"
  note step = assms [unfolded drain_eq [OF n_def]]
  show thesis
  proof (cases "n = 0")
    case True
    show ?thesis
    proof (cases "replayBuffer s = [] \<and> replayServerDone s")
      case True
      with \<open>n = 0\<close> step show ?thesis by (intro empty) (auto simp: dispatch_def)
    next
      case False
      with True step show ?thesis by (intro idle) (auto simp: n_def [symmetric] split: if_splits)
    qed
  next
    case False
    with step obtain t where t: "eventsReducer (st s) (REPLAY_SLICE now (take n (replayBuffer s))) = Some t"
      by (auto simp: dispatch_def bind_eq_Some_conv simp del: eventsReducer.simps)
    then have d: "dispatch (REPLAY_SLICE now (take n (replayBuffer s)))
        (s\<lparr>replayScheduled := False, replayBuffer := drop n (replayBuffer s)\<rparr>)
      = Some (s\<lparr>st := t, replayScheduled := False, replayBuffer := drop n (replayBuffer s)\<rparr>)"
      by (simp add: dispatch_def del: eventsReducer.simps)
    show ?thesis
    proof (cases "drop n (replayBuffer s) = [] \<and> replayServerDone s")
      case True
      with False step d show ?thesis by (intro last [OF n_def _ t]) (auto simp: dispatch_def)
    next
      case more: False
      with False step d show ?thesis by (intro slice [OF n_def _ t]) (auto split: if_splits)
    qed
  qed
qed

lemma slice_taken:
  "n = replaySliceEnd buffer m d \<Longrightarrow> 0 < n \<Longrightarrow> take n buffer \<noteq> [] \<and> n \<le> length buffer"
  using replaySliceEnd_le [of buffer m d] by (cases buffer) auto

lemma view_drain:
  assumes "drainReplaySlice now s = Some s'" and inv: "stream_inv s"
  shows "view s' = view s \<and> stream_inv s'"
  using assms(1)
proof (cases rule: drain_cases)
  case idle
  with inv show ?thesis by (simp add: view_def stream_inv_def)
next
  case (slice t n)
  note tk = slice_taken [OF slice(1,2)]
  then have "replayBuffer s \<noteq> []" by auto
  with inv have "isReplayingRef s" "eventBuffer s = []" by (auto simp: stream_inv_def split: if_splits)
  with slice_log [OF slice(3)] tk show ?thesis
    by (simp add: slice(5) view_def stream_inv_def replayBase_log)
next
  case (last t n)
  note tk = slice_taken [OF last(1,2)]
  then have "replayBuffer s \<noteq> []" by auto
  with inv have "eventBuffer s = []" by (auto simp: stream_inv_def split: if_splits)
  moreover have "take n (replayBuffer s) = replayBuffer s" using last(4) by simp
  ultimately show ?thesis
    using slice_log [OF last(3)] tk last(5)
    by (simp add: last(6) view_def stream_inv_def replayBase_log)
next
  case empty
  with inv show ?thesis
    by (auto simp: view_def stream_inv_def replayBase_log split: if_splits)
qed

lemma view_started:
  assumes "eventBuffer s = []" and "isReplayStarted e" and "onMessage now c e s = Some s'"
  shows "view s' = [] \<and> stream_inv s' \<and> isReplayingRef s' \<and> replayReplace (st s')"
  using assms by (auto simp: onMessage_def dispatch_def view_def stream_inv_def Let_def)

lemma conn_view: "conn log n s \<Longrightarrow> view s = log \<and> stream_inv s"
proof (induction rule: conn.induct)
  case (started s e now c s')
  then show ?case using view_started by blast
next
  case (event log n s e now c s' n')
  then show ?case using view_event by blast
next
  case (ended log n s e now c s')
  then show ?case using view_ended by blast
next
  case (drain log n s now s')
  then show ?case using view_drain by blast
next
  case (timeout log n s now s')
  then show ?case using view_timeout by blast
qed

text \<open>C9. No event is lost, duplicated or reordered on its way to the transcript: however messages, drains
  and timers interleave, the events of a connection so far are the transcript (empty while a replay is
  still to replace it) followed by the replay queue and the streaming buffer - so that once both are
  empty the transcript is exactly what the server sent, the new replay having replaced the old one.\<close>

theorem stream_delivers_in_order:
  assumes "conn log n s"
  shows "(if replayReplace (st s) then [] else events (st s)) @ replayBuffer s @ eventBuffer s = log
    \<and> (isReplayingRef s \<longrightarrow> eventBuffer s = [])
    \<and> (\<not> isReplayingRef s \<longrightarrow> replayBuffer s = [] \<and> events (st s) @ eventBuffer s = log)"
  using conn_view [OF assms] by (auto simp: view_def stream_inv_def split: if_splits)

section \<open>The replay ends\<close>

text \<open>Draining again and again, as the port messages do; \<open>now\<close> may advance between the drains.\<close>

fun drains :: "int list \<Rightarrow> stream \<Rightarrow> stream option" where
  "drains [] s = Some s"
| "drains (now # nows) s = Option.bind (drainReplaySlice now s) (drains nows)"

lemma drain_progress:
  assumes "drainReplaySlice now s = Some s'" and "replayServerDone s" and "stream_inv s"
  shows "replayServerDone s' \<and> stream_inv s'
    \<and> (isReplayingRef s' \<longrightarrow> isReplayingRef s \<and> length (replayBuffer s') < length (replayBuffer s))"
  using assms(1)
proof (cases rule: drain_cases)
  case idle
  with assms(2) have "replayBuffer s \<noteq> []" by simp
  from replaySliceEnd_progress [OF this, of REPLAY_DRAIN_SLICE_SIZE] idle(3) assms(2)
  show ?thesis by (simp add: REPLAY_DRAIN_SLICE_SIZE_def)
next
  case (slice t n)
  with view_drain [OF assms(1,3)] slice_taken [OF slice(1,2)] assms(2) show ?thesis
    by (cases "replayBuffer s") auto
next
  case (last t n)
  with view_drain [OF assms(1,3)] assms(2) show ?thesis by simp
next
  case empty
  with view_drain [OF assms(1,3)] assms(2) show ?thesis by simp
qed

lemma drains_end:
  assumes "drains ns u = Some u'" and "stream_inv u" and "replayServerDone u"
    and "isReplayingRef u \<longrightarrow> length ns > length (replayBuffer u)"
  shows "\<not> isReplayingRef u' \<and> view u' = view u \<and> stream_inv u'"
  using assms
proof (induction ns arbitrary: u)
  case Nil
  then show ?case by auto
next
  case (Cons now ns)
  then obtain v where v: "drainReplaySlice now u = Some v" "drains ns v = Some u'"
    by (auto simp: bind_eq_Some_conv)
  note step = drain_progress [OF v(1) Cons.prems(3,2)] view_drain [OF v(1) Cons.prems(2)]
  then have "isReplayingRef v \<longrightarrow> length ns > length (replayBuffer v)"
    using Cons.prems(4) by auto
  with step Cons.IH [OF v(2)] show ?case by simp
qed

text \<open>C10. A replay ends: once the server is done, one drain more than there are queued events is enough to
  empty the queue and leave the replaying state - the drain cannot idle or spin.\<close>

theorem replay_drain_terminates:
  assumes "conn log n s" and "replayServerDone s" and "length nows > length (replayBuffer s)"
    and "drains nows s = Some s'"
  shows "\<not> isReplayingRef s' \<and> replayBuffer s' = [] \<and> events (st s') @ eventBuffer s' = log"
proof -
  have "\<not> isReplayingRef s' \<and> view s' = log \<and> stream_inv s'"
    using drains_end [OF assms(4)] conn_view [OF assms(1)] assms(2,3) by simp
  then show ?thesis by (auto simp: view_def stream_inv_def split: if_splits)
qed

section \<open>A replay rebuilds the turns\<close>

definition wellformed_log :: "event list \<Rightarrow> bool" where
  "wellformed_log log \<longleftrightarrow> grounded False (filter isVisibleEvent log) \<and> closers_plain log
     \<and> (\<forall>e \<in> set log. modern e)"

text \<open>The turns a state holds are those of its log, and while the replay goes on no compaction is pending.\<close>

definition grouped :: "stream \<Rightarrow> bool" where
  "grouped s \<longleftrightarrow>
     (let b = replayBase (st s)
      in (turns b, turnGroupingState b) = turnsOf (events b)
         \<and> (isReplayingRef s \<longrightarrow> run_pending (runOf (events b)) = []))"

lemma wellformed_append:
  "wellformed_log (xs @ ys) \<Longrightarrow> wellformed_log xs
     \<and> grounded (run_current (runOf xs) \<noteq> None) (filter isVisibleEvent ys) \<and> closers_plain ys
     \<and> (\<forall>e \<in> set ys. modern e) \<and> run_inv (runOf xs)"
proof -
  assume wf: "wellformed_log (xs @ ys)"
  have init: "run_inv (startRun [] INITIAL_TURN_GROUPING_STATE)"
    and none: "run_current (startRun [] INITIAL_TURN_GROUPING_STATE) = None"
    by (simp_all add: startRun_def INITIAL_TURN_GROUPING_STATE_def run_inv_def current_valid_def)
  from wf have gx: "grounded False (filter isVisibleEvent xs)"
    and gy: "grounded (\<exists>e \<in> set (filter isVisibleEvent xs). opensTurn e) (filter isVisibleEvent ys)"
    by (auto simp: wellformed_log_def grounded_append)
  from run_inv_foldl [OF init, of "filter isVisibleEvent xs" Map.empty] gx none
  have run: "run_inv (runOf xs)"
    and cur: "(\<exists>e \<in> set (filter isVisibleEvent xs). opensTurn e) \<longrightarrow> run_current (runOf xs) \<noteq> None"
    by (auto simp: runOf_def)
  have "grounded (run_current (runOf xs) \<noteq> None) (filter isVisibleEvent ys)"
    using gy cur by (rule grounded_mono)
  with wf run gx show ?thesis
    by (auto simp: wellformed_log_def closers_plain_def)
qed

lemma slice_turns:
  assumes "eventsReducer u (REPLAY_SLICE now es) = Some u'" and "es \<noteq> []"
  shows "(turns u', turnGroupingState u')
     = appendTurns (turns (replayBase u)) (turnGroupingState (replayBase u)) (filter isVisibleEvent es)
         (appendTurnResults (turnResults (foldEventFlags now (replayBase u) es)) es)"
proof -
  from assms obtain v where v: "flushBatch now (foldEventFlags now (replayBase u) es) es = Some v"
    and u': "u' = v\<lparr>replayDrained := replayDrained u + length es\<rparr>" by auto
  from v assms(2) show ?thesis
    by (rule flushBatch_cases) (simp add: u')
qed

lemma grouped_slice:
  assumes g: "grouped s" and inv: "stream_inv s" and wf: "wellformed_log (view s)"
    and n: "n = replaySliceEnd (replayBuffer s) REPLAY_DRAIN_SLICE_SIZE (replayServerDone s)" "0 < n"
    and step: "eventsReducer (st s) (REPLAY_SLICE now (take n (replayBuffer s))) = Some t"
  shows "(turns t, turnGroupingState t) = turnsOf (events t)
    \<and> (drop n (replayBuffer s) \<noteq> [] \<or> \<not> replayServerDone s \<longrightarrow> run_pending (runOf (events t)) = [])"
proof -
  let ?b = "replayBase (st s)" and ?es = "take n (replayBuffer s)"
  note tk = slice_taken [OF n]
  then have "replayBuffer s \<noteq> []" by auto
  with inv have live: "isReplayingRef s" by (auto simp: stream_inv_def split: if_splits)
  have view: "view s = events ?b @ replayBuffer s @ eventBuffer s"
    by (simp add: view_def replayBase_log)
  from g live have TS: "turnsOf (events ?b) = (turns ?b, turnGroupingState ?b)"
    and pend: "run_pending (runOf (events ?b)) = []"
    by (simp_all add: grouped_def Let_def)
  from wf view have "wellformed_log ((events ?b @ replayBuffer s) @ eventBuffer s)" by simp
  from wellformed_append [OF this] have wf': "wellformed_log (events ?b @ replayBuffer s)" by blast
  note parts = wellformed_append [OF wf']
  have mod: "\<forall>e \<in> set ?es. modern e" using parts by (meson in_set_takeD)
  have ev: "events t = events ?b @ ?es" using slice_log [OF step] tk by simp
  have "(turns t, turnGroupingState t) = turnsOf (events t)"
    using slice_turns [OF step] tk turnsOf_append [OF pend TS mod] by (simp add: ev)
  moreover have "run_pending (runOf (events t)) = []"
    if "drop n (replayBuffer s) \<noteq> [] \<or> \<not> replayServerDone s"
  proof -
    have "n < length (replayBuffer s) \<or> \<not> replayServerDone s" using that by auto
    from replay_cut_closed [OF _ pend _ _ n(1) [symmetric] this] parts
    show ?thesis by (simp add: ev runOf_append)
  qed
  ultimately show ?thesis by blast
qed

lemma replayBase_unarmed: "\<not> replayReplace u \<Longrightarrow> replayBase u = u"
  by (simp add: replayBase_def)

lemma grouped_drain:
  assumes "grouped s" and "stream_inv s" and "wellformed_log (view s)" and step: "drainReplaySlice now s = Some s'"
  shows "grouped s'"
  using step
proof (cases rule: drain_cases)
  case idle
  with assms(1) show ?thesis by (simp add: grouped_def)
next
  case (slice t n)
  from slice_log(2) [OF slice(3)] slice_taken [OF slice(1,2)] have "replayBase t = t"
    by (simp add: replayBase_unarmed)
  with grouped_slice [OF assms(1-3) slice(1-3)] slice(4) show ?thesis
    by (simp add: slice(5) grouped_def)
next
  case (last t n)
  from slice_log(2) [OF last(3)] slice_taken [OF last(1,2)] have "\<not> replayReplace t" by simp
  with grouped_slice [OF assms(1-3) last(1-3)] show ?thesis
    by (simp add: last(6) grouped_def replayBase_unarmed)
next
  case empty
  with assms(1) show ?thesis
    by (simp add: grouped_def replayBase_unarmed [OF replayBase_log(2)] replayBase_log(2) replayBase_unarmed Let_def)
qed

lemma drain_keeps_buffer: "drainReplaySlice now s = Some s' \<Longrightarrow> eventBuffer s' = eventBuffer s"
  by (erule drain_cases) simp_all

lemma grouped_started:
  assumes "isReplayStarted e" and "onMessage now c e s = Some s'"
  shows "grouped s' \<and> eventBuffer s' = eventBuffer s"
proof -
  from assms have "replayReplace (st s')" "eventBuffer s' = eventBuffer s"
    by (auto simp: onMessage_def dispatch_def Let_def)
  then show ?thesis
    by (simp add: grouped_def replayBase_def replayResetState_def withRequestState_def initialState_def
        turnsOf_def appendTurns_def runOf_def startRun_def INITIAL_TURN_GROUPING_STATE_def Let_def)
qed

lemma conn_grouped:
  assumes "conn log n s" and "n = 0" and "wellformed_log log"
  shows "grouped s \<and> eventBuffer s = []"
  using assms
proof (induction rule: conn.induct)
  case (started s e now c s')
  then show ?case using grouped_started [of e now c s s'] by simp
next
  case (event log n s e now c s' n')
  then have live: "isReplayingRef s" "n = 0" by (auto split: if_splits)
  have "wellformed_log log" using event.prems wellformed_append by blast
  with event live have "grouped s" "eventBuffer s = []" by auto
  with event(2-4) live(1) show ?case by (auto simp: onMessage_def grouped_def Let_def)
next
  case (ended log n s e now c s')
  then have "grouped s" "\<not> isReplayStarted e"
    by (auto simp: isReplayStarted_def isReplayEnded_def)
  with ended(3,4) show ?case by (auto simp: onMessage_def grouped_def Let_def)
next
  case (drain log n s now s')
  then have g: "grouped s" "eventBuffer s = []" by auto
  from conn_view [OF drain(1)] drain.prems have "stream_inv s" "wellformed_log (view s)" by auto
  with g drain(2) grouped_drain drain_keeps_buffer show ?case by metis
next
  case (timeout log n s now s')
  then have "grouped s" "eventBuffer s = []" by auto
  with timeout(2) show ?case by (auto simp: batchTimerFires_def dispatch_def grouped_def)
qed

text \<open>C11. A replay rebuilds the conversation: when the replay of a well-formed log has been drained,
  however its events arrived and wherever the slices were cut, the turns on screen and the grouping state
  are those of grouping the whole log at once.\<close>

theorem replay_rebuilds_turns:
  assumes "conn log 0 s" and "\<not> isReplayingRef s" and "wellformed_log log"
  shows "(turns (st s), turnGroupingState (st s)) =
     appendTurns [] INITIAL_TURN_GROUPING_STATE (filter isVisibleEvent log) Map.empty"
proof -
  from conn_grouped [OF assms(1) refl assms(3)] have "grouped s" "eventBuffer s = []" by auto
  moreover from conn_view [OF assms(1)] assms(2) calculation(2)
  have "events (st s) = log" "\<not> replayReplace (st s)"
    by (auto simp: view_def stream_inv_def split: if_splits)
  ultimately show ?thesis by (simp add: grouped_def replayBase_unarmed turnsOf_def Let_def)
qed

section \<open>A replay, played\<close>

definition replay_started :: event where
  "replay_started = blank_event\<lparr>ev_type := Ty_SYSTEM, ev_subtype := Sub_REPLAY_STARTED\<rparr>"

definition replay_ended :: event where
  "replay_ended = blank_event\<lparr>ev_type := Ty_SYSTEM, ev_subtype := Sub_REPLAY_ENDED\<rparr>"

text \<open>Two events, the end of the replay, a drain; \<open>step_to\<close> runs a step that is known to return.\<close>

definition step_to :: "stream option \<Rightarrow> stream" where
  "step_to so = (case so of Some s \<Rightarrow> s | None \<Rightarrow> initial_stream)"

definition played :: "nat \<Rightarrow> stream" where
  "played k =
     (let s0 = step_to (onMessage 1 2 replay_started initial_stream);
          s1 = step_to (onMessage 2 0 (human_msg ''t1'' ''hi'') s0);
          s2 = step_to (onMessage 3 0 (assistant_msg ''t1'' ''hello'') s1);
          s3 = step_to (onMessage 4 0 replay_ended s2);
          s4 = step_to (drainReplaySlice 5 s3)
      in [s0, s1, s2, s3, s4] ! k)"

definition played_log :: "event list" where
  "played_log = [stamp 2 (human_msg ''t1'' ''hi''), stamp 3 (assistant_msg ''t1'' ''hello'')]"

lemma step_to_Some: "so \<noteq> None \<Longrightarrow> so = Some (step_to so)"
  by (auto simp: step_to_def)

lemma played_steps:
  "onMessage 1 2 replay_started initial_stream = Some (played 0)"
  "onMessage 2 0 (human_msg ''t1'' ''hi'') (played 0) = Some (played 1)"
  "onMessage 3 0 (assistant_msg ''t1'' ''hello'') (played 1) = Some (played 2)"
  "onMessage 4 0 replay_ended (played 2) = Some (played 3)"
  "drainReplaySlice 5 (played 3) = Some (played 4)"
proof -
  have "onMessage 1 2 replay_started initial_stream \<noteq> None"
    "onMessage 2 0 (human_msg ''t1'' ''hi'') (played 0) \<noteq> None"
    "onMessage 3 0 (assistant_msg ''t1'' ''hello'') (played 1) \<noteq> None"
    "onMessage 4 0 replay_ended (played 2) \<noteq> None"
    "drainReplaySlice 5 (played 3) \<noteq> None"
    by code_simp+
  from this [THEN step_to_Some] show
    "onMessage 1 2 replay_started initial_stream = Some (played 0)"
    "onMessage 2 0 (human_msg ''t1'' ''hi'') (played 0) = Some (played 1)"
    "onMessage 3 0 (assistant_msg ''t1'' ''hello'') (played 1) = Some (played 2)"
    "onMessage 4 0 replay_ended (played 2) = Some (played 3)"
    "drainReplaySlice 5 (played 3) = Some (played 4)"
    by (simp_all add: played_def Let_def eval_nat_numeral)
qed

lemma played_conn: "conn played_log 0 (played 3) \<and> conn played_log 0 (played 4)"
proof -
  have marks: "isReplayStarted replay_started" "isReplayEnded replay_ended" "\<not> isReplayStarted (human_msg a b)"
    "\<not> isReplayEnded (human_msg a b)" "\<not> isReplayStarted (assistant_msg a b)"
    "\<not> isReplayEnded (assistant_msg a b)" for a b
    by (simp_all add: isReplayStarted_def isReplayEnded_def replay_started_def replay_ended_def
        sample_events)
  have "eventBuffer initial_stream = []" by (simp add: initial_stream_def)
  from conn.started [OF this marks(1) played_steps(1)] have "conn [] 0 (played 0)" .
  moreover have "isReplayingRef (played 0)" "isReplayingRef (played 1)" by code_simp+
  ultimately have "conn [stamp 2 (human_msg ''t1'' ''hi'')] 0 (played 1)"
    using conn.event [OF _ marks(3,4) played_steps(2)] by fastforce
  from conn.event [OF this marks(5,6) played_steps(3) refl] \<open>isReplayingRef (played 1)\<close>
  have "conn ([stamp 2 (human_msg ''t1'' ''hi'')] @ [stamp 3 (assistant_msg ''t1'' ''hello'')]) 0 (played 2)"
    by simp
  then have "conn played_log 0 (played 2)" by (simp add: played_log_def)
  moreover have "\<not> replayServerDone (played 2)" by code_simp
  ultimately have "conn played_log 0 (played 3)"
    using marks(2) played_steps(4) by (rule conn.ended)
  with conn.drain [OF this played_steps(5)] show ?thesis by blast
qed

lemma stream_delivers_in_order_witness:
  "events (st (played 4)) @ eventBuffer (played 4) = played_log"
proof -
  have "\<not> isReplayingRef (played 4)" by code_simp
  with stream_delivers_in_order [OF played_conn [THEN conjunct2]] show ?thesis by blast
qed

lemma replay_drain_terminates_witness:
  "\<exists>s'. drains [5, 6, 7] (played 3) = Some s' \<and> \<not> isReplayingRef s'"
proof -
  have fin: "replayServerDone (played 3)" "length [5, 6, 7 :: int] > length (replayBuffer (played 3))"
    by code_simp+
  have "drains [5, 6, 7] (played 3) \<noteq> None" by code_simp
  then obtain s' where s': "drains [5, 6, 7] (played 3) = Some s'" by blast
  with replay_drain_terminates [OF played_conn [THEN conjunct1] fin] show ?thesis by blast
qed

lemma replay_rebuilds_turns_witness:
  "map userMessage (turns (st (played 4))) = [Some ''hi'']"
proof -
  have idle: "\<not> isReplayingRef (played 4)" by code_simp
  have "wellformed_log played_log" unfolding wellformed_log_def closers_plain_def modern_def by code_simp
  from replay_rebuilds_turns [OF played_conn [THEN conjunct2] idle this]
  have "turns (st (played 4))
      = fst (appendTurns [] INITIAL_TURN_GROUPING_STATE (filter isVisibleEvent played_log) Map.empty)"
    by (metis fst_conv)
  moreover have "map userMessage
      (fst (appendTurns [] INITIAL_TURN_GROUPING_STATE (filter isVisibleEvent played_log) Map.empty)) = [Some ''hi'']"
    by code_simp
  ultimately show ?thesis by simp
qed

end
