(* ===== verification/Sse.thy ===== *)
theory Sse
  imports Prelude
begin

text \<open>
  The connection of a session (\<open>managers/SSEConnectionManager.js\<close>). \<open>EventSource\<close> objects are numbered in
  the order they are made; \<open>openSources\<close> are those the browser still delivers from, whether or not the
  manager remembers them. A pending reconnect timer is its delay in milliseconds. The two listeners are
  logs: \<open>statusChanges\<close> newest first and the number of \<open>exhausted\<close> calls.
\<close>

definition RECONNECT_BASE_DELAY :: nat where
  "RECONNECT_BASE_DELAY = 1000"

definition RECONNECT_MAX_DELAY :: nat where
  "RECONNECT_MAX_DELAY = 10000"

definition RECONNECT_MAX_ATTEMPTS :: nat where
  "RECONNECT_MAX_ATTEMPTS = 3"

datatype sse_status = Disconnected | Connecting | Connected | Reconnecting | Failed

record sse_options =
  baseDelay :: nat
  maxDelay :: nat
  maxAttempts :: "nat option"

record sse =
  eventSource :: "nat option"
  reconnectTimer :: "nat option"
  status :: sse_status
  conn_error :: "string option"
  attempt :: nat
  closed :: bool
  nextSource :: nat
  openSources :: "nat list"
  statusChanges :: "(sse_status \<times> string option) list"
  exhausted :: nat

definition new_sse :: sse where
  "new_sse = \<lparr>eventSource = None, reconnectTimer = None, status = Disconnected, conn_error = None, attempt = 0,
     closed = False, nextSource = 0, openSources = [], statusChanges = [], exhausted = 0\<rparr>"

definition isConnected :: "sse \<Rightarrow> bool" where
  "isConnected s \<longleftrightarrow> status s = Connected"

definition setStatus :: "sse_status \<Rightarrow> string option \<Rightarrow> sse \<Rightarrow> sse" where
  "setStatus st err s =
     (if closed s then s
      else s\<lparr>status := st, conn_error := err, statusChanges := (st, err) # statusChanges s\<rparr>)"

definition cancelReconnect :: "sse \<Rightarrow> sse" where
  "cancelReconnect s = s\<lparr>reconnectTimer := None\<rparr>"

definition es_close :: "nat \<Rightarrow> sse \<Rightarrow> sse" where
  "es_close i s = s\<lparr>openSources := removeAll i (openSources s)\<rparr>"

definition closeEventSource :: "sse \<Rightarrow> sse" where
  "closeEventSource s =
     (case eventSource s of None \<Rightarrow> s | Some i \<Rightarrow> (es_close i s)\<lparr>eventSource := None\<rparr>)"

definition open_sse :: "sse \<Rightarrow> sse" where
  "open_sse s0 =
     (if closed s0 then s0
      else let s = setStatus Connecting None s0; i = nextSource s in
        s\<lparr>nextSource := Suc i, openSources := i # openSources s, eventSource := Some i\<rparr>)"

definition scheduleReconnect :: "sse_options \<Rightarrow> sse \<Rightarrow> sse" where
  "scheduleReconnect opt s0 =
     (if closed s0 then s0
      else if (case maxAttempts opt of None \<Rightarrow> False | Some m \<Rightarrow> m \<le> attempt s0) then
        let s = setStatus Failed (Some ''Connection lost - container may be unavailable'') s0 in
        s\<lparr>exhausted := Suc (exhausted s)\<rparr>
      else let s = cancelReconnect s0 in
        s\<lparr>reconnectTimer := Some (min (baseDelay opt * 2 ^ attempt s) (maxDelay opt)), attempt := Suc (attempt s)\<rparr>)"

text \<open>What the environment delivers: the handlers of source \<open>i\<close>, and the reconnect timer.\<close>

definition es_onopen :: "nat \<Rightarrow> sse \<Rightarrow> sse" where
  "es_onopen i s = setStatus Connected None (s\<lparr>attempt := 0\<rparr>)"

definition es_onerror :: "sse_options \<Rightarrow> nat \<Rightarrow> sse \<Rightarrow> sse" where
  "es_onerror opt i s =
     scheduleReconnect opt
       (setStatus Reconnecting (Some ''Connection lost'') ((es_close i s)\<lparr>eventSource := None\<rparr>))"

definition reconnectTimerFires :: "sse \<Rightarrow> sse" where
  "reconnectTimerFires s = open_sse (s\<lparr>reconnectTimer := None\<rparr>)"

definition connect :: "sse \<Rightarrow> sse" where
  "connect s =
     (if closed s then s
      else if status s = Connecting \<or> status s = Connected then s
      else open_sse s)"

definition disconnect :: "sse \<Rightarrow> sse" where
  "disconnect s = setStatus Disconnected None (closeEventSource (cancelReconnect s))"

definition reconnect :: "sse \<Rightarrow> sse" where
  "reconnect s =
     (if closed s then s
      else open_sse ((closeEventSource (cancelReconnect s))\<lparr>attempt := 0\<rparr>))"

definition close_sse :: "sse \<Rightarrow> sse" where
  "close_sse s = (setStatus Disconnected None (closeEventSource (cancelReconnect s)))\<lparr>closed := True\<rparr>"

section \<open>Runs\<close>

text \<open>
  Any interleaving of calls, source events and timeouts. As the only caller (\<open>hooks/useSSE.js\<close>) does,
  \<open>connect\<close> is called on a manager that is not backing off; \<open>connect_in_backoff_leaks\<close> is what the other
  order does.
\<close>

inductive sse_step :: "sse_options \<Rightarrow> sse \<Rightarrow> sse \<Rightarrow> bool" for opt where
  do_connect: "status s \<noteq> Reconnecting \<Longrightarrow> sse_step opt s (connect s)"
| do_disconnect: "sse_step opt s (disconnect s)"
| do_reconnect: "sse_step opt s (reconnect s)"
| do_close: "sse_step opt s (close_sse s)"
| on_open: "i \<in> set (openSources s) \<Longrightarrow> sse_step opt s (es_onopen i s)"
| on_error: "i \<in> set (openSources s) \<Longrightarrow> sse_step opt s (es_onerror opt i s)"
| on_timer: "reconnectTimer s \<noteq> None \<Longrightarrow> sse_step opt s (reconnectTimerFires s)"

inductive sse_steps :: "sse_options \<Rightarrow> sse \<Rightarrow> sse \<Rightarrow> bool" for opt where
  refl: "sse_steps opt s s"
| step: "sse_steps opt s t \<Longrightarrow> sse_step opt t u \<Longrightarrow> sse_steps opt s u"

text \<open>What holds between two steps: the manager knows every source that is open, and a timer only runs
  while it is backing off.\<close>

definition sse_inv :: "sse \<Rightarrow> bool" where
  "sse_inv s \<longleftrightarrow>
     openSources s = (case eventSource s of None \<Rightarrow> [] | Some i \<Rightarrow> [i]) \<and>
     (eventSource s \<noteq> None \<longleftrightarrow> status s = Connecting \<or> status s = Connected) \<and>
     (reconnectTimer s \<noteq> None \<longleftrightarrow> status s = Reconnecting) \<and>
     (closed s \<longrightarrow> status s = Disconnected) \<and>
     (status s = Connected \<longrightarrow> attempt s = 0) \<and>
     (\<forall>i \<in> set (openSources s). i < nextSource s)"

lemmas sse_ops = connect_def disconnect_def reconnect_def close_sse_def es_onopen_def es_onerror_def
  reconnectTimerFires_def open_sse_def closeEventSource_def cancelReconnect_def es_close_def
  scheduleReconnect_def setStatus_def

lemma new_sse_inv [simp]: "sse_inv new_sse"
  by (simp add: sse_inv_def new_sse_def)

lemma sse_step_inv: "sse_step opt s t \<Longrightarrow> sse_inv s \<Longrightarrow> sse_inv t"
  by (induction rule: sse_step.induct)
    (auto simp: sse_inv_def sse_ops Let_def split: option.splits)

lemma sse_steps_inv: "sse_steps opt s t \<Longrightarrow> sse_inv s \<Longrightarrow> sse_inv t"
  by (induction rule: sse_steps.induct) (auto dest: sse_step_inv)

lemma sse_step_closed:
  "sse_step opt s t \<Longrightarrow> closed s \<Longrightarrow> openSources s = [] \<Longrightarrow> reconnectTimer s = None \<Longrightarrow>
   closed t \<and> openSources t = [] \<and> reconnectTimer t = None \<and> status t = status s \<and>
   statusChanges t = statusChanges s \<and> exhausted t = exhausted s"
  by (induction rule: sse_step.induct) (auto simp: sse_ops Let_def split: option.splits)

lemma sse_steps_closed:
  "sse_steps opt s t \<Longrightarrow> closed s \<Longrightarrow> openSources s = [] \<Longrightarrow> reconnectTimer s = None \<Longrightarrow>
   closed t \<and> openSources t = [] \<and> reconnectTimer t = None \<and> status t = status s \<and>
   statusChanges t = statusChanges s \<and> exhausted t = exhausted s"
  by (induction rule: sse_steps.induct) (auto dest: sse_step_closed)

lemma close_sse_empty:
  "sse_inv s \<Longrightarrow> closed (close_sse s) \<and> openSources (close_sse s) = [] \<and> reconnectTimer (close_sse s) = None
     \<and> status (close_sse s) = Disconnected"
  by (auto simp: sse_inv_def sse_ops split: option.splits)

text \<open>C12. A manager never has two connections: in every state it can reach, the sources the browser still
  delivers from are exactly the one the manager holds, which it holds exactly while connecting or
  connected, and a reconnect is pending exactly while it backs off.\<close>

theorem sse_single_source:
  assumes "sse_steps opt new_sse s"
  shows "openSources s = (case eventSource s of None \<Rightarrow> [] | Some i \<Rightarrow> [i])
    \<and> (eventSource s \<noteq> None \<longleftrightarrow> status s = Connecting \<or> status s = Connected)
    \<and> (reconnectTimer s \<noteq> None \<longleftrightarrow> status s = Reconnecting)"
  using sse_steps_inv [OF assms new_sse_inv] by (simp add: sse_inv_def)

text \<open>Closing is final: after \<open>close\<close>, whatever is called and whatever still arrives, nothing is opened
  again, no timer runs, and the listeners hear nothing more.\<close>

theorem sse_closed_is_inert:
  assumes "sse_steps opt new_sse s" and "sse_steps opt (close_sse s) t"
  shows "openSources t = [] \<and> reconnectTimer t = None \<and> status t = Disconnected
    \<and> statusChanges t = statusChanges (close_sse s) \<and> exhausted t = exhausted s"
proof -
  note c = close_sse_empty [OF sse_steps_inv [OF assms(1) new_sse_inv]]
  have "exhausted (close_sse s) = exhausted s" by (simp add: sse_ops split: option.splits)
  with sse_steps_closed [OF assms(2)] c show ?thesis by simp
qed

section \<open>An outage\<close>

text \<open>The current source fails; \<open>outage\<close>: it fails, and when the timer fires the next one is opened.\<close>

definition lose :: "sse_options \<Rightarrow> sse \<Rightarrow> sse" where
  "lose opt s = (case eventSource s of None \<Rightarrow> s | Some i \<Rightarrow> es_onerror opt i s)"

definition outage :: "sse_options \<Rightarrow> sse \<Rightarrow> sse" where
  "outage opt s = (let t = lose opt s in if reconnectTimer t = None then t else reconnectTimerFires t)"

definition may_retry :: "sse_options \<Rightarrow> nat \<Rightarrow> bool" where
  "may_retry opt n \<longleftrightarrow> (case maxAttempts opt of None \<Rightarrow> True | Some m \<Rightarrow> n < m)"

lemma lose_retries:
  assumes "eventSource s = Some i" and "\<not> closed s" and "may_retry opt (attempt s)"
  shows "reconnectTimer (lose opt s) = Some (min (baseDelay opt * 2 ^ attempt s) (maxDelay opt))
    \<and> status (lose opt s) = Reconnecting \<and> attempt (lose opt s) = Suc (attempt s) \<and> \<not> closed (lose opt s)
    \<and> exhausted (lose opt s) = exhausted s"
  using assms by (auto simp: lose_def may_retry_def sse_ops Let_def split: option.splits)

lemma lose_gives_up:
  assumes "eventSource s = Some i" and "\<not> closed s" and "\<not> may_retry opt (attempt s)"
  shows "status (lose opt s) = Failed \<and> reconnectTimer (lose opt s) = reconnectTimer s
    \<and> eventSource (lose opt s) = None \<and> exhausted (lose opt s) = Suc (exhausted s)"
  using assms by (auto simp: lose_def may_retry_def sse_ops Let_def split: option.splits)

lemma outage_retries:
  assumes "eventSource s = Some i" and "\<not> closed s" and "may_retry opt (attempt s)"
  shows "(\<exists>j. eventSource (outage opt s) = Some j) \<and> \<not> closed (outage opt s)
    \<and> attempt (outage opt s) = Suc (attempt s) \<and> reconnectTimer (outage opt s) = None
    \<and> exhausted (outage opt s) = exhausted s"
  using lose_retries [OF assms]
  by (auto simp: outage_def Let_def reconnectTimerFires_def open_sse_def setStatus_def)

lemma outages:
  assumes "eventSource s \<noteq> None" and "\<not> closed s" and "attempt s = 0" and "reconnectTimer s = None"
    and "\<And>j. j < k \<Longrightarrow> may_retry opt j"
  shows "let t = (outage opt ^^ k) s in
    (\<exists>j. eventSource t = Some j) \<and> \<not> closed t \<and> attempt t = k \<and> reconnectTimer t = None \<and> exhausted t = exhausted s"
  using assms(5)
proof (induction k)
  case 0
  with assms(1-4) show ?case by auto
next
  case (Suc k)
  then obtain j where "eventSource ((outage opt ^^ k) s) = Some j"
    and "\<not> closed ((outage opt ^^ k) s)" "attempt ((outage opt ^^ k) s) = k"
    "exhausted ((outage opt ^^ k) s) = exhausted s"
    by (auto simp: Let_def)
  with outage_retries [of "(outage opt ^^ k) s" j opt] Suc.prems [of k] show ?case
    by (auto simp: Let_def)
qed

lemma connected_state:
  assumes "sse_steps opt new_sse s" and "status s = Connected"
  shows "eventSource s \<noteq> None" "\<not> closed s" "reconnectTimer s = None" "attempt s = 0"
  using sse_steps_inv [OF assms(1) new_sse_inv] assms(2) by (auto simp: sse_inv_def)

text \<open>C13. The backoff is bounded: when an open connection is lost for good, the k-th retry waits
  \<open>min (base * 2^k) max\<close> milliseconds; after exactly \<open>maxAttempts\<close> of them the manager reports \<open>'error'\<close> with no
  timer left and asks once for recovery.\<close>

theorem sse_backoff_gives_up:
  assumes "sse_steps opt new_sse s" and "status s = Connected" and "maxAttempts opt = Some m"
  shows "(\<forall>k < m. reconnectTimer (lose opt ((outage opt ^^ k) s)) = Some (min (baseDelay opt * 2 ^ k) (maxDelay opt)))
    \<and> status ((outage opt ^^ Suc m) s) = Failed \<and> reconnectTimer ((outage opt ^^ Suc m) s) = None
    \<and> exhausted ((outage opt ^^ Suc m) s) = Suc (exhausted s)"
proof -
  note open_state = connected_state [OF assms(1,2)]
  have retry: "may_retry opt j \<longleftrightarrow> j < m" for j
    using assms(3) by (simp add: may_retry_def)
  have after: "\<exists>j. eventSource ((outage opt ^^ k) s) = Some j" "\<not> closed ((outage opt ^^ k) s)"
    "attempt ((outage opt ^^ k) s) = k" "reconnectTimer ((outage opt ^^ k) s) = None"
    "exhausted ((outage opt ^^ k) s) = exhausted s" if "k \<le> m" for k
    using outages [OF open_state(1,2,4,3), of k opt] that retry by (auto simp: Let_def)
  have delays: "\<forall>k < m. reconnectTimer (lose opt ((outage opt ^^ k) s))
      = Some (min (baseDelay opt * 2 ^ k) (maxDelay opt))"
  proof (intro allI impI)
    fix k assume "k < m"
    moreover from this obtain j where "eventSource ((outage opt ^^ k) s) = Some j" using after(1) by force
    ultimately show "reconnectTimer (lose opt ((outage opt ^^ k) s))
        = Some (min (baseDelay opt * 2 ^ k) (maxDelay opt))"
      using lose_retries [of "(outage opt ^^ k) s" j opt] after [of k] retry by simp
  qed
  from after(1) [of m] obtain j where "eventSource ((outage opt ^^ m) s) = Some j" by blast
  with lose_gives_up [of "(outage opt ^^ m) s" j opt] after [of m] retry have
    "status (lose opt ((outage opt ^^ m) s)) = Failed" "reconnectTimer (lose opt ((outage opt ^^ m) s)) = None"
    "exhausted (lose opt ((outage opt ^^ m) s)) = Suc (exhausted s)"
    by simp_all
  with delays show ?thesis by (simp add: outage_def Let_def)
qed

text \<open>
  The order \<open>useSSE\<close> avoids: \<open>connect\<close> on a manager that is backing off opens a source and leaves the
  timer running, which then opens a second one. \<open>close\<close> only reaches the second.
\<close>

lemma connect_in_backoff_leaks:
  assumes "sse_inv s" and "status s = Reconnecting"
  shows "length (openSources (reconnectTimerFires (connect s))) = 2
    \<and> openSources (close_sse (reconnectTimerFires (connect s))) \<noteq> []"
  using assms by (auto simp: sse_inv_def sse_ops Let_def split: option.splits)

section \<open>Witnesses\<close>

definition container_options :: sse_options where
  "container_options = \<lparr>baseDelay = RECONNECT_BASE_DELAY, maxDelay = RECONNECT_MAX_DELAY,
     maxAttempts = Some RECONNECT_MAX_ATTEMPTS\<rparr>"

definition connected_sse :: sse where
  "connected_sse = es_onopen 0 (connect new_sse)"

lemma connected_sse_reached: "sse_steps opt new_sse connected_sse"
proof -
  have "sse_step opt new_sse (connect new_sse)" by (rule do_connect) (simp add: new_sse_def)
  with sse_steps.refl have "sse_steps opt new_sse (connect new_sse)" by (rule sse_steps.step)
  moreover have "sse_step opt (connect new_sse) connected_sse"
    unfolding connected_sse_def by (rule on_open) code_simp
  ultimately show ?thesis by (rule sse_steps.step)
qed

lemma sse_single_source_witness:
  "openSources connected_sse = [0] \<and> eventSource connected_sse = Some 0"
proof -
  have "eventSource connected_sse = Some 0" by code_simp
  with sse_single_source [OF connected_sse_reached] show ?thesis by simp
qed

lemma sse_closed_is_inert_witness:
  "openSources (reconnect (close_sse connected_sse)) = []"
  using sse_closed_is_inert [OF connected_sse_reached
    sse_steps.step [OF sse_steps.refl do_reconnect]] by blast

lemma sse_backoff_gives_up_witness:
  "status ((outage container_options ^^ 4) connected_sse) = Failed
   \<and> reconnectTimer (lose container_options ((outage container_options ^^ 2) connected_sse)) = Some 4000"
proof -
  have con: "status connected_sse = Connected" by code_simp
  have max: "maxAttempts container_options = Some 3" by code_simp
  have delay: "min (baseDelay container_options * 2 ^ 2) (maxDelay container_options) = 4000" by code_simp
  have "Suc 3 = 4" "2 < (3::nat)" by simp_all
  with sse_backoff_gives_up [OF connected_sse_reached con max] delay show ?thesis by metis
qed

end
