(* ===== verification/MessageQueue.thy ===== *)
theory MessageQueue
  imports Prelude "HOL-Library.Sublist" "HOL-Library.Multiset"
begin

text \<open>
  The queue of messages typed while the agent is busy (\<open>features/chat/MessageQueueManager.js\<close>). Ids come
  from \<open>crypto.randomUUID\<close> and times from the clock, so both are arguments. \<open>notified\<close> numbers the calls
  of \<open>onChange\<close>, each of which passes the items as the operation leaves them.
\<close>

datatype queue_status = QUEUED | PAUSED

record queue_item =
  item_id :: string
  item_content :: string
  item_attachments :: "jval list option"
  item_status :: queue_status
  addedAt :: int
  held_for :: "nat option"

record queue =
  items :: "queue_item list"
  notified :: nat

definition empty_queue :: queue where
  "empty_queue = \<lparr>items = [], notified = 0\<rparr>"

definition isSendable :: "queue_item \<Rightarrow> bool" where
  "isSendable i \<longleftrightarrow> item_status i = QUEUED \<and> held_for i = None"

definition pausedItem :: "queue_item \<Rightarrow> queue_item" where
  "pausedItem i = (if isSendable i then i\<lparr>item_status := PAUSED\<rparr> else i)"

definition attachments_or_null :: "jval list \<Rightarrow> jval list option" where
  "attachments_or_null as = (if as = [] then None else Some as)"

definition set_items :: "queue_item list \<Rightarrow> queue \<Rightarrow> queue" where
  "set_items xs q = q\<lparr>items := xs, notified := Suc (notified q)\<rparr>"

text \<open>\<open>findIndex\<close> and \<open>splice(idx, 1)\<close>.\<close>

fun take_first :: "('a \<Rightarrow> bool) \<Rightarrow> 'a list \<Rightarrow> ('a \<times> 'a list) option" where
  "take_first p [] = None"
| "take_first p (x # xs) = (if p x then Some (x, xs) else map_option (\<lambda>(y, ys). (y, x # ys)) (take_first p xs))"

definition enqueue :: "string \<Rightarrow> int \<Rightarrow> string \<Rightarrow> jval list \<Rightarrow> nat option \<Rightarrow> queue \<Rightarrow> queue" where
  "enqueue i now c as own q =
     set_items (items q @ [\<lparr>item_id = i, item_content = c, item_attachments = attachments_or_null as,
       item_status = QUEUED, addedAt = now, held_for = own\<rparr>]) q"

definition remove_where :: "(queue_item \<Rightarrow> bool) \<Rightarrow> queue \<Rightarrow> queue_item option \<times> queue" where
  "remove_where p q =
     (case take_first p (items q) of None \<Rightarrow> (None, q) | Some (i, rest) \<Rightarrow> (Some i, set_items rest q))"

definition dequeue :: "queue \<Rightarrow> queue_item option \<times> queue" where
  "dequeue q = remove_where isSendable q"

definition peek :: "queue \<Rightarrow> queue_item option" where
  "peek q = find isSendable (items q)"

definition removeById :: "string \<Rightarrow> queue \<Rightarrow> queue_item option \<times> queue" where
  "removeById x q = remove_where (\<lambda>i. item_id i = x) q"

definition editItem :: "string \<Rightarrow> queue \<Rightarrow> queue_item option \<times> queue" where
  "editItem x q = removeById x q"

definition sendNowItem :: "string \<Rightarrow> queue \<Rightarrow> queue_item option \<times> queue" where
  "sendNowItem x q =
     (case find (\<lambda>i. item_id i = x) (items q) of
        Some i \<Rightarrow> if held_for i \<noteq> None then (None, q) else removeById x q
      | None \<Rightarrow> removeById x q)"

definition cancelItem :: "string \<Rightarrow> queue \<Rightarrow> queue" where
  "cancelItem x q = snd (remove_where (\<lambda>i. item_id i = x) q)"

definition withSendFailure :: "queue_item list \<Rightarrow> queue_item option \<Rightarrow> queue_item list" where
  "withSendFailure xs failedItem =
     (case failedItem of None \<Rightarrow> [] | Some f \<Rightarrow> [f\<lparr>item_status := PAUSED\<rparr>]) @ map pausedItem xs"

definition handleSendFailure :: "queue_item option \<Rightarrow> queue \<Rightarrow> queue" where
  "handleSendFailure failedItem q = set_items (withSendFailure (items q) failedItem) q"

definition failedMessageItem :: "string \<Rightarrow> int \<Rightarrow> string \<Rightarrow> jval list \<Rightarrow> queue_item" where
  "failedMessageItem i now c as =
     \<lparr>item_id = i, item_content = c, item_attachments = attachments_or_null as, item_status = PAUSED,
      addedAt = now, held_for = None\<rparr>"

definition hasQueued :: "queue \<Rightarrow> bool" where
  "hasQueued q \<longleftrightarrow> list_ex isSendable (items q)"

definition pauseAll :: "queue \<Rightarrow> queue" where
  "pauseAll q =
     (if hasQueued q then set_items (map pausedItem (items q)) q
      else q\<lparr>items := map pausedItem (items q)\<rparr>)"

definition requeueItem :: "string \<Rightarrow> queue \<Rightarrow> queue" where
  "requeueItem x q =
     (case find_index (\<lambda>i. item_id i = x) (items q) of
        None \<Rightarrow> q
      | Some n \<Rightarrow> if item_status (items q ! n) \<noteq> PAUSED then q
                  else set_items (update_at n (item_status_update (\<lambda>_. QUEUED)) (items q)) q)"

definition restore :: "queue_item list \<Rightarrow> queue \<Rightarrow> queue" where
  "restore stored q = set_items (stored @ filter (\<lambda>i. held_for i \<noteq> None) (items q)) q"

definition takeCreation :: "nat \<Rightarrow> queue \<Rightarrow> queue_item list \<times> queue" where
  "takeCreation seq q =
     (let taken = filter (\<lambda>i. held_for i = Some seq) (items q)
      in if taken = [] then ([], q)
         else (taken, set_items (filter (\<lambda>i. held_for i \<noteq> Some seq) (items q)) q))"

definition released :: "nat \<Rightarrow> queue_item \<Rightarrow> queue_item" where
  "released seq i = (if held_for i = Some seq then i\<lparr>held_for := None\<rparr> else i)"

definition adoptCreation :: "nat \<Rightarrow> queue \<Rightarrow> queue" where
  "adoptCreation seq q =
     (if list_ex (\<lambda>i. held_for i = Some seq) (items q) then set_items (map (released seq) (items q)) q else q)"

definition clearAll :: "queue \<Rightarrow> queue" where
  "clearAll q = (if items q = [] then q else set_items [] q)"

definition handleResponseCycleEnd :: "queue \<Rightarrow> queue_item option \<times> queue" where
  "handleResponseCycleEnd q = dequeue q"

definition handleInterrupt :: "queue \<Rightarrow> queue" where
  "handleInterrupt q = pauseAll q"

section \<open>The queue as first in, first out\<close>

text \<open>
  What the senders rely on: \<open>deq\<close> hands out the ready items in the order they were put in. \<open>deqs\<close> is that
  many response cycles ending.
\<close>

fun deqs :: "('q \<Rightarrow> 'i option \<times> 'q) \<Rightarrow> nat \<Rightarrow> 'q \<Rightarrow> 'i list \<times> 'q" where
  "deqs deq 0 q = ([], q)"
| "deqs deq (Suc n) q =
     (case deq q of (None, q') \<Rightarrow> ([], q') | (Some i, q') \<Rightarrow> map_prod (Cons i) id (deqs deq n q'))"

locale send_queue =
  fixes ready :: "'q \<Rightarrow> 'i list"
    and sendable :: "'i \<Rightarrow> bool"
    and enq :: "'i \<Rightarrow> 'q \<Rightarrow> 'q"
    and deq :: "'q \<Rightarrow> 'i option \<times> 'q"
  assumes ready_enq: "ready (enq i q) = ready q @ (if sendable i then [i] else [])"
    and deq_empty: "ready q = [] \<Longrightarrow> deq q = (None, q)"
    and deq_ready: "ready q = i # is \<Longrightarrow> fst (deq q) = Some i \<and> ready (snd (deq q)) = is"
begin

lemma deqs_ready: "fst (deqs deq n q) = take n (ready q) \<and> ready (snd (deqs deq n q)) = drop n (ready q)"
proof (induction n arbitrary: q)
  case 0
  then show ?case by simp
next
  case (Suc n)
  show ?case
  proof (cases "ready q")
    case Nil
    then show ?thesis by (simp add: deq_empty)
  next
    case (Cons i "is")
    with deq_ready [OF Cons] obtain q' where "deq q = (Some i, q')" "ready q' = is"
      by (cases "deq q") auto
    with Cons Suc show ?thesis by (simp add: map_prod_def case_prod_unfold)
  qed
qed

lemma fold_enq_ready: "ready (fold enq is q) = ready q @ filter sendable is"
  by (induction "is" arbitrary: q) (simp_all add: ready_enq)

lemma first_in_first_out: "fst (deqs deq n (fold enq is q)) = take n (ready q @ filter sendable is)"
  by (simp add: deqs_ready fold_enq_ready)

lemma all_sent: "length (ready q) \<le> n \<Longrightarrow> ready (snd (deqs deq n q)) = []"
  by (simp add: deqs_ready)

end

text \<open>A message as it is handed to \<open>enqueue\<close>.\<close>

record message =
  msg_id :: string
  msg_time :: int
  msg_content :: string
  msg_attachments :: "jval list"
  msg_owner :: "nat option"

definition enqueueMessage :: "message \<Rightarrow> queue \<Rightarrow> queue" where
  "enqueueMessage m q = enqueue (msg_id m) (msg_time m) (msg_content m) (msg_attachments m) (msg_owner m) q"

definition queued_item :: "message \<Rightarrow> queue_item" where
  "queued_item m = \<lparr>item_id = msg_id m, item_content = msg_content m,
     item_attachments = attachments_or_null (msg_attachments m), item_status = QUEUED, addedAt = msg_time m,
     held_for = msg_owner m\<rparr>"

definition ready :: "queue \<Rightarrow> queue_item list" where
  "ready q = filter isSendable (items q)"

definition push_item :: "queue_item \<Rightarrow> queue \<Rightarrow> queue" where
  "push_item i q = set_items (items q @ [i]) q"

lemma items_set_items [simp]: "items (set_items xs q) = xs"
  by (simp add: set_items_def)

lemma enqueueMessage_push: "enqueueMessage m q = push_item (queued_item m) q"
  by (simp add: enqueueMessage_def enqueue_def push_item_def queued_item_def)

lemma isSendable_queued [simp]: "isSendable (queued_item m) \<longleftrightarrow> msg_owner m = None"
  by (simp add: isSendable_def queued_item_def)

lemma take_first_None: "take_first p xs = None \<longleftrightarrow> filter p xs = []"
  by (induction xs) auto

lemma take_first_Some:
  "take_first p xs = Some (y, ys) \<Longrightarrow> \<exists>as bs. xs = as @ y # bs \<and> ys = as @ bs \<and> p y \<and> (\<forall>x \<in> set as. \<not> p x)"
proof (induction xs arbitrary: ys)
  case Nil
  then show ?case by simp
next
  case (Cons x xs)
  show ?case
  proof (cases "p x")
    case True
    with Cons.prems have "x # xs = [] @ y # xs \<and> ys = [] @ xs \<and> p y" by simp
    then show ?thesis by (metis empty_iff list.set(1))
  next
    case False
    with Cons.prems obtain zs where "take_first p xs = Some (y, zs)" "ys = x # zs" by auto
    with Cons.IH [OF this(1)] False show ?thesis by (metis append_Cons set_ConsD)
  qed
qed

lemma remove_where_Some:
  assumes "remove_where p q = (Some i, q')"
  obtains as bs where "items q = as @ i # bs" "items q' = as @ bs" "p i" "\<And>x. x \<in> set as \<Longrightarrow> \<not> p x"
  using assms take_first_Some [of p "items q"] by (fastforce simp: remove_where_def split: option.splits)

lemma remove_where_None: "remove_where p q = (None, q') \<Longrightarrow> q' = q \<and> (\<forall>x \<in> set (items q). \<not> p x)"
  by (auto simp: remove_where_def take_first_None filter_empty_conv split: option.splits)

interpretation mq: send_queue ready isSendable push_item dequeue
proof
  fix q i "is"
  show "ready (push_item i q) = ready q @ (if isSendable i then [i] else [])"
    by (simp add: ready_def push_item_def)
  show "dequeue q = (None, q)" if "ready q = []"
    using that take_first_None [of isSendable "items q"] by (auto simp: ready_def dequeue_def remove_where_def)
  show "fst (dequeue q) = Some i \<and> ready (snd (dequeue q)) = is" if r: "ready q = i # is"
  proof (cases "dequeue q")
    case (Pair x q')
    show ?thesis
    proof (cases x)
      case None
      with Pair r show ?thesis using remove_where_None [of isSendable q q']
        by (simp add: dequeue_def ready_def filter_empty_conv)
    next
      case (Some y)
      with Pair have "remove_where isSendable q = (Some y, q')" by (simp add: dequeue_def)
      then obtain as bs where *: "items q = as @ y # bs" "items q' = as @ bs" "isSendable y"
        "\<And>x. x \<in> set as \<Longrightarrow> \<not> isSendable x" by (rule remove_where_Some) blast
      then have "filter isSendable as = []" by (simp add: filter_empty_conv)
      with * r show ?thesis by (simp add: Pair Some ready_def)
    qed
  qed
qed

text \<open>Messages leave in the order they were typed: enqueueing messages and then ending \<open>n\<close> response
  cycles sends first what was ready before and then the new messages that no creation holds.\<close>

theorem queue_sends_in_order:
  "fst (deqs handleResponseCycleEnd n (fold enqueueMessage ms q)) =
     take n (ready q @ map queued_item (filter (\<lambda>m. msg_owner m = None) ms))"
proof -
  have push: "fold enqueueMessage ms q = fold push_item (map queued_item ms) q" for q
    by (induction ms arbitrary: q) (simp_all add: enqueueMessage_push)
  have "handleResponseCycleEnd = dequeue" by (simp add: fun_eq_iff handleResponseCycleEnd_def)
  then show ?thesis
    using mq.first_in_first_out [of n "map queued_item ms" q] by (simp add: push filter_map comp_def)
qed

section \<open>Messages held for a session being created\<close>

definition held :: "nat \<Rightarrow> queue \<Rightarrow> queue_item list" where
  "held seq q = filter (\<lambda>i. held_for i = Some seq) (items q)"

text \<open>Everything that can happen to the queue while creation \<open>seq\<close> is under way, short of editing or
  cancelling one of the messages held for it, and of clearing the queue.\<close>

inductive queue_step :: "nat \<Rightarrow> queue \<Rightarrow> queue \<Rightarrow> bool" for seq where
  q_enqueue: "queue_step seq q (enqueueMessage m q)"
| q_cycle_end: "queue_step seq q (snd (handleResponseCycleEnd q))"
| q_edit: "(\<And>i. i \<in> set (items q) \<Longrightarrow> item_id i = x \<Longrightarrow> held_for i \<noteq> Some seq) \<Longrightarrow> queue_step seq q (snd (editItem x q))"
| q_cancel: "(\<And>i. i \<in> set (items q) \<Longrightarrow> item_id i = x \<Longrightarrow> held_for i \<noteq> Some seq) \<Longrightarrow> queue_step seq q (cancelItem x q)"
| q_send_now: "queue_step seq q (snd (sendNowItem x q))"
| q_failure: "(\<And>i. f = Some i \<Longrightarrow> held_for i = None) \<Longrightarrow> queue_step seq q (handleSendFailure f q)"
| q_interrupt: "queue_step seq q (handleInterrupt q)"
| q_requeue: "queue_step seq q (requeueItem x q)"
| q_restore: "(\<And>i. i \<in> set stored \<Longrightarrow> held_for i = None) \<Longrightarrow> queue_step seq q (restore stored q)"
| q_take: "other \<noteq> seq \<Longrightarrow> queue_step seq q (snd (takeCreation other q))"
| q_adopt: "other \<noteq> seq \<Longrightarrow> queue_step seq q (adoptCreation other q)"

inductive queue_steps :: "nat \<Rightarrow> queue \<Rightarrow> queue \<Rightarrow> bool" for seq where
  q_refl: "queue_steps seq q q"
| q_step: "queue_steps seq p q \<Longrightarrow> queue_step seq q r \<Longrightarrow> queue_steps seq p r"

definition held_queued :: "nat \<Rightarrow> queue \<Rightarrow> bool" where
  "held_queued seq q \<longleftrightarrow> (\<forall>i \<in> set (held seq q). item_status i = QUEUED)"

lemma held_remove_where:
  assumes "\<And>i. i \<in> set (items q) \<Longrightarrow> p i \<Longrightarrow> held_for i \<noteq> Some seq"
  shows "held seq (snd (remove_where p q)) = held seq q"
proof (cases "remove_where p q")
  case (Pair x q')
  show ?thesis
  proof (cases x)
    case None
    with Pair show ?thesis using remove_where_None [of p q q'] by simp
  next
    case (Some y)
    with Pair obtain as bs where "items q = as @ y # bs" "items q' = as @ bs" "p y"
      using remove_where_Some [of p q y q'] by blast
    with assms [of y] show ?thesis by (simp add: Pair held_def)
  qed
qed

lemma held_pausedItem: "filter (\<lambda>i. held_for i = Some seq) (map pausedItem xs) = filter (\<lambda>i. held_for i = Some seq) xs"
  by (induction xs) (auto simp: pausedItem_def isSendable_def)

lemma held_removeById_found:
  assumes "find (\<lambda>i. item_id i = x) (items q) = Some j" and "held_for j \<noteq> Some seq"
  shows "held seq (snd (removeById x q)) = held seq q"
proof (cases "remove_where (\<lambda>i. item_id i = x) q")
  case (Pair y q')
  show ?thesis
  proof (cases y)
    case None
    with Pair show ?thesis using remove_where_None [of "\<lambda>i. item_id i = x" q q'] by (simp add: removeById_def)
  next
    case (Some k)
    with Pair obtain as bs where *: "items q = as @ k # bs" "items q' = as @ bs" "item_id k = x"
      "\<And>i. i \<in> set as \<Longrightarrow> item_id i \<noteq> x"
      using remove_where_Some [of "\<lambda>i. item_id i = x" q k q'] by blast
    then have "find (\<lambda>i. item_id i = x) as = None" by (simp add: find_None_iff)
    then have "find (\<lambda>i. item_id i = x) (as @ k # bs) = Some k"
      using *(3) by (induction as) (auto split: if_splits)
    with assms * have "held_for k \<noteq> Some seq" by simp
    with * show ?thesis by (simp add: Pair removeById_def held_def)
  qed
qed

lemma held_sendNow: "held seq (snd (sendNowItem x q)) = held seq q"
proof (cases "find (\<lambda>i. item_id i = x) (items q)")
  case None
  then have "\<And>i. i \<in> set (items q) \<Longrightarrow> item_id i = x \<Longrightarrow> held_for i \<noteq> Some seq" by (auto simp: find_None_iff)
  with None show ?thesis
    using held_remove_where [of q "\<lambda>i. item_id i = x" seq] by (simp add: sendNowItem_def removeById_def)
next
  case (Some j)
  then show ?thesis using held_removeById_found [OF Some, of seq] by (simp add: sendNowItem_def)
qed

lemma held_requeue: "held_queued seq q \<Longrightarrow> held seq (requeueItem x q) = held seq q"
proof (cases "find_index (\<lambda>i. item_id i = x) (items q)")
  case (Some n)
  moreover assume "held_queued seq q"
  moreover note find_index_Some [OF Some]
  ultimately have "held_for (items q ! n) \<noteq> Some seq" if "item_status (items q ! n) = PAUSED"
    using that by (auto simp: held_queued_def held_def)
  with Some find_index_Some [OF Some] show ?thesis
    by (simp add: requeueItem_def held_def filter_update_at)
qed (simp add: requeueItem_def)

lemma held_step: "queue_step seq q r \<Longrightarrow> held_queued seq q \<Longrightarrow>
    \<exists>new. held seq r = held seq q @ new \<and> (\<forall>i \<in> set new. item_status i = QUEUED)"
proof (induction rule: queue_step.induct)
  case (q_enqueue q m)
  then show ?case by (auto simp: held_def enqueueMessage_push push_item_def queued_item_def)
next
  case (q_cycle_end q)
  then show ?case
    using held_remove_where [of q isSendable seq] by (simp add: handleResponseCycleEnd_def dequeue_def isSendable_def)
next
  case (q_edit q x)
  then show ?case
    using held_remove_where [of q "\<lambda>i. item_id i = x" seq] by (simp add: editItem_def removeById_def)
next
  case (q_cancel q x)
  then show ?case using held_remove_where [of q "\<lambda>i. item_id i = x" seq] by (simp add: cancelItem_def)
next
  case (q_send_now q x)
  then show ?case by (simp add: held_sendNow)
next
  case (q_failure f q)
  then show ?case
    by (auto simp: held_def handleSendFailure_def withSendFailure_def held_pausedItem split: option.splits)
next
  case (q_interrupt q)
  then show ?case by (simp add: held_def handleInterrupt_def pauseAll_def held_pausedItem)
next
  case (q_requeue q x)
  then show ?case by (simp add: held_requeue)
next
  case (q_restore stored q)
  then have "filter (\<lambda>i. held_for i = Some seq) stored = []" by (auto simp: filter_empty_conv)
  moreover have "filter (\<lambda>i. held_for i = Some seq) (filter (\<lambda>i. held_for i \<noteq> None) (items q)) = held seq q"
    unfolding held_def by (induction "items q" rule: rev_induct) (simp_all add: filter_filter conj_commute cong: conj_cong)
  ultimately show ?case by (simp add: held_def restore_def)
next
  case (q_take other q)
  then have "filter (\<lambda>i. held_for i = Some seq) (filter (\<lambda>i. held_for i \<noteq> Some other) (items q)) = held seq q"
    unfolding held_def filter_filter by (metis (mono_tags, lifting) option.inject)
  then show ?case by (simp add: held_def takeCreation_def Let_def)
next
  case (q_adopt other q)
  have "filter (\<lambda>i. held_for i = Some seq) (map (released other) xs) = filter (\<lambda>i. held_for i = Some seq) xs" for xs
    using q_adopt by (induction xs) (auto simp: released_def)
  then show ?case by (simp add: held_def adoptCreation_def)
qed

lemma held_steps: "queue_steps seq q r \<Longrightarrow> held_queued seq q \<Longrightarrow>
    prefix (held seq q) (held seq r) \<and> held_queued seq r"
proof (induction rule: queue_steps.induct)
  case (q_refl q)
  then show ?case by simp
next
  case (q_step p q r)
  then obtain new where "held seq r = held seq q @ new" "\<forall>i \<in> set new. item_status i = QUEUED"
    using held_step by blast
  with q_step show ?case by (auto simp: held_queued_def prefix_def)
qed

lemma adopted_ready: "held_queued seq q \<Longrightarrow> subseq (map (released seq) (held seq q)) (ready (adoptCreation seq q))"
proof -
  assume hq: "held_queued seq q"
  have "subseq (map (released seq) (filter (\<lambda>i. held_for i = Some seq) xs)) (filter isSendable (map (released seq) xs))"
    if "\<forall>i \<in> set xs. held_for i = Some seq \<longrightarrow> item_status i = QUEUED" for xs
    using that by (induction xs) (auto simp: released_def isSendable_def)
  moreover have "held seq q = []" if "\<not> list_ex (\<lambda>i. held_for i = Some seq) (items q)"
    using that by (auto simp: held_def list_ex_iff filter_empty_conv)
  ultimately show ?thesis
    using hq by (auto simp: held_queued_def held_def ready_def adoptCreation_def)
qed

text \<open>A message written for a session that is still being created waits: sends, interrupts, failures and
  session switches in the meantime neither send, pause, lose nor reorder it, and when the session adopts
  it, it is ready to be sent in its place.\<close>

theorem held_messages_wait_for_their_session:
  assumes "queue_steps seq q r" and "held_queued seq q"
  shows "prefix (held seq q) (held seq r)
    \<and> subseq (map (released seq) (held seq q)) (ready (adoptCreation seq r))"
proof -
  from held_steps [OF assms] have p: "prefix (held seq q) (held seq r)" and "held_queued seq r" by simp_all
  from adopted_ready [OF this(2)] p show ?thesis
    by (metis map_mono_prefix prefix_imp_subseq subseq_order.trans)
qed

section \<open>A failed send\<close>

text \<open>A failed send loses nothing: the message returns to the front, everything that could be sent
  is paused, and asking for the message again sends that message first.\<close>

theorem failed_send_is_retried:
  assumes "dequeue q = (Some i, q')"
  shows "peek (handleSendFailure (Some i) q') = None
    \<and> mset (map item_id (items (handleSendFailure (Some i) q'))) = mset (map item_id (items q))
    \<and> fst (dequeue (requeueItem (item_id i) (handleSendFailure (Some i) q'))) = Some i"
proof -
  from assms obtain as bs where *: "items q = as @ i # bs" "items q' = as @ bs" "isSendable i"
    by (auto simp: dequeue_def elim: remove_where_Some)
  let ?paused = "i\<lparr>item_status := PAUSED\<rparr>"
  have failed: "items (handleSendFailure (Some i) q') = ?paused # map pausedItem (as @ bs)"
    by (simp add: handleSendFailure_def withSendFailure_def *)
  have "\<not> isSendable (pausedItem x)" "item_id (pausedItem x) = item_id x" for x
    by (simp_all add: pausedItem_def isSendable_def)
  then have none: "peek (handleSendFailure (Some i) q') = None"
    and ids: "mset (map item_id (items (handleSendFailure (Some i) q'))) = mset (map item_id (items q))"
    unfolding peek_def failed by (auto simp: find_None_iff isSendable_def failed * comp_def)
  have "i\<lparr>item_status := QUEUED\<rparr> = i" using *(3) by (simp add: isSendable_def)
  then have "items (requeueItem (item_id i) (handleSendFailure (Some i) q')) = i # map pausedItem (as @ bs)"
    unfolding requeueItem_def by (simp add: failed update_at_def)
  with *(3) have "fst (dequeue (requeueItem (item_id i) (handleSendFailure (Some i) q'))) = Some i"
    by (simp add: dequeue_def remove_where_def)
  with none ids show ?thesis by simp
qed

section \<open>Witnesses\<close>

definition sample_message :: "string \<Rightarrow> nat option \<Rightarrow> message" where
  "sample_message i own = \<lparr>msg_id = i, msg_time = 0, msg_content = ''do '' @ i, msg_attachments = [], msg_owner = own\<rparr>"

definition sample_queue :: queue where
  "sample_queue = fold enqueueMessage [sample_message ''m1'' None, sample_message ''m2'' (Some 1)] empty_queue"

lemma held_messages_wait_for_their_session_witness:
  "map item_id (held 1 sample_queue) = [''m2'']
   \<and> subseq (map (released 1) (held 1 sample_queue))
       (ready (adoptCreation 1 (handleInterrupt (snd (handleResponseCycleEnd sample_queue)))))"
proof -
  have "queue_steps 1 sample_queue (snd (handleResponseCycleEnd sample_queue))"
    by (rule queue_steps.q_step [OF queue_steps.q_refl queue_step.q_cycle_end])
  then have steps: "queue_steps 1 sample_queue (handleInterrupt (snd (handleResponseCycleEnd sample_queue)))"
    by (rule queue_steps.q_step [OF _ queue_step.q_interrupt])
  have "map item_id (held 1 sample_queue) = [''m2'']" "held_queued 1 sample_queue" by code_simp+
  with held_messages_wait_for_their_session [OF steps] show ?thesis by blast
qed

lemma failed_send_is_retried_witness:
  "peek (handleSendFailure (fst (dequeue sample_queue)) (snd (dequeue sample_queue))) = None"
proof -
  have "fst (dequeue sample_queue) \<noteq> None" by code_simp
  then obtain i where i: "fst (dequeue sample_queue) = Some i" by blast
  then have "dequeue sample_queue = (Some i, snd (dequeue sample_queue))" by (metis prod.collapse)
  from failed_send_is_retried [OF this] i show ?thesis by simp
qed

end
