(* ===== verification/QueueStore.thy ===== *)
theory QueueStore
  imports MessageQueue
begin

text \<open>
  The queue of the attached session and its copies in local storage (\<open>features/chat/hooks/useMessageQueue.js\<close>
  with \<open>updateStoredList\<close> of \<open>utils/storedList.js\<close>). \<open>stored\<close> is local storage under the queue's prefix; a
  JSON round trip of an item is the item. A message being sent is in \<open>sending\<close>, with the session and the
  container it was aimed at, until its request settles. Storage is taken to accept every write.
\<close>

record queue_hook =
  manager :: queue
  queueItems :: "queue_item list"
  stored :: "string \<Rightarrow> queue_item list option"
  session :: "string option"
  container :: "string option"
  sending :: "(string option \<times> string option \<times> queue_item) list"
  prevResultCount :: nat
  prevCompactionCount :: nat
  wasLoading :: bool

definition initial_hook :: queue_hook where
  "initial_hook = \<lparr>manager = empty_queue, queueItems = [], stored = (\<lambda>_. None), session = None,
     container = None, sending = [], prevResultCount = 0, prevCompactionCount = 0, wasLoading = False\<rparr>"

definition unheld :: "queue_item list \<Rightarrow> queue_item list" where
  "unheld xs = filter (\<lambda>i. held_for i = None) xs"

definition put_list :: "string \<Rightarrow> 'a list \<Rightarrow> (string \<Rightarrow> 'a list option) \<Rightarrow> string \<Rightarrow> 'a list option" where
  "put_list key xs store = store(key := if xs = [] then None else Some xs)"

definition updateStoredList ::
    "string \<Rightarrow> ('a list \<Rightarrow> 'a list) \<Rightarrow> (string \<Rightarrow> 'a list option) \<Rightarrow> string \<Rightarrow> 'a list option" where
  "updateStoredList key fn store =
     put_list key (fn (case store key of None \<Rightarrow> [] | Some xs \<Rightarrow> xs)) store"

text \<open>The listener of the manager, run when an operation notified it.\<close>

definition onChange :: "queue_hook \<Rightarrow> queue_hook" where
  "onChange h = h\<lparr>queueItems := items (manager h),
     stored := (case session h of
        None \<Rightarrow> stored h | Some key \<Rightarrow> put_list key (unheld (items (manager h))) (stored h))\<rparr>"

definition set_manager :: "queue \<Rightarrow> queue_hook \<Rightarrow> queue_hook" where
  "set_manager q h =
     (if notified q = notified (manager h) then h\<lparr>manager := q\<rparr> else onChange (h\<lparr>manager := q\<rparr>))"

definition on_manager :: "(queue \<Rightarrow> queue) \<Rightarrow> queue_hook \<Rightarrow> queue_hook" where
  "on_manager f h = set_manager (f (manager h)) h"

definition settleSendFailure :: "string option \<Rightarrow> queue_item option \<Rightarrow> queue_hook \<Rightarrow> queue_hook" where
  "settleSendFailure own failedItem h =
     (case own of
        None \<Rightarrow> on_manager (handleSendFailure failedItem) h
      | Some key \<Rightarrow>
          if key = [] \<or> session h = Some key then on_manager (handleSendFailure failedItem) h
          else h\<lparr>stored := updateStoredList key (\<lambda>xs. withSendFailure xs failedItem) (stored h)\<rparr>)"

definition sendItem :: "string option \<Rightarrow> queue_item \<Rightarrow> queue_hook \<Rightarrow> queue_hook" where
  "sendItem own i h = h\<lparr>sending := sending h @ [(own, container h, i)]\<rparr>"

text \<open>\<open>sendFn\<close> of the \<open>n\<close>-th item being sent resolves to \<open>sent\<close>; a message sent directly from the composer.\<close>

definition sendSettles :: "nat \<Rightarrow> bool \<Rightarrow> queue_hook \<Rightarrow> queue_hook" where
  "sendSettles n sent h =
     (let h' = h\<lparr>sending := take n (sending h) @ drop (Suc n) (sending h)\<rparr>
      in if sent then h'
         else settleSendFailure (fst (sending h ! n)) (Some (snd (snd (sending h ! n)))) h')"

definition directSendSettles :: "string option \<Rightarrow> bool \<Rightarrow> queue_hook \<Rightarrow> queue_hook" where
  "directSendSettles own sent h = (if sent then h else settleSendFailure own None h)"

definition drain :: "queue_hook \<Rightarrow> queue_hook" where
  "drain h =
     (if \<not> hasQueued (manager h) then h
      else case handleResponseCycleEnd (manager h) of
        (None, q) \<Rightarrow> set_manager q h
      | (Some i, q) \<Rightarrow> sendItem (session h) i (set_manager q h))"

definition responseCycleEffect :: "nat \<Rightarrow> nat \<Rightarrow> bool \<Rightarrow> queue_hook \<Rightarrow> queue_hook" where
  "responseCycleEffect results compactions isLoading h =
     (let advanced = (prevResultCount h < results \<or> prevCompactionCount h < compactions);
          h' = h\<lparr>prevResultCount := results, prevCompactionCount := compactions, wasLoading := isLoading\<rparr>
      in if isLoading \<or> wasLoading h then h' else if advanced then drain h' else h')"

definition interruptEffect :: "string option \<Rightarrow> queue_hook \<Rightarrow> queue_hook" where
  "interruptEffect interruptStatus h =
     (if interruptStatus = Some ''stopping'' \<or> interruptStatus = Some ''stopped''
      then on_manager handleInterrupt h else h)"

text \<open>The session changes: the refs follow the render, then the effect restores what is stored.\<close>

definition switchSession :: "string option \<Rightarrow> string option \<Rightarrow> queue_hook \<Rightarrow> queue_hook" where
  "switchSession sid cid h =
     (let h' = h\<lparr>session := sid, container := cid\<rparr>;
          xs = (case sid of None \<Rightarrow> [] | Some key \<Rightarrow> (case stored h key of None \<Rightarrow> [] | Some xs \<Rightarrow> xs))
      in on_manager (restore xs) h')"

definition returnFailedMessage :: "string option \<Rightarrow> string \<Rightarrow> int \<Rightarrow> string \<Rightarrow> jval list \<Rightarrow> queue_hook \<Rightarrow> queue_hook" where
  "returnFailedMessage own i now c as h = settleSendFailure own (Some (failedMessageItem i now c as)) h"

definition sendNow :: "string \<Rightarrow> queue_hook \<Rightarrow> queue_hook" where
  "sendNow x h =
     (case sendNowItem x (manager h) of
        (None, q) \<Rightarrow> set_manager q h
      | (Some i, q) \<Rightarrow> sendItem (session h) i (set_manager q h))"

section \<open>What happens to a queue\<close>

text \<open>
  \<open>hook_step X\<close>: a step in which the user removes none of the messages \<open>X\<close> and no send of one of them
  succeeds. As the callers do, a message is queued without a session only for a creation, held messages
  are adopted with a session attached, and a message that comes back names the session it was sent in.
\<close>

inductive hook_step :: "string set \<Rightarrow> queue_hook \<Rightarrow> queue_hook \<Rightarrow> bool" for X where
  h_enqueue: "session h \<noteq> None \<or> msg_owner m \<noteq> None \<Longrightarrow> hook_step X h (on_manager (enqueueMessage m) h)"
| h_cycle: "session h \<noteq> None \<Longrightarrow> hook_step X h (responseCycleEffect r c l h)"
| h_interrupt: "hook_step X h (interruptEffect s h)"
| h_switch: "sid \<noteq> Some [] \<Longrightarrow> hook_step X h (switchSession sid cid h)"
| h_settle: "n < length (sending h) \<Longrightarrow> (sent \<Longrightarrow> item_id (snd (snd (sending h ! n))) \<notin> X) \<Longrightarrow>
    hook_step X h (sendSettles n sent h)"
| h_direct: "hook_step X h (directSendSettles own sent h)"
| h_return: "own \<noteq> [] \<Longrightarrow> hook_step X h (returnFailedMessage (Some own) i now c as h)"
| h_edit: "x \<notin> X \<Longrightarrow> hook_step X h (on_manager (\<lambda>q. snd (editItem x q)) h)"
| h_cancel: "x \<notin> X \<Longrightarrow> hook_step X h (on_manager (cancelItem x) h)"
| h_requeue: "hook_step X h (on_manager (requeueItem x) h)"
| h_send_now: "session h \<noteq> None \<Longrightarrow> hook_step X h (sendNow x h)"
| h_take: "(\<And>i. i \<in> set (items (manager h)) \<Longrightarrow> held_for i = Some seq \<Longrightarrow> item_id i \<notin> X) \<Longrightarrow>
    hook_step X h (on_manager (\<lambda>q. snd (takeCreation seq q)) h)"
| h_adopt: "session h \<noteq> None \<Longrightarrow> hook_step X h (on_manager (adoptCreation seq) h)"

inductive hook_steps :: "string set \<Rightarrow> queue_hook \<Rightarrow> queue_hook \<Rightarrow> bool" for X where
  h_refl: "hook_steps X h h"
| h_step: "hook_steps X g h \<Longrightarrow> hook_step X h k \<Longrightarrow> hook_steps X g k"

definition in_session :: "queue_hook \<Rightarrow> string \<Rightarrow> queue_item list" where
  "in_session h key = (case stored h key of None \<Rightarrow> [] | Some xs \<Rightarrow> xs)"

text \<open>Local storage mirrors the attached session's queue; only held messages have no session; nothing in
  storage is held, and what is being sent came from a session.\<close>

definition hook_inv :: "queue_hook \<Rightarrow> bool" where
  "hook_inv h \<longleftrightarrow>
     (case session h of
        None \<Rightarrow> unheld (items (manager h)) = []
      | Some key \<Rightarrow> key \<noteq> [] \<and> in_session h key = unheld (items (manager h))) \<and>
     (\<forall>key. \<forall>i \<in> set (in_session h key). held_for i = None) \<and>
     (\<forall>(own, cid, i) \<in> set (sending h). own \<noteq> None \<and> own \<noteq> Some [] \<and> held_for i = None)"

definition located :: "string \<Rightarrow> queue_hook \<Rightarrow> bool" where
  "located x h \<longleftrightarrow>
     x \<in> item_id ` set (items (manager h)) \<or> (\<exists>key. x \<in> item_id ` set (in_session h key)) \<or>
     x \<in> (\<lambda>(own, cid, i). item_id i) ` set (sending h)"

lemma in_session_put: "in_session (h\<lparr>stored := put_list key xs (stored h)\<rparr>) k = (if k = key then xs else in_session h k)"
  by (simp add: in_session_def put_list_def)

lemma in_session_cong: "stored h = stored h' \<Longrightarrow> in_session h k = in_session h' k"
  by (simp add: in_session_def)

text \<open>An operation of the manager is faithful when it notifies whenever it changes what is stored.\<close>

definition reports :: "(queue \<Rightarrow> queue) \<Rightarrow> bool" where
  "reports f \<longleftrightarrow> (\<forall>q. notified (f q) = notified q \<longrightarrow> items (f q) = items q)"

lemma set_manager_fields [simp]:
  "manager (set_manager q h) = q" "session (set_manager q h) = session h" "sending (set_manager q h) = sending h"
  "container (set_manager q h) = container h"
  by (simp_all add: set_manager_def onChange_def)

lemma in_session_set_manager:
  assumes "notified q = notified (manager h) \<longrightarrow> items q = items (manager h)" and "hook_inv h"
  shows "in_session (set_manager q h) k =
    (if session h = Some k then unheld (items q) else in_session h k)"
  using assms by (auto simp: set_manager_def onChange_def hook_inv_def in_session_def put_list_def
      split: option.splits)

lemma unheld_held_for [dest]: "i \<in> set (unheld xs) \<Longrightarrow> held_for i = None"
  by (simp add: unheld_def)

lemma set_manager_inv:
  assumes "notified q = notified (manager h) \<longrightarrow> items q = items (manager h)" and "hook_inv h"
    and "session h = None \<Longrightarrow> unheld (items q) = []"
  shows "hook_inv (set_manager q h)"
  using assms(2,3) unfolding hook_inv_def
  by (auto simp: in_session_set_manager [OF assms(1,2)] split: option.splits if_splits)

lemma located_set_manager:
  assumes "notified q = notified (manager h) \<longrightarrow> items q = items (manager h)" and "hook_inv h"
    and "located x h" and "x \<in> item_id ` set (items (manager h)) \<Longrightarrow> x \<in> item_id ` set (items q)"
  shows "located x (set_manager q h)"
proof -
  note stored' = in_session_set_manager [OF assms(1,2)]
  have here: "x \<in> item_id ` set (items (manager h))"
    if "session h = Some key" "x \<in> item_id ` set (in_session h key)" for key
  proof -
    from that(1) assms(2) have "in_session h key = unheld (items (manager h))" by (simp add: hook_inv_def)
    with that(2) show ?thesis by (auto simp: unheld_def)
  qed
  from assms(3) consider "x \<in> item_id ` set (items (manager h))"
    | key where "session h \<noteq> Some key" "x \<in> item_id ` set (in_session h key)"
    | "x \<in> (\<lambda>(own, cid, i). item_id i) ` set (sending h)"
    unfolding located_def using here by blast
  then show ?thesis
  proof cases
    case 1
    with assms(4) show ?thesis by (simp add: located_def)
  next
    case (2 key)
    then have "x \<in> item_id ` set (in_session (set_manager q h) key)" by (simp add: stored')
    then show ?thesis unfolding located_def by blast
  next
    case 3
    then show ?thesis by (simp add: located_def)
  qed
qed

text \<open>The operations of the manager, one by one: they report, and they keep the ids they do not name.\<close>

lemma reports_ops [simp]:
  "reports (enqueueMessage m)" "reports (handleSendFailure f)" "reports handleInterrupt"
  "reports (\<lambda>q. snd (editItem x q))" "reports (cancelItem x)" "reports (requeueItem x)"
  "reports (\<lambda>q. snd (takeCreation seq q))" "reports (adoptCreation seq)" "reports (restore xs)"
  "reports (\<lambda>q. snd (sendNowItem x q))" "reports (\<lambda>q. snd (handleResponseCycleEnd q))"
proof -
  have pause: "map pausedItem xs = xs" if "\<not> list_ex isSendable xs" for xs
    using that by (induction xs) (auto simp: pausedItem_def)
  show "reports handleInterrupt"
    by (auto simp: reports_def handleInterrupt_def pauseAll_def set_items_def hasQueued_def pause)
qed (auto simp: reports_def enqueueMessage_def enqueue_def set_items_def handleSendFailure_def editItem_def
    removeById_def remove_where_def cancelItem_def requeueItem_def takeCreation_def Let_def adoptCreation_def
    restore_def sendNowItem_def handleResponseCycleEnd_def dequeue_def split: option.splits if_splits)

lemma reportsD: "reports f \<Longrightarrow> notified (f q) = notified q \<longrightarrow> items (f q) = items q"
  by (simp add: reports_def)

lemma pausedItem_fields [simp]: "item_id (pausedItem i) = item_id i" "held_for (pausedItem i) = held_for i"
  by (simp_all add: pausedItem_def)

lemma released_id [simp]: "item_id (released seq i) = item_id i"
  by (simp add: released_def)

lemma remove_where_items:
  "mset (items q) = (case fst (remove_where p q) of None \<Rightarrow> {#} | Some i \<Rightarrow> {#i#}) + mset (items (snd (remove_where p q)))
   \<and> (\<forall>i. fst (remove_where p q) = Some i \<longrightarrow> p i)"
proof (cases "remove_where p q")
  case (Pair y q')
  then show ?thesis
    by (cases y) (auto dest: remove_where_None elim: remove_where_Some)
qed

lemma set_remove_where:
  "set (items q) = set_option (fst (remove_where p q)) \<union> set (items (snd (remove_where p q)))"
  using remove_where_items [of q p, THEN conjunct1, THEN arg_cong, of set_mset]
  by (auto split: option.splits)

lemma sendNow_is_removal:
  "sendNowItem x q = (None, q) \<or> (sendNowItem x q = removeById x q \<and>
     (\<forall>i. fst (removeById x q) = Some i \<longrightarrow> held_for i = None))"
proof (cases "find (\<lambda>i. item_id i = x) (items q)")
  case None
  then have "take_first (\<lambda>i. item_id i = x) (items q) = None"
    by (auto simp: take_first_None find_None_iff filter_empty_conv)
  then show ?thesis by (simp add: sendNowItem_def None removeById_def remove_where_def)
next
  case (Some i)
  have "take_first p xs = Some (j, ys) \<Longrightarrow> find p xs = Some j" for p j and xs ys :: "queue_item list"
    by (induction xs arbitrary: ys) (auto split: if_splits)
  with Some show ?thesis
    by (auto simp: sendNowItem_def removeById_def remove_where_def split: option.splits)
qed

section \<open>No message is lost\<close>

definition kept :: "string set \<Rightarrow> queue_hook \<Rightarrow> queue_hook \<Rightarrow> bool" where
  "kept X h k \<longleftrightarrow> hook_inv k \<and> (\<forall>x \<in> X. located x h \<longrightarrow> located x k)"

lemma kept_on_manager:
  assumes "reports f" and "hook_inv h"
    and "session h = None \<Longrightarrow> unheld (items (manager h)) = [] \<Longrightarrow> unheld (items (f (manager h))) = []"
    and "\<And>x. x \<in> X \<Longrightarrow> x \<in> item_id ` set (items (manager h)) \<Longrightarrow> x \<in> item_id ` set (items (f (manager h)))"
  shows "kept X h (on_manager f h)"
proof -
  note rep = reportsD [OF assms(1), of "manager h"]
  have "session h = None \<Longrightarrow> unheld (items (manager h)) = []" using assms(2) by (simp add: hook_inv_def)
  with assms(3) have "hook_inv (set_manager (f (manager h)) h)" by (intro set_manager_inv [OF rep assms(2)]) blast
  with located_set_manager [OF rep assms(2)] assms(4) show ?thesis by (auto simp: kept_def on_manager_def)
qed

lemma unheld_pausedItem: "unheld (map pausedItem xs) = map pausedItem (unheld xs)"
  by (simp add: unheld_def filter_map comp_def)

lemma withSendFailure_ids:
  "item_id ` set (withSendFailure xs f) = item_id ` set_option f \<union> item_id ` set xs"
  by (cases f) (auto simp: withSendFailure_def image_image)

lemma same_messages:
  assumes "manager k = manager h" "session k = session h" "stored k = stored h"
  shows "in_session k = in_session h"
    and "sending k = sending h \<Longrightarrow> hook_inv k = hook_inv h"
    and "sending k = sending h \<Longrightarrow> located x k = located x h"
proof -
  show *: "in_session k = in_session h" using assms by (simp add: in_session_def fun_eq_iff)
  show "hook_inv k = hook_inv h" if "sending k = sending h" unfolding hook_inv_def assms * that ..
  show "located x k = located x h" if "sending k = sending h" unfolding located_def assms * that ..
qed

lemma hook_inv_sending:
  "hook_inv h \<Longrightarrow> (\<forall>(own, cid, i) \<in> set es. own \<noteq> None \<and> own \<noteq> Some [] \<and> held_for i = None) \<Longrightarrow> hook_inv (h\<lparr>sending := es\<rparr>)"
  using same_messages(1) [of "h\<lparr>sending := es\<rparr>" h] unfolding hook_inv_def by (simp split: option.splits)

lemma settle_here:
  assumes "hook_inv h" and "\<And>i. f = Some i \<Longrightarrow> held_for i = None" and "session h = None \<Longrightarrow> f = None"
  shows "kept X h (on_manager (handleSendFailure f) h)
    \<and> (\<forall>i. f = Some i \<longrightarrow> located (item_id i) (on_manager (handleSendFailure f) h))"
proof
  show "kept X h (on_manager (handleSendFailure f) h)"
    using assms(3)
    by (intro kept_on_manager [OF reports_ops(2) assms(1)])
      (auto simp: handleSendFailure_def withSendFailure_ids, simp add: withSendFailure_def unheld_pausedItem)
  show "\<forall>i. f = Some i \<longrightarrow> located (item_id i) (on_manager (handleSendFailure f) h)"
    by (auto simp: located_def on_manager_def handleSendFailure_def withSendFailure_ids)
qed

lemma settle_elsewhere:
  assumes "hook_inv h" and "\<And>i. f = Some i \<Longrightarrow> held_for i = None" and "key \<noteq> []" and "session h \<noteq> Some key"
    and k: "k = h\<lparr>stored := updateStoredList key (\<lambda>xs. withSendFailure xs f) (stored h)\<rparr>"
  shows "kept X h k \<and> (\<forall>i. f = Some i \<longrightarrow> located (item_id i) k)"
proof -
  have here: "in_session k j = (if j = key then withSendFailure (in_session h key) f else in_session h j)" for j
    unfolding k updateStoredList_def in_session_put by (simp add: in_session_def)
  have unh: "\<forall>i \<in> set (in_session h j). held_for i = None" for j using assms(1) by (simp add: hook_inv_def)
  then have "\<forall>i \<in> set (in_session k j). held_for i = None" for j
    using assms(2) by (auto simp: here withSendFailure_def split: option.splits)
  moreover have "session k = session h" "manager k = manager h" "sending k = sending h" by (simp_all add: k)
  ultimately have "hook_inv k"
    using assms(1,4) by (auto simp: hook_inv_def here split: option.splits)
  moreover have "located x k" if "located x h" for x
  proof -
    have "x \<in> item_id ` set (in_session k j)" if "x \<in> item_id ` set (in_session h j)" for j
      using that by (auto simp: here withSendFailure_ids)
    with that show ?thesis
      unfolding located_def \<open>manager k = manager h\<close> \<open>sending k = sending h\<close> by blast
  qed
  moreover have "located (item_id i) k" if "f = Some i" for i
  proof -
    have "item_id i \<in> item_id ` set (in_session k key)" using that by (simp add: here withSendFailure_ids)
    then show ?thesis unfolding located_def by blast
  qed
  ultimately show ?thesis by (simp add: kept_def)
qed

lemma settle_kept:
  assumes "hook_inv h" and "\<And>i. f = Some i \<Longrightarrow> held_for i = None \<and> own \<noteq> None \<and> own \<noteq> Some []"
  shows "kept X h (settleSendFailure own f h) \<and> (\<forall>i. f = Some i \<longrightarrow> located (item_id i) (settleSendFailure own f h))"
proof (cases "own = None \<or> own = Some [] \<or> own = session h")
  case True
  then have "settleSendFailure own f h = on_manager (handleSendFailure f) h"
    by (auto simp: settleSendFailure_def split: option.splits)
  moreover have "session h = None \<Longrightarrow> f = None" using True assms(2) by (cases f) auto
  ultimately show ?thesis using settle_here [OF assms(1), of f X] assms(2) by auto
next
  case False
  then obtain key where own: "own = Some key" by (cases own) auto
  with False have "key \<noteq> []" "session h \<noteq> Some key" by auto
  with own settle_elsewhere [OF assms(1) _ this refl, of f X] assms(2) show ?thesis
    by (simp add: settleSendFailure_def)
qed

lemma kept_trans: "kept X g h \<Longrightarrow> kept X h k \<Longrightarrow> kept X g k"
  by (auto simp: kept_def)

lemma kept_refl: "hook_inv h \<Longrightarrow> kept X h h"
  by (simp add: kept_def)

lemma kept_send:
  assumes inv: "hook_inv h" and "session h \<noteq> None" and rep: "notified q = notified (manager h) \<longrightarrow> items q = items (manager h)"
    and items: "set (items (manager h)) = insert i (set (items q))" and "held_for i = None"
  shows "kept X h (sendItem (session h) i (set_manager q h))"
proof -
  let ?h = "set_manager q h"
  have "hook_inv ?h" using assms(2) by (intro set_manager_inv [OF rep inv]) simp
  moreover have "\<forall>(own, cid, i) \<in> set (sending ?h @ [(session h, container h, i)]). own \<noteq> None \<and> own \<noteq> Some [] \<and> held_for i = None"
    using inv assms(2,5) by (auto simp: hook_inv_def)
  ultimately have "hook_inv (sendItem (session h) i ?h)"
    unfolding sendItem_def using hook_inv_sending by simp
  moreover have "located x (sendItem (session h) i ?h)" if "located x h" for x
  proof (cases "x = item_id i")
    case True
    then show ?thesis by (simp add: located_def sendItem_def)
  next
    case False
    with items have "x \<in> item_id ` set (items (manager h)) \<Longrightarrow> x \<in> item_id ` set (items q)" by auto
    with located_set_manager [OF rep inv that] have "located x ?h" by blast
    then show ?thesis by (auto simp: located_def sendItem_def in_session_def)
  qed
  ultimately show ?thesis by (simp add: kept_def)
qed

lemma kept_drain:
  assumes "hook_inv h" and "session h \<noteq> None"
  shows "kept X h (drain h)"
proof (cases "handleResponseCycleEnd (manager h)")
  case (Pair y q)
  then have dq: "remove_where isSendable (manager h) = (y, q)"
    by (simp add: handleResponseCycleEnd_def dequeue_def)
  have rep: "notified q = notified (manager h) \<longrightarrow> items q = items (manager h)"
    using reportsD [OF reports_ops(11), of "manager h"] Pair by simp
  show ?thesis
  proof (cases y)
    case None
    with dq have "\<not> hasQueued (manager h)"
      using remove_where_None [of isSendable "manager h" q] by (auto simp: hasQueued_def list_ex_iff)
    with assms show ?thesis by (simp add: drain_def kept_refl)
  next
    case (Some i)
    with dq have "set (items (manager h)) = insert i (set (items q))" "held_for i = None"
      using set_remove_where [of "manager h" isSendable] remove_where_items [of "manager h" isSendable]
      by (auto simp: isSendable_def)
    with kept_send [OF assms rep] Some Pair assms show ?thesis
      by (simp add: drain_def kept_refl)
  qed
qed

lemma kept_cycle:
  assumes "hook_inv h" and "session h \<noteq> None"
  shows "kept X h (responseCycleEffect r c l h)"
proof -
  let ?h = "h\<lparr>prevResultCount := r, prevCompactionCount := c, wasLoading := l\<rparr>"
  have "kept X h ?h" using assms(1) same_messages(2,3) [of ?h h] by (simp add: kept_def)
  moreover from this have "kept X ?h (drain ?h)" using assms(2) by (intro kept_drain) (simp_all add: kept_def)
  ultimately show ?thesis
    using kept_trans by (auto simp: responseCycleEffect_def Let_def)
qed

lemma kept_send_now:
  assumes "hook_inv h" and "session h \<noteq> None"
  shows "kept X h (sendNow x h)"
proof (cases "sendNowItem x (manager h)")
  case (Pair y q)
  have rep: "notified q = notified (manager h) \<longrightarrow> items q = items (manager h)"
    using reportsD [of "\<lambda>q. snd (sendNowItem x q)" "manager h"] Pair by simp
  show ?thesis
  proof (cases y)
    case None
    have "q = manager h" if "removeById x (manager h) = (None, q)"
      using that remove_where_None [of "\<lambda>i. item_id i = x" "manager h" q] by (simp add: removeById_def)
    with Pair None sendNow_is_removal [of x "manager h"] have "q = manager h" by (elim disjE) simp_all
    with Pair None assms(1) show ?thesis by (simp add: sendNow_def set_manager_def kept_def)
  next
    case (Some i)
    with Pair sendNow_is_removal [of x "manager h"]
    have rem: "removeById x (manager h) = (Some i, q)" by auto
    moreover from rem Pair Some sendNow_is_removal [of x "manager h"] have "held_for i = None" by simp
    moreover from rem have "set (items (manager h)) = insert i (set (items q))"
      using set_remove_where [of "manager h" "\<lambda>i. item_id i = x"] by (simp add: removeById_def)
    ultimately show ?thesis using kept_send [OF assms rep] Pair Some by (simp add: sendNow_def)
  qed
qed

lemma kept_settles:
  assumes inv: "hook_inv h" and n: "n < length (sending h)"
    and ok: "sent \<Longrightarrow> item_id (snd (snd (sending h ! n))) \<notin> X"
  shows "kept X h (sendSettles n sent h)"
proof -
  let ?h = "h\<lparr>sending := take n (sending h) @ drop (Suc n) (sending h)\<rparr>"
  obtain own cid i where nth: "sending h ! n = (own, cid, i)" by (cases "sending h ! n") auto
  have split: "sending h = take n (sending h) @ (own, cid, i) # drop (Suc n) (sending h)"
    using id_take_nth_drop [OF n] nth by simp
  then have all: "set (sending h) = insert (own, cid, i) (set (sending ?h))"
    by (metis (no_types, lifting) Un_insert_right list.simps(15) queue_hook.select_convs(6)
        queue_hook.simps(14) set_append queue_hook.surjective queue_hook.update_convs(6))
  have "hook_inv ?h"
    using inv by (intro hook_inv_sending) (auto simp: hook_inv_def dest: in_set_takeD in_set_dropD)
  have loc: "x = item_id i \<or> located x ?h" if "located x h" for x
    using that all by (auto simp: located_def in_session_def)
  have src: "own \<noteq> None \<and> own \<noteq> Some [] \<and> held_for i = None"
    using inv n nth nth_mem [OF n] by (fastforce simp: hook_inv_def)
  show ?thesis
  proof (cases sent)
    case True
    with ok nth loc \<open>hook_inv ?h\<close> show ?thesis by (auto simp: sendSettles_def kept_def)
  next
    case False
    with settle_kept [OF \<open>hook_inv ?h\<close>, of "Some i" own X] src loc show ?thesis
      by (auto simp: sendSettles_def nth kept_def)
  qed
qed

text \<open>A session change neither writes storage nor forgets a held message.\<close>

lemma unheld_restored:
  assumes "\<forall>i \<in> set xs. held_for i = None"
  shows "unheld (xs @ filter (\<lambda>i. held_for i \<noteq> None) ys) = xs"
  using assms by (auto simp: unheld_def filter_empty_conv)

lemma switch_result:
  fixes cid :: "string option"
  assumes "hook_inv h" and "sid \<noteq> Some []"
  defines "k \<equiv> switchSession sid cid h"
  shows "session k = sid" "sending k = sending h" "in_session k = in_session h"
    "items (manager k) = (case sid of None \<Rightarrow> [] | Some key \<Rightarrow> in_session h key)
       @ filter (\<lambda>i. held_for i \<noteq> None) (items (manager h))"
proof -
  define xs where "xs = (case sid of None \<Rightarrow> [] | Some key \<Rightarrow> in_session h key)"
  have k: "k = onChange (h\<lparr>session := sid, container := cid, manager := restore xs (manager h)\<rparr>)"
    unfolding k_def switchSession_def on_manager_def xs_def
    by (cases sid) (simp_all add: set_manager_def restore_def set_items_def in_session_def)
  then show "session k = sid" "sending k = sending h" by (simp_all add: onChange_def)
  show "items (manager k) = xs @ filter (\<lambda>i. held_for i \<noteq> None) (items (manager h))"
    by (simp add: k onChange_def restore_def)
  show "in_session k = in_session h"
  proof
    fix j
    have "\<forall>i \<in> set xs. held_for i = None" using assms(1) by (auto simp: xs_def hook_inv_def split: option.splits)
    from unheld_restored [OF this] show "in_session k j = in_session h j"
      by (auto simp: k onChange_def restore_def in_session_def put_list_def xs_def split: option.splits)
  qed
qed

lemma kept_switch:
  assumes "hook_inv h" and "sid \<noteq> Some []"
  shows "kept X h (switchSession sid cid h)"
proof -
  let ?k = "switchSession sid cid h"
  note k = switch_result [OF assms, of cid]
  have stored_plain: "\<forall>i \<in> set (in_session h key). held_for i = None" for key
    using assms(1) by (simp add: hook_inv_def)
  have "unheld (items (manager ?k)) = (case sid of None \<Rightarrow> [] | Some key \<Rightarrow> in_session h key)"
    unfolding k(4) using stored_plain by (intro unheld_restored) (auto split: option.splits)
  then have "hook_inv ?k"
    using assms unfolding hook_inv_def k(1-3) by (cases sid) simp_all
  moreover have "located x ?k" if "located x h" for x
  proof (cases "x \<in> item_id ` set (unheld (items (manager h)))")
    case True
    then obtain key where "session h = Some key" "x \<in> item_id ` set (in_session h key)"
      using assms(1) by (auto simp: hook_inv_def split: option.splits)
    then show ?thesis unfolding located_def k(3) by blast
  next
    case False
    have "x \<in> item_id ` set (items (manager ?k))" if "x \<in> item_id ` set (items (manager h))"
    proof -
      from that obtain i where i: "i \<in> set (items (manager h))" "item_id i = x" by blast
      with False have "i \<in> set (filter (\<lambda>i. held_for i \<noteq> None) (items (manager h)))" by (auto simp: unheld_def)
      then have "i \<in> set (items (manager ?k))" unfolding k(4) by simp
      with i(2) show ?thesis by blast
    qed
    with that show ?thesis unfolding located_def k(2,3) by blast
  qed
  ultimately show ?thesis by (simp add: kept_def)
qed

lemma removed_ids:
  assumes "y \<noteq> x" and "y \<in> item_id ` set (items q)"
  shows "y \<in> item_id ` set (items (snd (remove_where (\<lambda>i. item_id i = x) q)))"
proof -
  from assms(2) obtain i where i: "i \<in> set (items q)" "item_id i = y" by blast
  have "i \<notin> set_option (fst (remove_where (\<lambda>i. item_id i = x) q))"
    using remove_where_items [of q "\<lambda>i. item_id i = x", THEN conjunct2] i(2) assms(1) by auto
  with set_remove_where [of q "\<lambda>i. item_id i = x"] i
  have "i \<in> set (items (snd (remove_where (\<lambda>i. item_id i = x) q)))" by blast
  with i(2) show ?thesis by blast
qed

lemma removed_unheld:
  "unheld (items q) = [] \<Longrightarrow> unheld (items (snd (remove_where p q))) = []"
  using set_remove_where [of q p] by (auto simp: unheld_def filter_empty_conv)

lemma requeue_map:
  "(\<And>i st. g (i\<lparr>item_status := st\<rparr>) = g i) \<Longrightarrow> map g (items (requeueItem x q)) = map g (items q)"
  using map_update_at [of g "item_status_update (\<lambda>_. QUEUED)"]
  by (auto simp: requeueItem_def split: option.splits)

lemma hook_step_kept: "hook_step X h k \<Longrightarrow> hook_inv h \<Longrightarrow> kept X h k"
proof (induction rule: hook_step.induct)
  case (h_enqueue h m)
  then show ?case
    by (intro kept_on_manager [OF reports_ops(1)]) (auto simp: enqueueMessage_push push_item_def queued_item_def unheld_def)
next
  case (h_interrupt h s)
  have "kept X h (on_manager handleInterrupt h)"
    using h_interrupt
    by (intro kept_on_manager [OF reports_ops(3)]) (auto simp: handleInterrupt_def pauseAll_def unheld_pausedItem image_image)
  with h_interrupt show ?case by (simp add: interruptEffect_def kept_refl)
next
  case (h_direct h own sent)
  then show ?case using settle_kept [of h None own X] by (auto simp: directSendSettles_def kept_refl)
next
  case (h_return own h i now c as)
  then show ?case
    using settle_kept [of h "Some (failedMessageItem i now c as)" "Some own" X]
    by (auto simp: returnFailedMessage_def failedMessageItem_def)
next
  case (h_edit x h)
  then show ?case
    by (intro kept_on_manager [OF reports_ops(4)]) (auto simp: editItem_def removeById_def intro!: removed_unheld removed_ids)
next
  case (h_cancel x h)
  then show ?case
    by (intro kept_on_manager [OF reports_ops(5)]) (auto simp: cancelItem_def intro!: removed_unheld removed_ids)
next
  case (h_requeue h x)
  have ids: "item_id ` set (items (requeueItem x q)) = item_id ` set (items q)" for q
    using arg_cong [OF requeue_map [of item_id x q], of set] by simp
  have "held_for ` set (items (requeueItem x q)) = held_for ` set (items q)" for q
    using arg_cong [OF requeue_map [of held_for x q], of set] by simp
  moreover have "unheld xs = [] \<longleftrightarrow> None \<notin> held_for ` set xs" for xs
    by (force simp: unheld_def filter_empty_conv)
  ultimately have "unheld (items (requeueItem x q)) = [] \<longleftrightarrow> unheld (items q) = []" for q by simp
  with h_requeue ids show ?case by (intro kept_on_manager [OF reports_ops(6)]) simp_all
next
  case (h_take h seq)
  then show ?case by (intro kept_on_manager [OF reports_ops(7)]) (auto simp: takeCreation_def Let_def unheld_def filter_empty_conv)
next
  case (h_adopt h seq)
  then show ?case by (intro kept_on_manager [OF reports_ops(8)]) (auto simp: adoptCreation_def image_image)
qed (simp_all add: kept_cycle kept_switch kept_settles kept_send_now)

lemma hook_steps_kept: "hook_steps X h k \<Longrightarrow> hook_inv h \<Longrightarrow> kept X h k"
proof (induction rule: hook_steps.induct)
  case (h_refl h)
  then show ?case by (rule kept_refl)
next
  case (h_step g h k)
  then have "kept X g h" by simp
  moreover from this h_step.hyps(2) have "kept X h k" by (intro hook_step_kept) (simp_all add: kept_def)
  ultimately show ?case by (rule kept_trans)
qed

lemma initial_hook_inv: "hook_inv initial_hook"
  by (simp add: hook_inv_def initial_hook_def unheld_def in_session_def empty_queue_def)

text \<open>C14. A message is never lost: whatever is sent, fails, is interrupted, and however the user moves
  between sessions, a message in the queue stays in it, in some session's saved queue or on its way to
  the server, until its send succeeds or the user takes it back.\<close>

theorem queued_message_never_lost:
  assumes "hook_steps {} initial_hook h" and "located x h" and "hook_steps {x} h k"
  shows "located x k"
proof -
  from hook_steps_kept [OF assms(1) initial_hook_inv] have "hook_inv h" by (simp add: kept_def)
  from hook_steps_kept [OF assms(3) this] assms(2) show ?thesis by (simp add: kept_def)
qed

text \<open>Leaving a session and coming back restores its queue: the same messages in the same order and
  status, with the held ones behind them, and the session in between is left as it was.\<close>

theorem session_switch_restores_queue:
  assumes "hook_steps {} initial_hook h" and "session h = Some a" and "b \<noteq> Some []"
  shows "items (manager (switchSession (Some a) cid (switchSession b cid' h)))
      = unheld (items (manager h)) @ filter (\<lambda>i. held_for i \<noteq> None) (items (manager h))
    \<and> in_session (switchSession (Some a) cid (switchSession b cid' h)) = in_session h"
proof -
  from hook_steps_kept [OF assms(1) initial_hook_inv] have inv: "hook_inv h" by (simp add: kept_def)
  with assms(2) have a: "Some a \<noteq> Some []" "in_session h a = unheld (items (manager h))"
    by (simp_all add: hook_inv_def)
  let ?m = "switchSession b cid' h"
  note m = switch_result [OF inv assms(3), of cid']
  have "hook_inv ?m" using kept_switch [OF inv assms(3)] by (simp add: kept_def)
  note k = switch_result [OF this a(1), of cid]
  have plain: "filter (\<lambda>i. held_for i \<noteq> None) (in_session h key) = []" for key
    using inv by (auto simp: hook_inv_def filter_empty_conv)
  then have "filter (\<lambda>i. held_for i \<noteq> None) (items (manager ?m)) = filter (\<lambda>i. held_for i \<noteq> None) (items (manager h))"
    unfolding m(4) by (cases b) simp_all
  with k(3,4) m(3) a(2) show ?thesis by simp
qed

section \<open>Witnesses\<close>

definition sample_hook :: queue_hook where
  "sample_hook = on_manager (enqueueMessage (sample_message ''m1'' None)) (switchSession (Some ''s1'') None initial_hook)"

lemma sample_hook_reached: "hook_steps {} initial_hook sample_hook"
proof -
  have "hook_steps {} initial_hook (switchSession (Some ''s1'') None initial_hook)"
    by (rule hook_steps.h_step [OF hook_steps.h_refl hook_step.h_switch]) simp
  moreover have "session (switchSession (Some ''s1'') None initial_hook) \<noteq> None" by code_simp
  ultimately show ?thesis
    unfolding sample_hook_def by (blast intro: hook_steps.h_step hook_step.h_enqueue)
qed

lemma queued_message_never_lost_witness:
  "located ''m1'' (switchSession (Some ''s2'') None (interruptEffect (Some ''stopping'') sample_hook))"
proof -
  have "''m1'' \<in> item_id ` set (items (manager sample_hook))" by code_simp
  then have "located ''m1'' sample_hook" by (simp add: located_def)
  moreover have "hook_steps {''m1''} sample_hook (interruptEffect (Some ''stopping'') sample_hook)"
    by (rule hook_steps.h_step [OF hook_steps.h_refl hook_step.h_interrupt])
  then have "hook_steps {''m1''} sample_hook
      (switchSession (Some ''s2'') None (interruptEffect (Some ''stopping'') sample_hook))"
    by (rule hook_steps.h_step) (rule hook_step.h_switch, simp)
  ultimately show ?thesis by (rule queued_message_never_lost [OF sample_hook_reached])
qed

lemma session_switch_restores_queue_witness:
  "map item_id (items (manager (switchSession (Some ''s1'') None (switchSession None None sample_hook)))) = [''m1'']"
proof -
  have "session sample_hook = Some ''s1''" by code_simp
  from session_switch_restores_queue [OF sample_hook_reached this, of None None None]
  have "items (manager (switchSession (Some ''s1'') None (switchSession None None sample_hook)))
    = unheld (items (manager sample_hook)) @ filter (\<lambda>i. held_for i \<noteq> None) (items (manager sample_hook))"
    by simp
  moreover have "map item_id (unheld (items (manager sample_hook))
      @ filter (\<lambda>i. held_for i \<noteq> None) (items (manager sample_hook))) = [''m1'']"
    by code_simp
  ultimately show ?thesis by simp
qed

end
