(* ===== verification/InputHistory.thy ===== *)
theory InputHistory
  imports Prelude "HOL-Library.Sublist"
begin

text \<open>
  Walking through earlier inputs with the arrow keys (\<open>features/chat/components/chat-input/InputHistoryManager.js\<close>)
  and the cap on what is remembered (\<open>utils/inputHistoryCap.js\<close>). An absent draft stack is the empty one.
\<close>

datatype nav_source = Draft | History

record input_history =
  nav_source :: "nav_source option"
  nav_index :: int
  history_items :: "string list"
  recentAdditions :: "string list"
  draft_current :: string
  draft_stack :: "string list"

definition new_history :: input_history where
  "new_history = \<lparr>nav_source = None, nav_index = -1, history_items = [], recentAdditions = [],
     draft_current = [], draft_stack = []\<rparr>"

definition addRecentAddition :: "string \<Rightarrow> input_history \<Rightarrow> input_history" where
  "addRecentAddition c s = s\<lparr>recentAdditions := recentAdditions s @ [c]\<rparr>"

definition syncRecentAdditions :: "input_history \<Rightarrow> input_history" where
  "syncRecentAdditions s =
     (if recentAdditions s \<noteq> [] \<and> history_items s \<noteq> []
      then s\<lparr>recentAdditions := filter (\<lambda>i. i \<notin> set (history_items s)) (recentAdditions s)\<rparr> else s)"

definition effectiveHistory :: "input_history \<Rightarrow> string list" where
  "effectiveHistory s = history_items s @ recentAdditions s"

text \<open>\<open>xs[xs.length - 1 - i]\<close>, \<open>None\<close> where the index is out of range.\<close>

definition from_end :: "'a list \<Rightarrow> int \<Rightarrow> 'a option" where
  "from_end xs i = (let j = int (length xs) - 1 - i in
     if 0 \<le> j \<and> j < int (length xs) then Some (xs ! nat j) else None)"

definition getDraftItem :: "int \<Rightarrow> input_history \<Rightarrow> string option" where
  "getDraftItem i s = from_end (draft_stack s) i"

definition getHistoryItem :: "int \<Rightarrow> input_history \<Rightarrow> string option" where
  "getHistoryItem i s = from_end (effectiveHistory s) i"

definition move_to :: "nav_source option \<Rightarrow> int \<Rightarrow> input_history \<Rightarrow> input_history" where
  "move_to src i s = s\<lparr>nav_source := src, nav_index := i\<rparr>"

definition resetNavigation :: "input_history \<Rightarrow> input_history" where
  "resetNavigation s = move_to None (-1) s"

definition or_empty :: "string option \<Rightarrow> string" where
  "or_empty x = str_or x []"

text \<open>Both return whether the key was handled and the text to show, if any.\<close>

definition navigateUp :: "bool \<Rightarrow> input_history \<Rightarrow> (bool \<times> string option) \<times> input_history" where
  "navigateUp cursorAtStart s =
     (let stack = draft_stack s; eff = effectiveHistory s;
          draft = (\<lambda>i. ((True, Some (or_empty (getDraftItem i s))), move_to (Some Draft) i s));
          history = (\<lambda>i. ((True, Some (or_empty (getHistoryItem i s))), move_to (Some History) i s))
      in if \<not> cursorAtStart then ((False, None), s)
         else case nav_source s of
           None \<Rightarrow> if stack \<noteq> [] then draft 0 else if eff \<noteq> [] then history 0 else ((False, None), s)
         | Some Draft \<Rightarrow> if nav_index s < int (length stack) - 1 then draft (nav_index s + 1)
                         else if eff \<noteq> [] then history 0 else ((True, None), s)
         | Some History \<Rightarrow> if nav_index s < int (length eff) - 1 then history (nav_index s + 1)
                           else ((True, None), s))"

definition navigateDown ::
    "bool \<Rightarrow> string \<Rightarrow> input_history \<Rightarrow> (bool \<times> string option \<times> string option) \<times> input_history" where
  "navigateDown cursorAtEnd currentValue s =
     (let stack = draft_stack s;
          draft = (\<lambda>i. ((True, Some (or_empty (getDraftItem i s)), None), move_to (Some Draft) i s));
          history = (\<lambda>i. ((True, Some (or_empty (getHistoryItem i s)), None), move_to (Some History) i s));
          fresh = ((True, Some (draft_current s), None), move_to None (-1) s)
      in if \<not> cursorAtEnd then ((False, None, None), s)
         else case nav_source s of
           None \<Rightarrow> if trim currentValue \<noteq> []
             then ((True, Some [], Some currentValue), move_to None (-1) s) else ((False, None, None), s)
         | Some History \<Rightarrow> if 0 < nav_index s then history (nav_index s - 1)
             else if stack \<noteq> [] then draft (int (length stack) - 1) else fresh
         | Some Draft \<Rightarrow> if 0 < nav_index s then draft (nav_index s - 1) else fresh)"

definition setAside :: "string \<Rightarrow> input_history \<Rightarrow> string option \<times> input_history" where
  "setAside currentValue s =
     (let aside = (if nav_source s = None then currentValue else draft_current s)
      in (if trim aside \<noteq> [] then Some aside else None, resetNavigation s))"

definition updateCurrentItem :: "input_history \<Rightarrow> (nav_source \<times> nat) option" where
  "updateCurrentItem s =
     (case nav_source s of
        None \<Rightarrow> None
      | Some src \<Rightarrow>
          let items = (case src of Draft \<Rightarrow> draft_stack s | History \<Rightarrow> history_items s);
              realIndex = int (length items) - 1 - nav_index s
          in if 0 \<le> realIndex \<and> realIndex < int (length items) then Some (src, nat realIndex) else None)"

record submit =
  submit_content :: string
  fromDraft :: bool
  draftIndex :: "int option"
  newStack :: "string list"

definition prepareSubmit :: "string \<Rightarrow> input_history \<Rightarrow> submit \<times> input_history" where
  "prepareSubmit c s =
     (let stack = draft_stack s; realIndex = int (length stack) - 1 - nav_index s
      in (\<lparr>submit_content = c, fromDraft = (nav_source s = Some Draft),
           draftIndex = (if nav_source s = Some Draft then Some (nav_index s) else None),
           newStack = (if nav_source s = Some Draft \<and> 0 \<le> realIndex \<and> realIndex < int (length stack)
                       then take (nat realIndex) stack @ drop (nat realIndex + 1) stack else stack)\<rparr>,
          move_to None (-1) s))"

section \<open>The history as a line\<close>

text \<open>
  What the arrows walk on: the input being written, the drafts set aside from the newest to the oldest,
  then the messages sent from the newest to the oldest. \<open>pos\<close> is where one stands.
\<close>

definition timeline :: "input_history \<Rightarrow> string list" where
  "timeline s = draft_current s # rev (draft_stack s) @ rev (effectiveHistory s)"

definition pos :: "input_history \<Rightarrow> nat" where
  "pos s = (case nav_source s of None \<Rightarrow> 0 | Some Draft \<Rightarrow> nat (nav_index s) + 1
     | Some History \<Rightarrow> length (draft_stack s) + nat (nav_index s) + 1)"

definition nav_valid :: "input_history \<Rightarrow> bool" where
  "nav_valid s \<longleftrightarrow> (case nav_source s of None \<Rightarrow> True
     | Some Draft \<Rightarrow> 0 \<le> nav_index s \<and> nav_index s < int (length (draft_stack s))
     | Some History \<Rightarrow> 0 \<le> nav_index s \<and> nav_index s < int (length (effectiveHistory s)))"

lemma move_to_fields [simp]:
  "nav_source (move_to src i s) = src" "nav_index (move_to src i s) = i" "draft_stack (move_to src i s) = draft_stack s"
  "effectiveHistory (move_to src i s) = effectiveHistory s" "timeline (move_to src i s) = timeline s"
  by (simp_all add: move_to_def effectiveHistory_def timeline_def)

lemma from_end_rev: "0 \<le> i \<Longrightarrow> i < int (length xs) \<Longrightarrow> from_end xs i = Some (rev xs ! nat i)"
  by (auto simp: from_end_def Let_def rev_nth nat_diff_distrib nat_less_iff intro!: arg_cong [of _ _ "(!) xs"])

lemma shown_draft: "0 \<le> i \<Longrightarrow> i < int (length (draft_stack s)) \<Longrightarrow> or_empty (getDraftItem i s) = timeline s ! (nat i + 1)"
  by (simp add: getDraftItem_def from_end_rev or_empty_def str_or_def timeline_def nth_append nat_less_iff)

lemma shown_history: "0 \<le> i \<Longrightarrow> i < int (length (effectiveHistory s)) \<Longrightarrow>
    or_empty (getHistoryItem i s) = timeline s ! (length (draft_stack s) + nat i + 1)"
  by (simp add: getHistoryItem_def from_end_rev or_empty_def str_or_def timeline_def nth_append)

lemma length_timeline: "length (timeline s) = Suc (length (draft_stack s) + length (effectiveHistory s))"
  by (simp add: timeline_def)

lemma length_pred: "xs \<noteq> [] \<Longrightarrow> Suc (nat (int (length xs) - 1)) = length xs"
  by (cases xs) simp_all

lemma valid_index:
  assumes "nav_valid s" and "nav_source s = Some src"
  obtains n where "nav_index s = int n"
    "n < (case src of Draft \<Rightarrow> length (draft_stack s) | History \<Rightarrow> length (effectiveHistory s))"
    "pos s = (case src of Draft \<Rightarrow> Suc n | History \<Rightarrow> Suc (length (draft_stack s) + n))"
proof -
  from assms obtain n where "nav_index s = int n"
    by (cases src) (auto simp: nav_valid_def dest: zero_le_imp_eq_int)
  with assms show thesis by (intro that [of n]) (auto simp: nav_valid_def pos_def split: nav_source.splits)
qed

lemma up_moves:
  assumes "nav_valid s" and "Suc (pos s) < length (timeline s)"
  shows "fst (navigateUp True s) = (True, Some (timeline s ! Suc (pos s)))
    \<and> pos (snd (navigateUp True s)) = Suc (pos s) \<and> nav_valid (snd (navigateUp True s))
    \<and> timeline (snd (navigateUp True s)) = timeline s"
proof (cases "nav_source s")
  case None
  with assms shown_draft [of 0 s] shown_history [of 0 s] show ?thesis
    by (auto simp: navigateUp_def Let_def nav_valid_def pos_def length_timeline)
next
  case (Some src)
  from valid_index [OF assms(1) Some] obtain n where n: "nav_index s = int n"
    "n < (case src of Draft \<Rightarrow> length (draft_stack s) | History \<Rightarrow> length (effectiveHistory s))"
    "pos s = (case src of Draft \<Rightarrow> Suc n | History \<Rightarrow> Suc (length (draft_stack s) + n))" .
  show ?thesis
  proof (cases src)
    case Draft
    show ?thesis
    proof (cases "Suc n < length (draft_stack s)")
      case True
      with Some Draft n shown_draft [of "int n + 1" s] show ?thesis
        by (simp add: navigateUp_def nav_valid_def pos_def nat_add_distrib)
    next
      case False
      with Draft n have "length (draft_stack s) = Suc n" by simp
      moreover from this assms(2) Draft n have "effectiveHistory s \<noteq> []" by (auto simp: length_timeline)
      ultimately show ?thesis using Some Draft n shown_history [of 0 s]
        by (simp add: navigateUp_def nav_valid_def pos_def)
    qed
  next
    case History
    with assms(2) n have "Suc n < length (effectiveHistory s)" by (simp add: length_timeline)
    with Some History n shown_history [of "int n + 1" s] show ?thesis
      by (simp add: navigateUp_def nav_valid_def pos_def nat_add_distrib)
  qed
qed

lemma up_stops:
  assumes "nav_valid s" and "Suc (pos s) = length (timeline s)"
  shows "snd (fst (navigateUp True s)) = None \<and> snd (navigateUp True s) = s"
proof (cases "nav_source s")
  case None
  with assms show ?thesis by (simp add: navigateUp_def pos_def length_timeline)
next
  case (Some src)
  from valid_index [OF assms(1) Some] obtain n where n: "nav_index s = int n"
    "n < (case src of Draft \<Rightarrow> length (draft_stack s) | History \<Rightarrow> length (effectiveHistory s))"
    "pos s = (case src of Draft \<Rightarrow> Suc n | History \<Rightarrow> Suc (length (draft_stack s) + n))" .
  with Some assms(2) show ?thesis 
    by (cases src; cases "effectiveHistory s") (auto simp: navigateUp_def Let_def length_timeline)
qed

lemma down_moves:
  assumes "nav_valid s" and "0 < pos s"
  shows "fst (navigateDown True v s) = (True, Some (timeline s ! (pos s - 1)), None)
    \<and> pos (snd (navigateDown True v s)) = pos s - 1 \<and> nav_valid (snd (navigateDown True v s))
    \<and> timeline (snd (navigateDown True v s)) = timeline s"
proof (cases "nav_source s")
  case None
  with assms show ?thesis by (simp add: pos_def)
next
  case (Some src)
  have now: "timeline s ! 0 = draft_current s" by (simp add: timeline_def)
  from valid_index [OF assms(1) Some] obtain n where n: "nav_index s = int n"
    "n < (case src of Draft \<Rightarrow> length (draft_stack s) | History \<Rightarrow> length (effectiveHistory s))"
    "pos s = (case src of Draft \<Rightarrow> Suc n | History \<Rightarrow> Suc (length (draft_stack s) + n))" .
  show ?thesis
  proof (cases n)
    case 0
    show ?thesis
    proof (cases "src = History \<and> draft_stack s \<noteq> []")
      case True
      with Some n 0 shown_draft [of "int (length (draft_stack s)) - 1" s] length_pred [of "draft_stack s"]
      show ?thesis by (simp add: navigateDown_def Let_def nav_valid_def pos_def)
    next
      case False
      with Some n 0 now show ?thesis
        by (cases src) (simp_all add: navigateDown_def Let_def nav_valid_def pos_def)
    qed
  next
    case (Suc m)
    with Some n shown_draft [of "int m" s] shown_history [of "int m" s] show ?thesis
      by (cases src) (simp_all add: navigateDown_def Let_def nav_valid_def pos_def)
  qed
qed

text \<open>Pressing a key several times, collecting what is shown.\<close>

fun ups :: "nat \<Rightarrow> input_history \<Rightarrow> string list \<times> input_history" where
  "ups 0 s = ([], s)"
| "ups (Suc n) s = (let ((_, v), t) = navigateUp True s; (vs, u) = ups n t in (or_empty v # vs, u))"

fun downs :: "nat \<Rightarrow> input_history \<Rightarrow> string list \<times> input_history" where
  "downs 0 s = ([], s)"
| "downs (Suc n) s = (let ((_, v, _), t) = navigateDown True [] s; (vs, u) = downs n t in (or_empty v # vs, u))"

lemma ups_walk:
  "nav_valid s \<Longrightarrow> pos s + n < length (timeline s) \<Longrightarrow>
   fst (ups n s) = take n (drop (Suc (pos s)) (timeline s)) \<and> pos (snd (ups n s)) = pos s + n \<and>
   nav_valid (snd (ups n s)) \<and> timeline (snd (ups n s)) = timeline s"
proof (induction n arbitrary: s)
  case 0
  then show ?case by simp
next
  case (Suc n)
  then have "Suc (pos s) < length (timeline s)" by simp
  with up_moves [OF Suc.prems(1) this] Suc.IH [of "snd (navigateUp True s)"] Suc.prems
  show ?case
    by (cases "navigateUp True s") (auto simp: case_prod_unfold Let_def or_empty_def str_or_def Cons_nth_drop_Suc [symmetric])
qed

lemma downs_walk:
  "nav_valid s \<Longrightarrow> n \<le> pos s \<Longrightarrow> pos s < length (timeline s) \<Longrightarrow>
   fst (downs n s) = rev (take n (drop (pos s - n) (timeline s))) \<and> pos (snd (downs n s)) = pos s - n \<and>
   nav_valid (snd (downs n s)) \<and> timeline (snd (downs n s)) = timeline s"
proof (induction n arbitrary: s)
  case 0
  then show ?case by simp
next
  case (Suc n)
  let ?t = "snd (navigateDown True [] s)" and ?l = "timeline s"
  have "0 < pos s" using Suc.prems(2) by simp
  note m = down_moves [OF Suc.prems(1) this, of "[]"]
  with Suc.IH [of ?t] Suc.prems have
    ih: "fst (downs n ?t) = rev (take n (drop (pos s - 1 - n) ?l))" "pos (snd (downs n ?t)) = pos s - 1 - n"
      "nav_valid (snd (downs n ?t))" "timeline (snd (downs n ?t)) = ?l" by auto
  have "take (Suc n) (drop (pos s - Suc n) ?l) = take n (drop (pos s - 1 - n) ?l) @ [?l ! (pos s - 1)]"
    using Suc.prems by (simp add: take_Suc_conv_app_nth)
  with ih m show ?case by (simp add: case_prod_unfold Let_def or_empty_def str_or_def)
qed

text \<open>C15. The arrows walk one line - the input, the drafts from the newest, the history from the newest - and
  walking back retraces the steps: after \<open>n\<close> times Up the next \<open>n\<close> entries have been shown, and \<open>n\<close> times
  Down shows them backwards and ends where the walk began.\<close>

theorem arrows_retrace_their_steps:
  assumes "nav_valid s" and "pos s + n < length (timeline s)"
  shows "fst (ups n s) = take n (drop (Suc (pos s)) (timeline s))
    \<and> fst (downs n (snd (ups n s))) = rev (take n (drop (pos s) (timeline s)))
    \<and> pos (snd (downs n (snd (ups n s)))) = pos s"
  using ups_walk [OF assms] downs_walk [of "snd (ups n s)" n] assms by auto

text \<open>Sending a draft takes exactly that draft off the stack: in a valid position the stack afterwards is
  the old one without the entry shown, and the position is reset.\<close>

theorem submit_removes_shown_draft:
  assumes "nav_valid s" and "nav_source s = Some Draft"
  shows "\<exists>older newer. draft_stack s = older @ timeline s ! pos s # newer
    \<and> newStack (fst (prepareSubmit c s)) = older @ newer \<and> pos (snd (prepareSubmit c s)) = 0"
proof -
  from valid_index [OF assms] obtain n where n: "nav_index s = int n" "n < length (draft_stack s)" "pos s = Suc n"
    by auto
  define r where "r = length (draft_stack s) - 1 - n"
  have r: "r < length (draft_stack s)" "int (length (draft_stack s)) - 1 - int n = int r" using n by (auto simp: r_def)
  have "timeline s ! pos s = draft_stack s ! r"
    using n by (simp add: timeline_def nth_append rev_nth r_def)
  with id_take_nth_drop [OF r(1)]
  have "draft_stack s = take r (draft_stack s) @ timeline s ! pos s # drop (Suc r) (draft_stack s)" by simp
  moreover have "newStack (fst (prepareSubmit c s)) = take r (draft_stack s) @ drop (Suc r) (draft_stack s)"
    using assms(2) r by (simp add: prepareSubmit_def n(1) Let_def)
  moreover have "pos (snd (prepareSubmit c s)) = 0" by (simp add: prepareSubmit_def Let_def pos_def)
  ultimately show ?thesis by blast
qed

text \<open>
  Editing in place: \<open>updateCurrentItem\<close> counts from the end of the stored history, the arrows from the end
  of the history with the recent additions, so the two agree only when nothing recent is pending.
\<close>

lemma update_targets_shown_item:
  assumes "nav_valid s" and "nav_source s = Some History" and "recentAdditions s = []"
  shows "\<exists>r. updateCurrentItem s = Some (History, r) \<and> history_items s ! r = timeline s ! pos s"
proof -
  from valid_index [OF assms(1,2)] obtain n where n: "nav_index s = int n" "n < length (history_items s)"
    "pos s = Suc (length (draft_stack s) + n)" using assms(3) by (auto simp: effectiveHistory_def)
  then have "int (length (history_items s)) - 1 - int n = int (length (history_items s) - 1 - n)" by simp
  with n assms(2) have "updateCurrentItem s = Some (History, length (history_items s) - 1 - n)"
    by (simp add: updateCurrentItem_def Let_def)
  moreover have "timeline s ! pos s = history_items s ! (length (history_items s) - 1 - n)"
    using n assms(3) by (simp add: timeline_def effectiveHistory_def nth_append rev_nth)
  ultimately show ?thesis by simp
qed

lemma update_misses_recent_item:
  "let s = \<lparr>nav_source = Some History, nav_index = 0, history_items = [''old''], recentAdditions = [''new''],
     draft_current = [], draft_stack = []\<rparr>
   in timeline s ! pos s = ''new'' \<and> updateCurrentItem s = Some (History, 0) \<and> history_items s ! 0 = ''old''"
  by code_simp

section \<open>The cap on the history\<close>

definition MAX_INPUT_HISTORY_ENTRIES :: nat where
  "MAX_INPUT_HISTORY_ENTRIES = 200"

definition MAX_INPUT_HISTORY_BYTES :: nat where
  "MAX_INPUT_HISTORY_BYTES = 256 * 1024"

definition estimatedBytes :: "string \<Rightarrow> nat" where
  "estimatedBytes s = length s * 2"

text \<open>The loop on \<open>totalBytes\<close> and \<open>start\<close>, as what is left of \<open>byCount\<close>; the last entry always stays.\<close>

fun dropOldest :: "nat \<Rightarrow> nat \<Rightarrow> string list \<Rightarrow> string list" where
  "dropOldest maxBytes totalBytes (x # y # ys) =
     (if maxBytes < totalBytes then dropOldest maxBytes (totalBytes - estimatedBytes x) (y # ys) else x # y # ys)"
| "dropOldest maxBytes totalBytes xs = xs"

definition capHistory :: "nat \<Rightarrow> nat \<Rightarrow> string list \<Rightarrow> string list" where
  "capHistory maxEntries maxBytes history =
     (let byCount = (if maxEntries < length history then drop (length history - maxEntries) history else history)
      in dropOldest maxBytes (sum_list (map estimatedBytes byCount)) byCount)"

definition total_bytes :: "string list \<Rightarrow> nat" where
  "total_bytes xs = sum_list (map estimatedBytes xs)"

lemma dropOldest_spec:
  "n = total_bytes xs \<Longrightarrow>
   suffix (dropOldest m n xs) xs \<and> (xs \<noteq> [] \<longrightarrow> dropOldest m n xs \<noteq> []) \<and>
   (total_bytes (dropOldest m n xs) \<le> m \<or> length (dropOldest m n xs) \<le> 1) \<and>
   (\<forall>ys. suffix ys xs \<longrightarrow> length (dropOldest m n xs) < length ys \<longrightarrow> m < total_bytes ys)"
proof (induction m n xs rule: dropOldest.induct)
  case (1 m n x y ys)
  show ?case
  proof (cases "m < n")
    case False
    have "length zs \<le> length (x # y # ys)" if "suffix zs (x # y # ys)" for zs
      using that by (rule suffix_length_le)
    with False 1(2) show ?thesis by (auto dest: leD)
  next
    case True
    with 1(2) have "n - estimatedBytes x = total_bytes (y # ys)" by (simp add: total_bytes_def)
    note ih = 1(1) [OF True this]
    have "m < total_bytes zs" if "suffix zs (x # y # ys)" "length (dropOldest m (n - estimatedBytes x) (y # ys)) < length zs" for zs
      using that ih True 1(2) by (auto simp: suffix_Cons)
    with ih True show ?thesis by (auto simp: suffix_Cons)
  qed
qed (auto simp: total_bytes_def suffix_Cons)

text \<open>The cap keeps the newest entries: what remains is the longest end of the history within both caps -
  save that one entry is always kept, however large.\<close>

theorem capHistory_keeps_newest:
  assumes "0 < maxEntries"
  shows "suffix (capHistory maxEntries maxBytes h) h \<and> length (capHistory maxEntries maxBytes h) \<le> maxEntries
    \<and> (h \<noteq> [] \<longrightarrow> capHistory maxEntries maxBytes h \<noteq> [])
    \<and> (total_bytes (capHistory maxEntries maxBytes h) \<le> maxBytes \<or> length (capHistory maxEntries maxBytes h) = 1)
    \<and> (\<forall>ys. suffix ys h \<longrightarrow> length (capHistory maxEntries maxBytes h) < length ys
        \<longrightarrow> length ys \<le> maxEntries \<longrightarrow> maxBytes < total_bytes ys)"
proof -
  define byCount where "byCount = drop (length h - maxEntries) h"
  have cap: "capHistory maxEntries maxBytes h = dropOldest maxBytes (total_bytes byCount) byCount"
    by (auto simp: capHistory_def byCount_def total_bytes_def Let_def)
  have by_count: "suffix byCount h" "length byCount \<le> maxEntries" "h \<noteq> [] \<Longrightarrow> byCount \<noteq> []"
    using assms by (simp_all add: byCount_def suffix_drop not_le)
  note spec = dropOldest_spec [of "total_bytes byCount" byCount maxBytes, OF refl, folded cap]
  have "suffix ys byCount" if "suffix ys h" "length ys \<le> maxEntries" for ys
    using that by (auto simp: byCount_def suffix_def)
  with spec have "\<forall>ys. suffix ys h \<longrightarrow> length (capHistory maxEntries maxBytes h) < length ys
      \<longrightarrow> length ys \<le> maxEntries \<longrightarrow> maxBytes < total_bytes ys" by blast
  moreover have "total_bytes (capHistory maxEntries maxBytes h) \<le> maxBytes \<or> length (capHistory maxEntries maxBytes h) = 1"
    using spec by (cases "capHistory maxEntries maxBytes h") (auto simp: total_bytes_def)
  ultimately show ?thesis
    using spec by_count suffix_order.trans suffix_length_le by (metis le_trans)
qed

section \<open>Witnesses\<close>

definition sample_history :: input_history where
  "sample_history = new_history\<lparr>history_items := [''one'', ''two''], draft_current := ''now'', draft_stack := [''d1'', ''d2'']\<rparr>"

lemma arrows_retrace_their_steps_witness:
  "fst (ups 3 sample_history) = [''d2'', ''d1'', ''two'']
   \<and> fst (downs 3 (snd (ups 3 sample_history))) = [''d1'', ''d2'', ''now'']"
proof -
  have "nav_valid sample_history" "pos sample_history + 3 < length (timeline sample_history)"
    and line: "take 3 (drop (Suc (pos sample_history)) (timeline sample_history)) = [''d2'', ''d1'', ''two'']"
      "rev (take 3 (drop (pos sample_history) (timeline sample_history))) = [''d1'', ''d2'', ''now'']"
    by code_simp+
  from arrows_retrace_their_steps [OF this(1,2)] show ?thesis unfolding line by blast
qed

lemma submit_removes_shown_draft_witness:
  "newStack (fst (prepareSubmit ''d2'' (snd (ups 1 sample_history)))) = [''d1'']"
proof -
  have "nav_valid (snd (ups 1 sample_history))" "nav_source (snd (ups 1 sample_history)) = Some Draft"
    and line: "timeline (snd (ups 1 sample_history)) ! pos (snd (ups 1 sample_history)) = ''d2''"
      "draft_stack (snd (ups 1 sample_history)) = [''d1'', ''d2'']"
    by code_simp+
  from submit_removes_shown_draft [OF this(1,2), of "''d2''"] show ?thesis unfolding line
    by (auto simp: Cons_eq_append_conv)
qed

lemma capHistory_keeps_newest_witness:
  "length (capHistory 2 6 [''a'', ''b'', ''c'']) \<le> 2"
  using capHistory_keeps_newest [of 2 6 "[''a'', ''b'', ''c'']"] by simp

end
