(* ===== verification/GroupBlocks.thy ===== *)
theory GroupBlocks
  imports Blocks "HOL-Library.Multiset"
begin

text \<open>
  How the blocks of a turn are laid out (\<open>features/chat/components/turn/utils/groupBlocks.js\<close> and
  \<open>components/work/utils/mergeWorkSegments.js\<close>): runs of task list calls become one group, look-ups are
  gathered behind the rest when that feature is on, and what the view routes away fills the right slot.
  The text a hidden block carried moves to the block before it.
\<close>

datatype turn_segment =
    Single block nat
  | Todos_group "block list" nat
  | Lookups_group "(block \<times> nat) list"

record list_run =
  partition_id :: "string option"
  entries :: "(block \<times> nat) list"

definition TASK_LIST_TOOLS :: "string list" where
  "TASK_LIST_TOOLS = [TASK_CREATE, TASK_UPDATE, TASK_LIST, TASK_GET]"

definition TASK_MUTATION_TOOLS :: "string list" where
  "TASK_MUTATION_TOOLS = [TASK_CREATE, TASK_UPDATE]"

text \<open>\<open>block.toolUse\<close> and \<open>block.toolResult\<close>, which only a tool block has.\<close>

definition block_use :: "block \<Rightarrow> event option" where
  "block_use b = (case body b of Block_tool u _ _ _ \<Rightarrow> Some u | _ \<Rightarrow> None)"

definition block_answer :: "block \<Rightarrow> event option" where
  "block_answer b = (case body b of Block_tool _ r _ _ \<Rightarrow> r | _ \<Rightarrow> None)"

definition is_tool_in :: "string list \<Rightarrow> event option \<Rightarrow> bool" where
  "is_tool_in names tu = (case Option.bind tu toolOf of Some n \<Rightarrow> n \<in> set names | None \<Rightarrow> False)"

definition isMutation :: "block \<Rightarrow> bool" where
  "isMutation b = is_tool_in TASK_MUTATION_TOOLS (block_use b)"

definition flushRun :: "list_run \<Rightarrow> turn_segment list \<Rightarrow> turn_segment list" where
  "flushRun r segments =
     (if \<exists>e \<in> set (entries r). isMutation (fst e)
      then segments @ [Todos_group (map fst (entries r)) (snd (hd (entries r)))]
      else segments @ map (\<lambda>(b, i). Single b i) (entries r))"

definition flushOpenRun :: "turn_segment list \<times> list_run option \<Rightarrow> turn_segment list" where
  "flushOpenRun sr = (case snd sr of Some r \<Rightarrow> flushRun r (fst sr) | None \<Rightarrow> fst sr)"

definition segmentStep ::
  "(block \<Rightarrow> bool) \<Rightarrow> (event option \<Rightarrow> bool) \<Rightarrow> turn_segment list \<times> list_run option \<Rightarrow> nat \<times> block
     \<Rightarrow> turn_segment list \<times> list_run option" where
  "segmentStep isHidden belongsToThisSide sr ib =
     (let (i, b) = ib; (segments, run) = sr; tu = block_use b
      in if isHidden b then sr
         else if \<not> belongsToThisSide tu then sr
         else if is_tool_in TASK_LIST_TOOLS tu then
           (let partition = Option.bind tu parent_tool_use_id; new = \<lparr>partition_id = partition, entries = [(b, i)]\<rparr>
            in case run of
                 Some r \<Rightarrow> if partition_id r = partition then (segments, Some (r\<lparr>entries := entries r @ [(b, i)]\<rparr>))
                           else (flushRun r segments, Some new)
               | None \<Rightarrow> (segments, Some new))
         else (flushOpenRun sr @ [Single b i], None))"

definition buildSegments ::
  "block list \<Rightarrow> (block \<Rightarrow> bool) \<Rightarrow> (event option \<Rightarrow> bool) \<Rightarrow> turn_segment list" where
  "buildSegments blocks isHidden belongsToThisSide =
     flushOpenRun (foldl (segmentStep isHidden belongsToThisSide) ([], None) (enumerate 0 blocks))"

definition isReadOnlySingle :: "turn_segment \<Rightarrow> bool" where
  "isReadOnlySingle s =
     (case s of Single b _ \<Rightarrow> (case body b of Block_tool u r _ _ \<Rightarrow> isReadOnlyCall u r | _ \<Rightarrow> False) | _ \<Rightarrow> False)"

fun single_entry :: "turn_segment \<Rightarrow> (block \<times> nat) list" where
  "single_entry (Single b i) = [(b, i)]"
| "single_entry _ = []"

definition gatherLookups :: "bool \<Rightarrow> turn_segment list \<Rightarrow> turn_segment list" where
  "gatherLookups lookupsGroupingEnabled segments =
     (if \<not> lookupsGroupingEnabled then segments
      else
        (let kept = filter (\<lambda>s. \<not> isReadOnlySingle s) segments; lookups = filter isReadOnlySingle segments
         in if length lookups < 2 then segments
            else kept @ [Lookups_group (concat (map single_entry lookups))]))"

definition hidden_block ::
  "routing_mode \<Rightarrow> string list \<Rightarrow> (string option \<Rightarrow> bool) \<Rightarrow> block \<Rightarrow> bool" where
  "hidden_block mode bookmarkedParts isMarked b =
     (case body b of Block_tool u r _ _ \<Rightarrow> isToolBlockHidden mode u r bookmarkedParts isMarked | _ \<Rightarrow> False)"

definition routed :: "routing_mode \<Rightarrow> event option \<Rightarrow> bool" where
  "routed mode tu = (case tu of Some u \<Rightarrow> blockRoutesToRightSlot mode u | None \<Rightarrow> False)"

definition groupBlocks ::
  "bool \<Rightarrow> block list \<Rightarrow> routing_mode \<Rightarrow> string list \<Rightarrow> (string option \<Rightarrow> bool)
     \<Rightarrow> turn_segment list \<times> turn_segment list" where
  "groupBlocks lookupsGroupingEnabled blocks mode bookmarkedParts isMarked =
     (let hidden = hidden_block mode bookmarkedParts isMarked;
          transcript = buildSegments blocks hidden (\<lambda>tu. \<not> routed mode tu);
          panel = buildSegments blocks hidden (routed mode)
      in (gatherLookups lookupsGroupingEnabled transcript, panel))"

text \<open>The added text of the blocks a mode hides; \<open>block.injected?.length\<close>.\<close>

definition texts_of :: "block \<Rightarrow> added_entry list" where
  "texts_of b = (case injected b of None \<Rightarrow> [] | Some es \<Rightarrow> es)"

definition moveStep ::
  "(block \<Rightarrow> bool) \<Rightarrow> block list \<times> added_entry list \<Rightarrow> block \<Rightarrow> block list \<times> added_entry list" where
  "moveStep hidden ki b =
     (let (kept, turnInjected) = ki
      in if \<not> hidden b then (kept @ [b], turnInjected)
         else if texts_of b \<noteq> [] \<and> kept \<noteq> [] then
           (update_at (length kept - 1) (addInjected (texts_of b)) kept, turnInjected)
         else if texts_of b \<noteq> [] then (kept, turnInjected @ texts_of b)
         else (kept, turnInjected))"

definition moveHiddenInjected ::
  "block list \<Rightarrow> added_entry list \<Rightarrow> routing_mode \<Rightarrow> string list \<Rightarrow> (string option \<Rightarrow> bool)
     \<Rightarrow> block list \<times> added_entry list" where
  "moveHiddenInjected blocks added mode bookmarkedParts isMarked =
     foldl (moveStep (hidden_block mode bookmarkedParts isMarked)) ([], added) blocks"

fun seg_index :: "turn_segment \<Rightarrow> nat" where
  "seg_index (Single _ i) = i"
| "seg_index (Todos_group _ i) = i"
| "seg_index (Lookups_group _) = 0"

definition is_compaction :: "block \<Rightarrow> bool" where
  "is_compaction b = (case body b of Block_compaction _ _ _ \<Rightarrow> True | _ \<Rightarrow> False)"

definition compactionSegments :: "block list \<Rightarrow> turn_segment list" where
  "compactionSegments blocks =
     map (\<lambda>(i, b). Single b i) (filter (\<lambda>(i, b). is_compaction b) (enumerate 0 blocks))"

definition mergeWorkSegments :: "block list \<Rightarrow> turn_segment list \<Rightarrow> turn_segment list" where
  "mergeWorkSegments blocks panelSegments =
     (if compactionSegments blocks = [] then panelSegments
      else sort_key seg_index (panelSegments @ compactionSegments blocks))"

section \<open>Every block has its place\<close>

fun seg_blocks :: "turn_segment \<Rightarrow> block list" where
  "seg_blocks (Single b _) = [b]"
| "seg_blocks (Todos_group bs _) = bs"
| "seg_blocks (Lookups_group es) = map fst es"

definition laid_out :: "turn_segment list \<Rightarrow> block list" where
  "laid_out segs = concat (map seg_blocks segs)"

lemma laid_out_append [simp]: "laid_out (xs @ ys) = laid_out xs @ laid_out ys"
  by (simp add: laid_out_def)

lemma laid_out_flushRun [simp]: "laid_out (flushRun r segs) = laid_out segs @ map fst (entries r)"
  by (auto simp: flushRun_def laid_out_def case_prod_unfold comp_def intro: nth_equalityI)

lemma laid_out_Single [simp]: "laid_out [Single b i] = [b]"
  by (simp add: laid_out_def)

text \<open>The state of the pass: segments written and the run still open.\<close>

definition pass_blocks :: "turn_segment list \<times> list_run option \<Rightarrow> block list" where
  "pass_blocks sr = laid_out (flushOpenRun sr)"

lemma segmentStep_blocks:
  "pass_blocks (segmentStep hidden belongs sr (i, b)) =
     pass_blocks sr @ (if \<not> hidden b \<and> belongs (block_use b) then [b] else [])"
  by (cases sr) (auto simp: segmentStep_def pass_blocks_def flushOpenRun_def Let_def split: option.splits)

lemma buildSegments_blocks:
  "laid_out (buildSegments blocks hidden belongs) = filter (\<lambda>b. \<not> hidden b \<and> belongs (block_use b)) blocks"
proof -
  have "pass_blocks (foldl (segmentStep hidden belongs) sr (enumerate n blocks)) =
      pass_blocks sr @ filter (\<lambda>b. \<not> hidden b \<and> belongs (block_use b)) blocks" for n sr
    by (induction blocks arbitrary: n sr) (simp_all add: segmentStep_blocks)
  from this [of "([], None)" 0] show ?thesis
    by (simp add: buildSegments_def pass_blocks_def flushOpenRun_def laid_out_def)
qed

lemma gatherLookups_blocks: "mset (laid_out (gatherLookups enabled segs)) = mset (laid_out segs)"
proof -
  have single: "concat (map seg_blocks xs) = map fst (concat (map single_entry xs))"
    if "\<forall>s \<in> set xs. isReadOnlySingle s" for xs
    using that by (induction xs) (auto simp: isReadOnlySingle_def split: turn_segment.splits)
  have "mset (laid_out (filter (\<lambda>s. \<not> isReadOnlySingle s) segs)) + mset (laid_out (filter isReadOnlySingle segs))
      = mset (laid_out segs)"
    by (induction segs) (simp_all add: laid_out_def)
  then show ?thesis
    using single [of "filter isReadOnlySingle segs"] by (auto simp: gatherLookups_def Let_def laid_out_def)
qed

text \<open>C16. Every block a view shows is shown once: the blocks that are not hidden are split between the
  transcript and the right slot, in the slot in their order in the turn, in the transcript once each.\<close>

theorem groupBlocks_places_each_block_once:
  "laid_out (snd (groupBlocks enabled blocks mode parts marked))
     = filter (\<lambda>b. \<not> hidden_block mode parts marked b \<and> routed mode (block_use b)) blocks
   \<and> mset (laid_out (fst (groupBlocks enabled blocks mode parts marked)))
     = mset (filter (\<lambda>b. \<not> hidden_block mode parts marked b \<and> \<not> routed mode (block_use b)) blocks)"
  by (simp add: groupBlocks_def Let_def gatherLookups_blocks buildSegments_blocks)

section \<open>The groups\<close>

definition one_agents_calls :: "block list \<Rightarrow> bool" where
  "one_agents_calls bs \<longleftrightarrow> (\<exists>p. \<forall>b \<in> set bs. is_tool_in TASK_LIST_TOOLS (block_use b)
     \<and> Option.bind (block_use b) parent_tool_use_id = p)"

definition groups_sound :: "turn_segment list \<Rightarrow> bool" where
  "groups_sound segs \<longleftrightarrow> (\<forall>bs i. Todos_group bs i \<in> set segs \<longrightarrow> one_agents_calls bs \<and> (\<exists>b \<in> set bs. isMutation b))"

definition run_sound :: "list_run option \<Rightarrow> bool" where
  "run_sound run = (case run of None \<Rightarrow> True
     | Some r \<Rightarrow> \<forall>e \<in> set (entries r). is_tool_in TASK_LIST_TOOLS (block_use (fst e))
         \<and> Option.bind (block_use (fst e)) parent_tool_use_id = partition_id r)"

lemma flushRun_sound: "groups_sound segs \<Longrightarrow> run_sound (Some r) \<Longrightarrow> groups_sound (flushRun r segs)"
proof -
  assume segs: "groups_sound segs" and run: "run_sound (Some r)"
  from run have "one_agents_calls (map fst (entries r))" by (auto simp: run_sound_def one_agents_calls_def)
  with segs show ?thesis by (force simp: groups_sound_def flushRun_def)
qed

lemma flushOpenRun_sound: "groups_sound (fst sr) \<Longrightarrow> run_sound (snd sr) \<Longrightarrow> groups_sound (flushOpenRun sr)"
  by (auto simp: flushOpenRun_def flushRun_sound split: option.splits)

lemma segmentStep_sound:
  assumes "groups_sound (fst sr)" and "run_sound (snd sr)"
  shows "groups_sound (fst (segmentStep hidden belongs sr ib)) \<and> run_sound (snd (segmentStep hidden belongs sr ib))"
proof -
  have "groups_sound (flushOpenRun sr @ [Single b i])" for b i
    using flushOpenRun_sound [OF assms] by (auto simp: groups_sound_def)
  moreover have "groups_sound (flushRun r (fst sr))" if "snd sr = Some r" for r
    using flushRun_sound assms that by metis
  ultimately show ?thesis
    using assms
    by (cases sr; cases ib) (auto simp: segmentStep_def Let_def run_sound_def split: option.splits)
qed

lemma buildSegments_sound: "groups_sound (buildSegments blocks hidden belongs)"
proof -
  have "groups_sound (fst (foldl (segmentStep hidden belongs) sr xs))
      \<and> run_sound (snd (foldl (segmentStep hidden belongs) sr xs))"
    if "groups_sound (fst sr)" "run_sound (snd sr)" for sr xs
    using that by (induction xs arbitrary: sr) (simp_all add: segmentStep_sound)
  from this [of "([], None)"] show ?thesis
    unfolding buildSegments_def
    by (intro flushOpenRun_sound) (simp_all add: groups_sound_def run_sound_def)
qed

text \<open>A Todos group is one agent's list calls with at least one change: groups never mix a subagent's
  calls with another agent's, never swallow another tool, and a run that only inspects stays apart.\<close>

theorem todos_groups_are_sound:
  assumes "Todos_group bs i \<in> set (fst (groupBlocks enabled blocks mode parts marked))
     \<union> set (snd (groupBlocks enabled blocks mode parts marked))"
  shows "one_agents_calls bs \<and> (\<exists>b \<in> set bs. isMutation b)"
proof -
  have "set (gatherLookups enabled segs) \<subseteq> set segs \<union> range Lookups_group" for segs
    by (auto simp: gatherLookups_def Let_def)
  with assms obtain belongs where "Todos_group bs i \<in> set (buildSegments blocks (hidden_block mode parts marked) belongs)"
    by (fastforce simp: groupBlocks_def Let_def)
  with buildSegments_sound show ?thesis unfolding groups_sound_def by blast
qed

section \<open>Added text follows\<close>

lemma texts_addInjected [simp]: "texts_of (addInjected es b) = texts_of b @ es"
  by (simp add: texts_of_def addInjected_def split: option.splits)

lemma moveStep_texts:
  fixes ki :: "block list \<times> added_entry list"
  shows "snd (moveStep hidden ki b) @ concat (map texts_of (fst (moveStep hidden ki b)))
      = (snd ki @ concat (map texts_of (fst ki))) @ texts_of b
    \<and> map body (fst (moveStep hidden ki b)) = map body (fst ki) @ (if hidden b then [] else [body b])"
proof (cases "fst ki" rule: rev_cases)
  case Nil
  then show ?thesis by (cases ki) (simp add: moveStep_def)
next
  case (snoc bs a)
  then show ?thesis by (cases ki) (simp add: moveStep_def update_at_def nth_append list_update_append)
qed

text \<open>Hiding a block hides none of the text the harness added: the entries of the turn and of its blocks,
  read in order, are the same before and after, and the blocks kept are the ones not hidden.\<close>

theorem hidden_blocks_leave_their_text:
  "snd (moveHiddenInjected blocks added mode parts marked)
     @ concat (map texts_of (fst (moveHiddenInjected blocks added mode parts marked)))
     = added @ concat (map texts_of blocks)
   \<and> map body (fst (moveHiddenInjected blocks added mode parts marked))
     = map body (filter (\<lambda>b. \<not> hidden_block mode parts marked b) blocks)"
proof -
  let ?h = "hidden_block mode parts marked"
  have "snd (foldl (moveStep ?h) ki blocks) @ concat (map texts_of (fst (foldl (moveStep ?h) ki blocks)))
      = (snd ki @ concat (map texts_of (fst ki))) @ concat (map texts_of blocks)
    \<and> map body (fst (foldl (moveStep ?h) ki blocks)) = map body (fst ki) @ map body (filter (\<lambda>b. \<not> ?h b) blocks)" for ki
    by (induction blocks arbitrary: ki) (simp_all add: moveStep_texts)
  from this [of "([], added)"] show ?thesis by (simp add: moveHiddenInjected_def)
qed

section \<open>The work panel\<close>

text \<open>The indices of a pass are below the next position and ascend, the open run after the segments.\<close>

definition ascending :: "nat \<Rightarrow> turn_segment list \<times> list_run option \<Rightarrow> bool" where
  "ascending n sr \<longleftrightarrow> (let xs = map seg_index (fst sr) @ (case snd sr of None \<Rightarrow> [] | Some r \<Rightarrow> map snd (entries r))
     in sorted_wrt (<) xs \<and> (\<forall>x \<in> set xs. x < n)) \<and> (\<forall>r. snd sr = Some r \<longrightarrow> entries r \<noteq> [])"

lemma map_seg_Single: "map seg_index (map (\<lambda>(b, i). Single b i) es) = map snd es"
  by (induction es) auto

lemma flushRun_indices:
  "entries r \<noteq> [] \<Longrightarrow> map seg_index (flushRun r segs) =
     map seg_index segs @ (if \<exists>e \<in> set (entries r). isMutation (fst e) then [snd (hd (entries r))] else map snd (entries r))"
  by (simp add: flushRun_def map_seg_Single del: map_map)

lemma flushRun_ascending: "ascending n (segs, Some r) \<Longrightarrow> ascending n (flushRun r segs, None)"
proof -
  assume asc: "ascending n (segs, Some r)"
  then obtain e es where "entries r = e # es" by (cases "entries r") (auto simp: ascending_def)
  with asc show ?thesis
    by (auto simp: ascending_def flushRun_indices sorted_wrt_append Let_def)
qed

lemma ascending_mono: "ascending n sr \<Longrightarrow> n \<le> m \<Longrightarrow> ascending m sr"
  unfolding ascending_def Let_def by (meson order_less_le_trans)

lemma flushOpenRun_ascending: "ascending n sr \<Longrightarrow> ascending n (flushOpenRun sr, None)"
  by (cases sr; cases "snd sr") (auto simp: flushOpenRun_def flushRun_ascending)

lemma ascending_snoc: "ascending n (segs, None) \<Longrightarrow> ascending (Suc n) (segs @ [Single b n], None)"
  by (auto simp: ascending_def Let_def sorted_wrt_append less_Suc_eq)

lemma ascending_new: "ascending n (segs, None) \<Longrightarrow>
    ascending (Suc n) (segs, Some \<lparr>partition_id = p, entries = [(b, n)]\<rparr>)"
  by (auto simp: ascending_def Let_def sorted_wrt_append less_Suc_eq)

lemma ascending_more: "ascending n (segs, Some r) \<Longrightarrow>
    ascending (Suc n) (segs, Some (r\<lparr>entries := entries r @ [(b, n)]\<rparr>))"
  by (auto simp: ascending_def Let_def sorted_wrt_append less_Suc_eq)

lemma segmentStep_ascending:
  assumes "ascending n sr"
  shows "ascending (Suc n) (segmentStep hidden belongs sr (n, b))"
proof -
  note more = ascending_mono [OF assms, of "Suc n"]
  note flushed = flushOpenRun_ascending [OF assms]
  obtain segs run where sr: "sr = (segs, run)" by (cases sr)
  show ?thesis
  proof (cases run)
    case None
    with sr assms more flushed show ?thesis
      by (simp add: segmentStep_def Let_def ascending_new ascending_snoc)
  next
    case (Some r)
    with sr assms more flushed ascending_new [OF flushRun_ascending] show ?thesis
      by (simp add: segmentStep_def Let_def ascending_more ascending_snoc)
  qed
qed

lemma buildSegments_ascending: "sorted_wrt (<) (map seg_index (buildSegments blocks hidden belongs))"
proof -
  have "ascending (n + length blocks) (foldl (segmentStep hidden belongs) sr (enumerate n blocks))"
    if "ascending n sr" for n sr
    using that
  proof (induction blocks arbitrary: n sr)
    case (Cons b bs)
    from Cons.IH [OF segmentStep_ascending [OF Cons.prems]] show ?case by simp
  qed simp
  from flushOpenRun_ascending [OF this [of 0 "([], None)"]] show ?thesis
    by (simp add: buildSegments_def ascending_def Let_def)
qed

text \<open>The work panel reads in call order: merging the panel's segments with the turn's compactions keeps
  every one of both, once, sorted by position.\<close>

theorem work_panel_in_call_order:
  "sorted (map seg_index (mergeWorkSegments blocks (snd (groupBlocks enabled blocks mode parts marked))))
   \<and> mset (mergeWorkSegments blocks (snd (groupBlocks enabled blocks mode parts marked)))
     = mset (snd (groupBlocks enabled blocks mode parts marked)) + mset (compactionSegments blocks)"
proof -
  have "sorted (map seg_index (snd (groupBlocks enabled blocks mode parts marked)))"
    using buildSegments_ascending by (simp add: groupBlocks_def Let_def strict_sorted_iff)
  then show ?thesis by (simp add: mergeWorkSegments_def)
qed

section \<open>Witness\<close>

definition list_call :: "string \<Rightarrow> block" where
  "list_call n = mk_block (Block_tool (blank_event\<lparr>ev_subtype := Sub_TOOL_USE, content := Some n\<rparr>) None None None)"

lemma todos_groups_are_sound_witness:
  "one_agents_calls [list_call TASK_LIST, list_call TASK_CREATE]"
proof -
  let ?bs = "[list_call TASK_LIST, list_call TASK_CREATE, list_call BASH]"
  have "fst (groupBlocks False ?bs Mode_OFF [] (\<lambda>_. False))
      = [Todos_group [list_call TASK_LIST, list_call TASK_CREATE] 0, Single (list_call BASH) 2]"
    by code_simp
  then have "Todos_group [list_call TASK_LIST, list_call TASK_CREATE] 0
      \<in> set (fst (groupBlocks False ?bs Mode_OFF [] (\<lambda>_. False)))
        \<union> set (snd (groupBlocks False ?bs Mode_OFF [] (\<lambda>_. False)))"
    by simp
  from todos_groups_are_sound [OF this] show ?thesis by blast
qed

end
