(* ===== verification/Tasks.thy ===== *)
theory Tasks
  imports SessionFacts Visibility "HOL-Library.List_Lexorder" "HOL-Library.Char_ord"
begin

text \<open>
  What the panels derive from a whole log: the Tasks panel's rows, the question calls that a retry
  made redundant, the timing marks of a turn and the server list (the remaining functions of
  \<open>utils/eventProcessing.js\<close>).
\<close>

section \<open>The Tasks panel\<close>

datatype task_status = Task_RUNNING | Task_COMPLETED | Task_FAILED
datatype task_kind = Kind_SUBAGENT | Kind_COMMAND

record task_row =
  row_id :: "string option"
  kind :: task_kind
  row_turnId :: "string option"
  asyncTaskId :: jval
  row_description :: jval
  row_prompt :: jval
  row_status :: task_status
  startTime :: "int option"
  endTime :: "int option"
  lastEventTime :: "int option"
  isAsync :: bool

text \<open>\<open>x || y\<close> on optional numbers: an absent number and 0 are falsy.\<close>

definition num_or :: "int option \<Rightarrow> int option \<Rightarrow> int option" where
  "num_or x y = (if x = None \<or> x = Some 0 then y else x)"

definition buildLastEventTimeMap :: "event list \<Rightarrow> (string \<rightharpoonup> int)" where
  "buildLastEventTimeMap es =
     foldl (\<lambda>m e.
       if nested e then
         (let parentId = str_or (parent_tool_use_id e) []
          in case eventTimeMs e of
               Some t \<Rightarrow> if t \<noteq> 0 \<and> t > (case m parentId of Some p \<Rightarrow> p | None \<Rightarrow> 0) then m(parentId \<mapsto> t) else m
             | None \<Rightarrow> m)
       else m) Map.empty es"

definition resultsByCall :: "event list \<Rightarrow> (string \<rightharpoonup> event)" where
  "resultsByCall es =
     foldl (\<lambda>m e. if ev_subtype e = Sub_TOOL_RESULT \<and> nonempty (tool_use_id e)
                 then m(str_or (tool_use_id e) [] \<mapsto> e) else m) Map.empty es"

definition launchesByToolUseId :: "launches \<Rightarrow> (string option \<rightharpoonup> launch)" where
  "launchesByToolUseId ls = foldl (\<lambda>m l. m(l_toolUseId l \<mapsto> l)) Map.empty (map snd ls)"

definition backgroundStatus :: "notifications \<Rightarrow> int \<Rightarrow> jval \<Rightarrow> nat option \<Rightarrow> task_status" where
  "backgroundStatus ns restart taskId launchIndex =
     (case ns taskId of
        Some n \<Rightarrow> if n_status n = JStr ''failed'' \<or> n_status n = JStr ''killed'' then Task_FAILED else Task_COMPLETED
      | None \<Rightarrow> (case launchIndex of
                   Some i \<Rightarrow> if int i < restart then Task_FAILED else Task_RUNNING
                 | None \<Rightarrow> Task_RUNNING))"

definition notice_time :: "notifications \<Rightarrow> jval \<Rightarrow> int option" where
  "notice_time ns taskId = (case ns taskId of Some n \<Rightarrow> n_ts n | None \<Rightarrow> None)"

definition commandRow :: "notifications \<Rightarrow> int \<Rightarrow> string option \<Rightarrow> event \<Rightarrow> launch \<Rightarrow> task_row" where
  "commandRow ns restart turn e l =
     \<lparr>row_id = tool_use_id e, kind = Kind_COMMAND, row_turnId = turn, asyncTaskId = JStr (l_id l),
      row_description = JStr (l_name l), row_prompt = JUndef,
      row_status = backgroundStatus ns restart (JStr (l_id l)) (Some (l_index l)),
      startTime = eventTimeMs e, endTime = notice_time ns (JStr (l_id l)), lastEventTime = None, isAsync = True\<rparr>"

definition launch_index :: "launches \<Rightarrow> jval \<Rightarrow> nat option" where
  "launch_index ls taskId =
     (case taskId of JStr k \<Rightarrow> map_option l_index (map_of ls k) | _ \<Rightarrow> None)"

definition failedContent :: "event \<Rightarrow> bool" where
  "failedContent r = (let c = str_or (content r) []
     in is_error r \<or> str_includes ''Error:'' c \<or> str_includes ''error:'' c)"

definition subagentRow ::
  "notifications \<Rightarrow> launches \<Rightarrow> int \<Rightarrow> (string \<rightharpoonup> int) \<Rightarrow> (string \<rightharpoonup> event) \<Rightarrow> string option \<Rightarrow> event \<Rightarrow> task_row" where
  "subagentRow ns ls restart lastEventByParent results turn e =
     (let input = tool_input e;
          result = (if nonempty (tool_use_id e) then results (str_or (tool_use_id e) []) else None);
          toolUseResult = (case result of Some r \<Rightarrow> tool_use_result r | None \<Rightarrow> JUndef);
          async = isAsyncTask toolUseResult;
          taskId = (if async then jget toolUseResult ''agentId'' else JNull);
          (status, end) =
            (if async then (backgroundStatus ns restart taskId (launch_index ls taskId), notice_time ns taskId)
             else case result of
               Some r \<Rightarrow> (if failedContent r then Task_FAILED else Task_COMPLETED, num_or (eventTimeMs r) None)
             | None \<Rightarrow> (Task_RUNNING, None))
      in \<lparr>row_id = tool_use_id e, kind = Kind_SUBAGENT, row_turnId = turn, asyncTaskId = taskId,
          row_description = jor (jget input ''description'') (JStr ''Task''), row_prompt = jget input ''prompt'',
          row_status = status, startTime = eventTimeMs e, endTime = end,
          lastEventTime = num_or (case tool_use_id e of Some t \<Rightarrow> lastEventByParent t | None \<Rightarrow> None) (eventTimeMs e),
          isAsync = async\<rparr>)"

text \<open>One event of the second pass: the turn it belongs to and the rows so far.\<close>

definition taskRowStep ::
  "notifications \<Rightarrow> launches \<Rightarrow> event list \<Rightarrow> int \<Rightarrow> string option \<times> task_row list \<Rightarrow> event
     \<Rightarrow> string option \<times> task_row list" where
  "taskRowStep ns ls es restart tr e =
     (let (turn0, rows) = tr; turn = (if opensTurn e then ev_turn_id e else turn0)
      in if ev_subtype e \<noteq> Sub_TOOL_USE then (turn, rows)
         else case (if isTopLevelBashCall e then launchesByToolUseId ls (tool_use_id e) else None) of
           Some l \<Rightarrow> (turn, rows @ [commandRow ns restart turn e l])
         | None \<Rightarrow>
             if content e \<noteq> Some TASK then (turn, rows)
             else (turn, rows @ [subagentRow ns ls restart (buildLastEventTimeMap es) (resultsByCall es) turn e]))"

definition extractTasks :: "event list \<Rightarrow> notifications \<Rightarrow> launches \<Rightarrow> task_row list" where
  "extractTasks es ns ls =
     snd (foldl (taskRowStep ns ls es (lastIndexOf es 0 isContainerRestart (-1))) (None, []) es)"

text \<open>A launch is known by the result that reported it.\<close>

definition launched_at :: "event list \<Rightarrow> launch \<Rightarrow> bool" where
  "launched_at log l \<longleftrightarrow> l_index l < length log \<and> ev_subtype (log ! l_index l) = Sub_TOOL_RESULT"

lemma update_values: "l \<in> snd ` set (AList.update k v xs) \<Longrightarrow> l \<in> snd ` set xs \<or> l = v"
  by (induction xs) (auto split: if_splits)

lemma launchStep_update:
  "fst (launchStep (ls, inputs) (i, e)) = ls
   \<or> (\<exists>lid v. fst (launchStep (ls, inputs) (i, e)) = AList.update lid v ls
        \<and> l_id v = lid \<and> l_index v = i \<and> ev_subtype e = Sub_TOOL_RESULT)"
proof (cases "nested e \<or> ev_subtype e \<noteq> Sub_TOOL_RESULT
    \<or> launchOf (case tool_use_id e of Some t \<Rightarrow> inputs t | None \<Rightarrow> None) (tool_use_result e) = None")
  case True
  then show ?thesis by (auto simp: launchStep_def Let_def)
next
  case False
  then obtain lid name where "launchOf (case tool_use_id e of Some t \<Rightarrow> inputs t | None \<Rightarrow> None) (tool_use_result e) = Some (lid, name)"
    by auto
  with False have "fst (launchStep (ls, inputs) (i, e)) = AList.update lid
      \<lparr>l_id = lid, l_name = name, l_toolUseId = tool_use_id e, l_index = i\<rparr> ls"
    by (simp add: launchStep_def Let_def)
  moreover have "l_index \<lparr>l_id = lid, l_name = name, l_toolUseId = tool_use_id e, l_index = i\<rparr> = i"
    "l_id \<lparr>l_id = lid, l_name = name, l_toolUseId = tool_use_id e, l_index = i\<rparr> = lid" by simp_all
  ultimately show ?thesis using False by blast
qed

lemma launchStep_values:
  assumes "l \<in> snd ` set (fst (launchStep lb (i, e)))"
  shows "l \<in> snd ` set (fst lb) \<or> (l_index l = i \<and> ev_subtype e = Sub_TOOL_RESULT)"
proof -
  obtain ls inputs where lb: "lb = (ls, inputs)" by (cases lb)
  from launchStep_update [of ls inputs i e] show ?thesis
  proof (elim disjE exE conjE)
    assume "fst (launchStep (ls, inputs) (i, e)) = ls"
    with assms lb show ?thesis by simp
  next
    fix lid v
    assume "fst (launchStep (ls, inputs) (i, e)) = AList.update lid v ls" "l_index v = i" "ev_subtype e = Sub_TOOL_RESULT"
    with assms lb update_values [of l lid v ls] show ?thesis by auto
  qed
qed

lemma launches_from_log: "l \<in> snd ` set (launchesOf log) \<Longrightarrow> launched_at log l"
proof (induction log rule: rev_induct)
  case Nil
  then show ?case by (simp add: launchesOf_def appendBackgroundLaunches_def)
next
  case (snoc e log)
  have "launchesOf (log @ [e]) = fst (launchStep (appendBackgroundLaunches [] Map.empty log 0) (length log, e))"
    by (simp add: launchesOf_def appendBackgroundLaunches_def enumerate_append_eq)
  with snoc.prems launchStep_values
  have "l \<in> snd ` set (launchesOf log) \<or> (l_index l = length log \<and> ev_subtype e = Sub_TOOL_RESULT)"
    by (metis launchesOf_def)
  with snoc.IH show ?case by (auto simp: launched_at_def nth_append)
qed

lemma restart_not_launch:
  assumes "launched_at log l"
  shows "int (l_index l) \<noteq> lastPosition isContainerRestart log"
proof
  assume eq: "int (l_index l) = lastPosition isContainerRestart log"
  then obtain k where k: "last_index isContainerRestart log = Some k" "l_index l = k"
    by (auto simp: lastPosition_def lastIndexOf_def split: option.splits)
  from last_index_Some [OF k(1)] assms k(2) show False
    by (simp add: launched_at_def isContainerRestart_def)
qed

lemma launchesByToolUseId_in: "launchesByToolUseId ls t = Some l \<Longrightarrow> l \<in> snd ` set ls"
proof -
  have "foldl (\<lambda>m l. m(l_toolUseId l \<mapsto> l)) m xs t = Some l \<Longrightarrow> l \<in> set xs \<or> m t = Some l" for m xs
    by (induction xs arbitrary: m) (fastforce split: if_splits)+
  from this [of Map.empty "map snd ls"] show "launchesByToolUseId ls t = Some l \<Longrightarrow> l \<in> snd ` set ls"
    by (simp add: launchesByToolUseId_def)
qed

definition row_follows_launch :: "notifications \<Rightarrow> launches \<Rightarrow> int \<Rightarrow> task_row \<Rightarrow> bool" where
  "row_follows_launch ns ls restart r \<longleftrightarrow> (kind r = Kind_COMMAND \<longrightarrow>
     (\<exists>l \<in> snd ` set ls. asyncTaskId r = JStr (l_id l)
       \<and> row_status r = backgroundStatus ns restart (JStr (l_id l)) (Some (l_index l))))"

lemma commandRow_follows: "l \<in> snd ` set ls \<Longrightarrow> row_follows_launch ns ls restart (commandRow ns restart t e l)"
  unfolding row_follows_launch_def by (rule impI, rule bexI [of _ l]) (simp_all add: commandRow_def)

lemma subagentRow_follows: "row_follows_launch ns ls restart (subagentRow ns' ls' restart' m rs t e)"
  by (simp add: row_follows_launch_def subagentRow_def Let_def case_prod_unfold)

lemma taskRowStep_rows:
  "snd (taskRowStep ns ls es restart tr e) = snd tr
   \<or> (\<exists>r. snd (taskRowStep ns ls es restart tr e) = snd tr @ [r] \<and> row_follows_launch ns ls restart r)"
  using commandRow_follows [OF launchesByToolUseId_in] subagentRow_follows
  by (cases tr) (auto simp: taskRowStep_def Let_def split: option.splits)

lemma extractTasks_follow:
  assumes "r \<in> set (extractTasks es ns ls)"
  shows "row_follows_launch ns ls (lastPosition isContainerRestart es) r"
proof -
  have "\<forall>r \<in> set (snd (foldl (taskRowStep ns ls es restart) tr xs)). row_follows_launch ns ls restart r"
    if "\<forall>r \<in> set (snd tr). row_follows_launch ns ls restart r" for tr xs restart
    using that
  proof (induction xs arbitrary: tr)
    case (Cons x xs)
    have "\<forall>r \<in> set (snd (taskRowStep ns ls es restart tr x)). row_follows_launch ns ls restart r"
      using taskRowStep_rows [of ns ls es restart tr x] Cons.prems by auto
    from Cons.IH [OF this] show ?case by simp
  qed simp
  from this [of "(None, [])"] assms show ?thesis by (simp add: extractTasks_def lastPosition_def)
qed

lemma command_rows:
  assumes "r \<in> set (extractTasks es ns ls)" and "kind r = Kind_COMMAND"
  shows "\<exists>l \<in> snd ` set ls. asyncTaskId r = JStr (l_id l)
    \<and> row_status r = backgroundStatus ns (lastPosition isContainerRestart es) (JStr (l_id l)) (Some (l_index l))"
  using extractTasks_follow [OF assms(1)] assms(2) by (simp add: row_follows_launch_def)

text \<open>The launches are kept by id: an id names one launch.\<close>

definition keyed :: "launches \<Rightarrow> bool" where
  "keyed ls \<longleftrightarrow> distinct (map fst ls) \<and> (\<forall>p \<in> set ls. fst p = l_id (snd p))"

lemma keyed_update: "keyed ls \<Longrightarrow> l_id v = k \<Longrightarrow> keyed (AList.update k v ls)"
proof -
  assume keyed: "keyed ls" and v: "l_id v = k"
  have "p \<in> set ls \<or> p = (k, v)" if "p \<in> set (AList.update k v ls)" for p
    using that by (induction ls) (auto split: if_splits)
  with keyed v have "\<forall>p \<in> set (AList.update k v ls). fst p = l_id (snd p)"
    unfolding keyed_def by fastforce
  with keyed show ?thesis by (simp add: keyed_def distinct_update)
qed

lemma launches_keyed: "keyed (launchesOf log)"
proof (induction log rule: rev_induct)
  case Nil
  then show ?case by (simp add: launchesOf_def appendBackgroundLaunches_def keyed_def)
next
  case (snoc e log)
  obtain ls inputs where run: "appendBackgroundLaunches [] Map.empty log 0 = (ls, inputs)" by force
  then have "launchesOf (log @ [e]) = fst (launchStep (ls, inputs) (length log, e))"
    by (simp add: launchesOf_def appendBackgroundLaunches_def enumerate_append_eq)
  moreover from run snoc have "keyed ls" by (simp add: launchesOf_def)
  ultimately show ?case
    using launchStep_update [of ls inputs "length log" e] keyed_update [of ls] by metis
qed

lemma keyed_same: "keyed ls \<Longrightarrow> l \<in> snd ` set ls \<Longrightarrow> l' \<in> snd ` set ls \<Longrightarrow> l_id l = l_id l' \<Longrightarrow> l = l'"
  unfolding keyed_def by (metis eq_key_imp_eq_value imageE prod.collapse)

text \<open>C17. The Tasks panel and the composer agree on what still runs: in every reachable state a command row
  shows the id of a launch of the log, and it is marked running exactly if that id is among those of the
  background work the composer lists as running.\<close>

theorem tasks_panel_agrees_with_running_work:
  assumes "reduce initialState as = Some s"
    and "r \<in> set (extractTasks (events s) (taskNotifications s) (backgroundLaunches s))" and "kind r = Kind_COMMAND"
  shows "(row_status r = Task_RUNNING \<longleftrightarrow> asyncTaskId r \<in> (\<lambda>l. JStr (l_id l)) ` set (runningBackgroundWork s))
    \<and> asyncTaskId r \<in> (\<lambda>l. JStr (l_id l)) ` set (map snd (backgroundLaunches s))"
proof -
  have "derived s"
    by (rule derived_reached [OF assms(1)])
  then have ls: "backgroundLaunches s = launchesOf (events s)"
    and run: "runningBackgroundWork s = selectRunningBackgroundWork (backgroundLaunches s) (taskNotifications s)
        (lastPosition isContainerRestart (events s))"
    by (auto simp: derived_def launchesOf_def)
  from command_rows [OF assms(2,3)] obtain l where l: "l \<in> snd ` set (backgroundLaunches s)"
    "asyncTaskId r = JStr (l_id l)"
    "row_status r = backgroundStatus (taskNotifications s) (lastPosition isContainerRestart (events s))
       (JStr (l_id l)) (Some (l_index l))" by blast
  from launches_from_log [of l "events s"] l(1) ls
  have "int (l_index l) \<noteq> lastPosition isContainerRestart (events s)" by (simp add: restart_not_launch)
  then have status: "row_status r = Task_RUNNING \<longleftrightarrow> l \<in> set (runningBackgroundWork s)"
    using l(1) by (auto simp: l(3) run backgroundStatus_def selectRunningBackgroundWork_def split: option.splits)
  have "l' = l" if "l' \<in> set (runningBackgroundWork s)" "l_id l' = l_id l" for l'
    using that l(1) keyed_same [OF launches_keyed [of "events s"]]
    by (auto simp: run ls selectRunningBackgroundWork_def)
  with status l(1,2) show ?thesis by auto
qed

lemma tasks_panel_agrees_with_running_work_witness:
  "JStr ''b1'' \<in> (\<lambda>l. JStr (l_id l)) ` set (runningBackgroundWork sample_session)"
proof -
  let ?rows = "extractTasks (events sample_session) (taskNotifications sample_session) (backgroundLaunches sample_session)"
  have rows: "map (\<lambda>r. (kind r, row_status r, asyncTaskId r)) ?rows = [(Kind_COMMAND, Task_RUNNING, JStr ''b1'')]"
    by code_simp
  then obtain r where r: "?rows = [r]" "kind r = Kind_COMMAND" "row_status r = Task_RUNNING" "asyncTaskId r = JStr ''b1''"
    by auto
  then have "r \<in> set ?rows" by simp
  from tasks_panel_agrees_with_running_work [OF sample_session_reached this r(2)] r(3,4) show ?thesis by metis
qed

section \<open>Questions asked again\<close>

text \<open>
  A question's header is text when present. The fingerprint sorts the headers by code unit, so two calls
  with the same headers in another order share it.
\<close>

definition getAskUserFingerprint :: "jval \<Rightarrow> string" where
  "getAskUserFingerprint questions =
     (case questions of
        JArr qs \<Rightarrow> if qs = [] then []
          else intercalate ''|'' (sort (map (\<lambda>q. to_lower (trim (jstring (jor (jget q ''header'') (JStr []))))) qs))
      | _ \<Rightarrow> [])"

record ask_attempt =
  ask_id :: "string option"
  hasErrorResult :: bool

definition askAttempts :: "turn \<Rightarrow> (string \<times> ask_attempt) list" where
  "askAttempts t =
     (let results = resultsByCall (turn_events t)
      in map (\<lambda>e. (getAskUserFingerprint (jget (tool_input e) ''questions''),
            \<lparr>ask_id = tool_use_id e,
             hasErrorResult = (case Option.bind (tool_use_id e) results of Some r \<Rightarrow> is_error r | None \<Rightarrow> False)\<rparr>))
          (filter (\<lambda>e. ev_subtype e = Sub_TOOL_USE \<and> content e = Some ASK_USER_QUESTION) (turn_events t)))"

definition addAttempt :: "(string \<times> ask_attempt list) list \<Rightarrow> string \<times> ask_attempt \<Rightarrow> (string \<times> ask_attempt list) list" where
  "addAttempt groups fa =
     AList.update (fst fa) ((case map_of groups (fst fa) of None \<Rightarrow> [] | Some g \<Rightarrow> g) @ [snd fa]) groups"

definition computeDuplicateAskUserIds :: "turn list \<Rightarrow> string option set" where
  "computeDuplicateAskUserIds trns =
     (let byFingerprint = foldl addAttempt [] (concat (map askAttempts trns))
      in set (concat (map (\<lambda>(_, group). map ask_id (filter hasErrorResult (butlast group))) byFingerprint)))"

lemma map_of_addAttempt:
  "map_of (addAttempt groups fa) f =
     (if f = fst fa then Some ((case map_of groups f of None \<Rightarrow> [] | Some g \<Rightarrow> g) @ [snd fa]) else map_of groups f)"
  by (auto simp: addAttempt_def update_conv')

lemma byFingerprint_groups:
  "distinct (map fst groups) \<Longrightarrow>
   distinct (map fst (foldl addAttempt groups as)) \<and>
   (case map_of (foldl addAttempt groups as) f of None \<Rightarrow> [] | Some g \<Rightarrow> g) =
     (case map_of groups f of None \<Rightarrow> [] | Some g \<Rightarrow> g) @ map snd (filter (\<lambda>a. fst a = f) as)"
proof (induction as arbitrary: groups)
  case (Cons a as)
  have "distinct (map fst (addAttempt groups a))" using Cons.prems by (simp add: addAttempt_def distinct_update)
  from Cons.IH [OF this] show ?case by (simp add: map_of_addAttempt)
qed simp

text \<open>A question is hidden only as a failed attempt that was made again later with the same headers.\<close>

lemma hidden_question_was_retried:
  assumes "x \<in> computeDuplicateAskUserIds trns"
  shows "\<exists>before f a later b. concat (map askAttempts trns) = before @ (f, a) # later
    \<and> ask_id a = x \<and> hasErrorResult a \<and> (f, b) \<in> set later"
proof -
  let ?as = "concat (map askAttempts trns)"
  from assms obtain f group a where g: "(f, group) \<in> set (foldl addAttempt [] ?as)"
    and a: "a \<in> set (butlast group)" "hasErrorResult a" "ask_id a = x"
    by (auto simp: computeDuplicateAskUserIds_def Let_def)
  have "distinct (map fst (foldl addAttempt [] ?as))" using byFingerprint_groups [of "[]" ?as f] by simp
  note found = map_of_is_SomeI [OF this g]
  have "group = map snd (filter (\<lambda>p. fst p = f) ?as)"
    using byFingerprint_groups [of "[]" ?as f, THEN conjunct2, unfolded found] by simp
  moreover have "\<exists>before later b. xs = before @ (f, a) # later \<and> (f, b) \<in> set later"
    if "a \<in> set (butlast (map snd (filter (\<lambda>p. fst p = f) xs)))" for xs :: "(string \<times> ask_attempt) list"
    using that
  proof (induction xs)
    case (Cons p xs)
    show ?case
    proof (cases "fst p = f \<and> snd p = a \<and> filter (\<lambda>p. fst p = f) xs \<noteq> []")
      case True
      then obtain q where "q \<in> set xs" "fst q = f" by (auto simp: filter_empty_conv)
      with True have "p # xs = [] @ (f, a) # xs" "(f, snd q) \<in> set xs" by (cases p; cases q; simp)+
      then show ?thesis by blast
    next
      case False
      with Cons.prems have "a \<in> set (butlast (map snd (filter (\<lambda>p. fst p = f) xs)))"
        by (auto split: if_splits)
      from Cons.IH [OF this] show ?thesis by (metis append_Cons)
    qed
  qed simp
  ultimately show ?thesis using a by metis
qed

section \<open>Timing marks and servers\<close>

text \<open>Timestamps are milliseconds; an absent or zero one is falsy. \<open>threshold\<close> is in seconds, 30 by default.\<close>

fun timingOffsets :: "int \<Rightarrow> int \<Rightarrow> int \<Rightarrow> int option list \<Rightarrow> int option list" where
  "timingOffsets turnStart threshold lastShown [] = []"
| "timingOffsets turnStart threshold lastShown (t # rest) =
     (case num_or t None of
        None \<Rightarrow> None # timingOffsets turnStart threshold lastShown rest
      | Some ms \<Rightarrow>
          let offset = max 0 ((ms - turnStart) div 1000)
          in if threshold \<le> offset - lastShown then Some offset # timingOffsets turnStart threshold offset rest
             else None # timingOffsets turnStart threshold lastShown rest)"

definition computeTimingOffsets :: "int option list \<Rightarrow> int option \<Rightarrow> int \<Rightarrow> int option list" where
  "computeTimingOffsets eventTimestamps turnStartTime threshold =
     (case num_or turnStartTime None of
        None \<Rightarrow> map (\<lambda>_. None) eventTimestamps
      | Some start \<Rightarrow> timingOffsets start threshold 0 eventTimestamps)"

fun spaced :: "int \<Rightarrow> int \<Rightarrow> int list \<Rightarrow> bool" where
  "spaced gap from [] = True"
| "spaced gap from (x # xs) = (gap \<le> x - from \<and> spaced gap x xs)"

text \<open>Marks are one per event and at least a threshold apart, from the start of the turn on.\<close>

lemma timing_marks_spaced:
  "length (computeTimingOffsets es start threshold) = length es
   \<and> spaced threshold 0 (map the (filter (\<lambda>x. x \<noteq> None) (computeTimingOffsets es start threshold)))"
proof -
  have "length (timingOffsets t threshold last es) = length es
      \<and> spaced threshold last (map the (filter (\<lambda>x. x \<noteq> None) (timingOffsets t threshold last es)))" for t last
    by (induction es arbitrary: last) (auto simp: Let_def split: option.splits)
  then show ?thesis by (auto simp: computeTimingOffsets_def filter_empty_conv split: option.splits)
qed

definition getMcpServers :: "event list \<Rightarrow> jval" where
  "getMcpServers es =
     (case find (\<lambda>e. ev_type e = Ty_SYSTEM \<and> ev_subtype e = Sub_INIT) (rev es) of
        Some e \<Rightarrow> jor (jget (message_data e) ''mcp_servers'') (JArr [])
      | None \<Rightarrow> JArr [])"

end
