(* ===== verification/Cron.thy ===== *)
theory Cron
  imports Prelude
begin

text \<open>
  Cron expressions (\<open>utils/cron.js\<close>): parsing the five fields and finding the next fire.

  Times are whole minutes since 1970-01-01T00:00Z, in UTC as the code's getters and setters are. A
  \<open>Date\<close> is the number of its minute; its civil date comes from counting days from the epoch with the
  Gregorian month lengths. Fractions of milliseconds from the jitter are outside this model, and so are
  \<open>nextFireTime\<close>, \<open>nextRecurringFire\<close> and the texts of \<open>describeSchedule\<close>.
\<close>

section \<open>Parsing\<close>

definition is_digit_char :: "char \<Rightarrow> bool" where
  "is_digit_char c = (let n = of_char c :: nat in 48 \<le> n \<and> n \<le> 57)"

text \<open>A match of \<open>\d+\<close> on the whole string, as \<open>parseInt(s, 10)\<close> reads it.\<close>

definition number :: "string \<Rightarrow> nat option" where
  "number s = (if s \<noteq> [] \<and> list_all is_digit_char s
     then Some (foldl (\<lambda>n c. 10 * n + (of_char c - 48)) 0 s) else None)"

text \<open>\<open>trim().split(/\s+/)\<close>: the words of a trimmed string, or one empty word.\<close>

fun words_acc :: "string \<Rightarrow> string \<Rightarrow> string list" where
  "words_acc w [] = (if w = [] then [] else [rev w])"
| "words_acc w (c # cs) =
     (if js_space c then (if w = [] then words_acc [] cs else rev w # words_acc [] cs) else words_acc (c # w) cs)"

definition words :: "string \<Rightarrow> string list" where
  "words s = (case words_acc [] (trim s) of [] \<Rightarrow> [[]] | ws \<Rightarrow> ws)"

text \<open>The loop \<open>for (let v = lo; v <= hi; v += n)\<close>.\<close>

definition steps_to :: "nat \<Rightarrow> nat \<Rightarrow> nat \<Rightarrow> nat list" where
  "steps_to lo hi n = filter (\<lambda>v. (v - lo) mod n = 0) [lo..<Suc hi]"

text \<open>One item of a field: every value, a range or a number. A weekday 7 is 0.\<close>

datatype cron_item = Item_step nat | Item_range nat nat nat | Item_value nat

definition scan_item :: "string \<Rightarrow> cron_item option" where
  "scan_item item =
     (if item = ''*'' then Some (Item_step 1)
      else if starts_with ''*/'' item then map_option Item_step (number (drop 2 item))
      else case split_on ''-'' item of
        Some (lo, rest) \<Rightarrow>
          (let (hi, n) = (case split_on ''/'' rest of Some (b, s) \<Rightarrow> (number b, number s) | None \<Rightarrow> (number rest, Some 1))
           in case (number lo, hi, n) of (Some l, Some h, Some k) \<Rightarrow> Some (Item_range l h k) | _ \<Rightarrow> None)
      | None \<Rightarrow> map_option Item_value (number item))"

definition item_values :: "nat \<Rightarrow> nat \<Rightarrow> cron_item \<Rightarrow> nat list option" where
  "item_values mn mx item =
     (let isWeekday = (mn = 0 \<and> mx = 6); wrap = (\<lambda>v. if isWeekday \<and> v = 7 then 0 else v)
      in case item of
           Item_step n \<Rightarrow> if n < 1 then None else Some (steps_to mn mx n)
         | Item_range lo hi n \<Rightarrow>
             if lo > hi \<or> n < 1 \<or> lo < mn \<or> hi > (if isWeekday then 7 else mx) then None
             else Some (map wrap (steps_to lo hi n))
         | Item_value v \<Rightarrow> if wrap v < mn \<or> wrap v > mx then None else Some [wrap v])"

fun parse_items :: "nat \<Rightarrow> nat \<Rightarrow> string list \<Rightarrow> nat list option" where
  "parse_items mn mx [] = Some []"
| "parse_items mn mx (i # is) =
     (case Option.bind (scan_item i) (item_values mn mx) of
        None \<Rightarrow> None
      | Some vs \<Rightarrow> map_option ((@) vs) (parse_items mn mx is))"

definition parseField :: "nat \<times> nat \<Rightarrow> string \<Rightarrow> nat list option" where
  "parseField mm part =
     (case parse_items (fst mm) (snd mm) (split_char (CHR '','') part) of
        None \<Rightarrow> None
      | Some vs \<Rightarrow> if vs = [] then None else Some (sort (remdups vs)))"

record cron_fields =
  minute :: "nat list"
  hour :: "nat list"
  dayOfMonth :: "nat list"
  month :: "nat list"
  dayOfWeek :: "nat list"

definition parseCron :: "string \<Rightarrow> cron_fields option" where
  "parseCron expr =
     (case words expr of
        [a, b, c, d, e] \<Rightarrow>
          (case (parseField (0, 59) a, parseField (0, 23) b, parseField (1, 31) c, parseField (1, 12) d, parseField (0, 6) e) of
             (Some mi, Some h, Some dm, Some mo, Some dw) \<Rightarrow>
               Some \<lparr>minute = mi, hour = h, dayOfMonth = dm, month = mo, dayOfWeek = dw\<rparr>
           | _ \<Rightarrow> None)
      | _ \<Rightarrow> None)"

definition field_ok :: "nat \<Rightarrow> nat \<Rightarrow> nat list \<Rightarrow> bool" where
  "field_ok mn mx vs \<longleftrightarrow> vs \<noteq> [] \<and> sorted_wrt (<) vs \<and> (\<forall>v \<in> set vs. mn \<le> v \<and> v \<le> mx)"

lemma steps_to_range: "v \<in> set (steps_to lo hi n) \<Longrightarrow> lo \<le> v \<and> v \<le> hi"
  by (auto simp: steps_to_def)

lemma item_values_range:
  "item_values mn mx i = Some vs \<Longrightarrow> v \<in> set vs \<Longrightarrow> mn \<le> v \<and> v \<le> mx"
proof (cases i)
  case (Item_range lo hi n)
  moreover assume "item_values mn mx i = Some vs" "v \<in> set vs"
  ultimately obtain w where "w \<in> set (steps_to lo hi n)" "mn \<le> lo" "hi \<le> (if mn = 0 \<and> mx = 6 then 7 else mx)"
    "v = (if mn = 0 \<and> mx = 6 \<and> w = 7 then 0 else w)"
    by (auto simp: item_values_def Let_def split: if_splits)
  with steps_to_range [OF this(1)] show ?thesis by (auto split: if_splits)
qed (auto simp: item_values_def Let_def dest: steps_to_range split: if_splits)

lemma parse_items_range:
  "parse_items mn mx is = Some vs \<Longrightarrow> v \<in> set vs \<Longrightarrow> mn \<le> v \<and> v \<le> mx"
proof (induction "is" arbitrary: vs)
  case (Cons i "is")
  then obtain us ws item where "scan_item i = Some item" "item_values mn mx item = Some us"
    "parse_items mn mx is = Some ws" "vs = us @ ws"
    by (auto split: option.splits simp: bind_eq_Some_conv)
  with Cons item_values_range show ?case by auto
qed simp

lemma parseField_ok:
  assumes "parseField (mn, mx) p = Some vs"
  shows "field_ok mn mx vs"
proof -
  from assms obtain us where us: "parse_items mn mx (split_char (CHR '','') p) = Some us" "us \<noteq> []"
    "vs = sort (remdups us)"
    by (auto simp: parseField_def split: option.splits if_splits)
  then have "set vs = set us" by simp
  with us(2) have "vs \<noteq> []" by auto
  with us parse_items_range [OF us(1)] show ?thesis by (simp add: field_ok_def strict_sorted_iff)
qed

lemma parseCron_ok:
  "parseCron e = Some f \<Longrightarrow> field_ok 0 59 (minute f) \<and> field_ok 0 23 (hour f) \<and> field_ok 1 31 (dayOfMonth f)
     \<and> field_ok 1 12 (month f) \<and> field_ok 0 6 (dayOfWeek f)"
  by (auto simp: parseCron_def split: list.splits option.splits dest: parseField_ok)

section \<open>The calendar\<close>

definition leap_year :: "nat \<Rightarrow> bool" where
  "leap_year y \<longleftrightarrow> 4 dvd y \<and> (\<not> 100 dvd y \<or> 400 dvd y)"

definition days_in_month :: "nat \<Rightarrow> nat \<Rightarrow> nat" where
  "days_in_month y m =
     (if m = 2 then (if leap_year y then 29 else 28) else if m \<in> {4, 6, 9, 11} then 30 else 31)"

fun next_date :: "nat \<times> nat \<times> nat \<Rightarrow> nat \<times> nat \<times> nat" where
  "next_date (y, m, d) =
     (if d < days_in_month y m then (y, m, Suc d) else if m < 12 then (y, Suc m, 1) else (Suc y, 1, 1))"

fun date_of :: "nat \<Rightarrow> nat \<times> nat \<times> nat" where
  "date_of 0 = (1970, 1, 1)"
| "date_of (Suc n) = next_date (date_of n)"

definition getUTCMonth1 :: "nat \<Rightarrow> nat" where
  "getUTCMonth1 t = fst (snd (date_of (t div 1440)))"

definition getUTCDate :: "nat \<Rightarrow> nat" where
  "getUTCDate t = snd (snd (date_of (t div 1440)))"

text \<open>1970-01-01 was a Thursday.\<close>

definition getUTCDay :: "nat \<Rightarrow> nat" where
  "getUTCDay t = (t div 1440 + 4) mod 7"

definition getUTCHours :: "nat \<Rightarrow> nat" where
  "getUTCHours t = t div 60 mod 24"

definition getUTCMinutes :: "nat \<Rightarrow> nat" where
  "getUTCMinutes t = t mod 60"

text \<open>The setters the search uses: midnight of the next month's first day, of the next day, and the start
  of the next hour.\<close>

definition start_of_next_month :: "nat \<Rightarrow> nat" where
  "start_of_next_month t =
     (let (y, m, d) = date_of (t div 1440) in (t div 1440 + (days_in_month y m - d) + 1) * 1440)"

definition start_of_next_day :: "nat \<Rightarrow> nat" where
  "start_of_next_day t = (t div 1440 + 1) * 1440"

definition start_of_next_hour :: "nat \<Rightarrow> nat" where
  "start_of_next_hour t = (t div 60 + 1) * 60"

section \<open>The search\<close>

definition SEARCH_LIMIT_MINUTES :: nat where
  "SEARCH_LIMIT_MINUTES = 527040"

definition day_matches :: "cron_fields \<Rightarrow> nat \<Rightarrow> bool" where
  "day_matches f t =
     (let anyDay = length (dayOfMonth f) = 31; anyWeekday = length (dayOfWeek f) = 7
      in if anyDay \<and> anyWeekday then True
         else if anyDay then getUTCDay t \<in> set (dayOfWeek f)
         else if anyWeekday then getUTCDate t \<in> set (dayOfMonth f)
         else getUTCDate t \<in> set (dayOfMonth f) \<or> getUTCDay t \<in> set (dayOfWeek f))"

fun cron_search :: "nat \<Rightarrow> cron_fields \<Rightarrow> nat \<Rightarrow> nat option" where
  "cron_search 0 f t = None"
| "cron_search (Suc n) f t =
     (if getUTCMonth1 t \<notin> set (month f) then cron_search n f (start_of_next_month t)
      else if \<not> day_matches f t then cron_search n f (start_of_next_day t)
      else if getUTCHours t \<notin> set (hour f) then cron_search n f (start_of_next_hour t)
      else if getUTCMinutes t \<notin> set (minute f) then cron_search n f (t + 1)
      else Some t)"

text \<open>\<open>afterMs\<close> and the result are milliseconds since the epoch.\<close>

definition nextCronMatch :: "cron_fields \<Rightarrow> nat \<Rightarrow> nat option" where
  "nextCronMatch f afterMs =
     map_option (\<lambda>t. t * 60000) (cron_search SEARCH_LIMIT_MINUTES f (afterMs div 60000 + 1))"

section \<open>The first match\<close>

definition matches :: "cron_fields \<Rightarrow> nat \<Rightarrow> bool" where
  "matches f t \<longleftrightarrow> getUTCMonth1 t \<in> set (month f) \<and> day_matches f t \<and> getUTCHours t \<in> set (hour f)
     \<and> getUTCMinutes t \<in> set (minute f)"

lemma date_valid: "date_of n = (y, m, d) \<Longrightarrow> 1 \<le> d \<and> d \<le> days_in_month y m"
proof (induction n arbitrary: y m d)
  case 0
  then show ?case by (auto simp: days_in_month_def)
next
  case (Suc n)
  obtain y' m' d' where p: "date_of n = (y', m', d')" by (cases "date_of n") auto
  from Suc.IH [OF p] Suc.prems p show ?case by (auto simp: days_in_month_def split: if_splits)
qed

lemma date_within_month:
  "date_of n = (y, m, d) \<Longrightarrow> d + k \<le> days_in_month y m \<Longrightarrow> date_of (n + k) = (y, m, d + k)"
proof (induction k)
  case (Suc k)
  then have "date_of (n + k) = (y, m, d + k)" by simp
  with Suc.prems(2) show ?case by simp
qed simp

text \<open>Nothing is skipped: between a minute and where the search jumps, the field that failed is constant.\<close>

lemma month_constant:
  assumes "t \<le> u" and "u < start_of_next_month t"
  shows "getUTCMonth1 u = getUTCMonth1 t"
proof -
  obtain y m d where p: "date_of (t div 1440) = (y, m, d)" by (cases "date_of (t div 1440)") auto
  define k where "k = u div 1440 - t div 1440"
  have le: "t div 1440 \<le> u div 1440" using assms(1) by (rule div_le_mono)
  have "u div 1440 < t div 1440 + (days_in_month y m - d) + 1"
    using assms(2) by (simp add: start_of_next_month_def p less_mult_imp_div_less)
  with date_valid [OF p] le have "d + k \<le> days_in_month y m" unfolding k_def by linarith
  from date_within_month [OF p this] le show ?thesis by (simp add: getUTCMonth1_def p k_def)
qed

lemma day_constant:
  assumes "t \<le> u" and "u < start_of_next_day t"
  shows "day_matches f u = day_matches f t"
proof -
  have "t div 1440 \<le> u div 1440" using assms(1) by (rule div_le_mono)
  moreover have "u div 1440 < t div 1440 + 1"
    using assms(2) unfolding start_of_next_day_def by (rule less_mult_imp_div_less)
  ultimately have "u div 1440 = t div 1440" by simp
  then show ?thesis by (simp add: day_matches_def getUTCDate_def getUTCDay_def)
qed

lemma hour_constant:
  assumes "t \<le> u" and "u < start_of_next_hour t"
  shows "getUTCHours u = getUTCHours t"
proof -
  have "t div 60 \<le> u div 60" using assms(1) by (rule div_le_mono)
  moreover have "u div 60 < t div 60 + 1"
    using assms(2) unfolding start_of_next_hour_def by (rule less_mult_imp_div_less)
  ultimately have "u div 60 = t div 60" by simp
  then show ?thesis by (simp add: getUTCHours_def)
qed

lemma next_later: "t < start_of_next_month t" "t < start_of_next_day t" "t < start_of_next_hour t"
proof -
  have "t < (t div 1440 + 1) * 1440" "t < (t div 60 + 1) * 60" by simp_all
  moreover have "(t div 1440 + 1) * 1440 \<le> start_of_next_month t"
    by (cases "date_of (t div 1440)") (simp add: start_of_next_month_def)
  ultimately show "t < start_of_next_month t" "t < start_of_next_day t" "t < start_of_next_hour t"
    by (simp_all add: start_of_next_day_def start_of_next_hour_def)
qed

text \<open>One turn of the loop: it stops at a match or moves on past minutes that do not match.\<close>

lemma cron_search_step:
  obtains (found) "cron_search (Suc n) f t = Some t" "matches f t"
  | (moved) t' where "cron_search (Suc n) f t = cron_search n f t'" "t < t'" "\<And>u. t \<le> u \<Longrightarrow> u < t' \<Longrightarrow> \<not> matches f u"
proof (cases "getUTCMonth1 t \<in> set (month f)")
  case False
  have "\<not> matches f u" if "t \<le> u" "u < start_of_next_month t" for u
    using month_constant [OF that] False by (simp add: matches_def)
  with False next_later(1) show ?thesis by (intro moved [of "start_of_next_month t"]) simp_all
next
  case m: True
  show ?thesis
  proof (cases "day_matches f t")
    case False
    have "\<not> matches f u" if "t \<le> u" "u < start_of_next_day t" for u
      using day_constant [OF that] False by (simp add: matches_def)
    with False m next_later(2) show ?thesis by (intro moved [of "start_of_next_day t"]) simp_all
  next
    case d: True
    show ?thesis
    proof (cases "getUTCHours t \<in> set (hour f)")
      case False
      have "\<not> matches f u" if "t \<le> u" "u < start_of_next_hour t" for u
        using hour_constant [OF that] False by (simp add: matches_def)
      with False m d next_later(3) show ?thesis by (intro moved [of "start_of_next_hour t"]) simp_all
    next
      case h: True
      show ?thesis
      proof (cases "getUTCMinutes t \<in> set (minute f)")
        case False
        have "\<not> matches f u" if "t \<le> u" "u < t + 1" for u
        proof -
          from that have "u = t" by simp
          with False show ?thesis by (simp add: matches_def)
        qed
        with False m d h show ?thesis by (intro moved [of "t + 1"]) simp_all
      next
        case True
        with m d h show ?thesis by (intro found) (simp_all add: matches_def)
      qed
    qed
  qed
qed

lemma cron_search_first:
  "(case cron_search n f t of
      Some r \<Rightarrow> t \<le> r \<and> matches f r \<and> (\<forall>u. t \<le> u \<longrightarrow> u < r \<longrightarrow> \<not> matches f u)
    | None \<Rightarrow> (\<forall>u. t \<le> u \<longrightarrow> u < t + n \<longrightarrow> \<not> matches f u))"
proof (induction n arbitrary: t)
  case 0
  then show ?case by simp
next
  case (Suc n)
  show ?case
  proof (cases rule: cron_search_step [of n f t])
    case found
    have "cron_search (Suc n) f t = Some t" by (rule found(1))
    with found(2) show ?thesis by (simp del: cron_search.simps)
  next
    case (moved t')
    show ?thesis
    proof (cases "cron_search n f t'")
      case None
      have "\<not> matches f u" if "t \<le> u" "u < t + Suc n" for u
      proof (cases "u < t'")
        case True
        with moved(3) that(1) show ?thesis by blast
      next
        case False
        with that moved(2) have "t' \<le> u" "u < t' + n" by simp_all
        with Suc.IH [of t'] None show ?thesis by simp
      qed
      with None moved(1) show ?thesis by (simp del: cron_search.simps)
    next
      case (Some r)
      with Suc.IH [of t'] have r: "t' \<le> r" "matches f r" "\<And>u. t' \<le> u \<Longrightarrow> u < r \<Longrightarrow> \<not> matches f u" by auto
      have "\<not> matches f u" if "t \<le> u" "u < r" for u
        using moved(3) [of u] r(3) [of u] that by (cases "u < t'") simp_all
      with r moved(1,2) Some show ?thesis by (simp del: cron_search.simps)
    qed
  qed
qed

text \<open>C18. The search finds the next fire and nothing else: for a valid expression every field lists values in
  its range, and the result is the first whole minute strictly after the given instant that matches them
  all, for all the leaps over months, days and hours; when it gives up, no minute of the following 366
  days matches.\<close>

theorem nextCronMatch_is_first_match:
  assumes "parseCron expr = Some f"
  shows "(field_ok 0 59 (minute f) \<and> field_ok 0 23 (hour f) \<and> field_ok 1 31 (dayOfMonth f)
      \<and> field_ok 1 12 (month f) \<and> field_ok 0 6 (dayOfWeek f))
    \<and> (case nextCronMatch f afterMs of
        Some ms \<Rightarrow> \<exists>t. ms = t * 60000 \<and> afterMs < ms \<and> matches f t
          \<and> (\<forall>u. afterMs < u * 60000 \<longrightarrow> u < t \<longrightarrow> \<not> matches f u)
      | None \<Rightarrow> \<forall>u. afterMs < u * 60000 \<longrightarrow> u * 60000 \<le> afterMs + 366 * 86400000 \<longrightarrow> \<not> matches f u)"
proof -
  define t0 where "t0 = afterMs div 60000 + 1"
  have after: "afterMs < u * 60000 \<longleftrightarrow> t0 \<le> u" for u
    unfolding t0_def by (simp add: Suc_le_eq div_less_iff_less_mult)
  have limit: "u < t0 + SEARCH_LIMIT_MINUTES" if "u * 60000 \<le> afterMs + 366 * 86400000" for u
    using that unfolding t0_def SEARCH_LIMIT_MINUTES_def by linarith
  note first = cron_search_first [where n = SEARCH_LIMIT_MINUTES and f = f and t = t0]
  have "case nextCronMatch f afterMs of
        Some ms \<Rightarrow> \<exists>t. ms = t * 60000 \<and> afterMs < ms \<and> matches f t
          \<and> (\<forall>u. afterMs < u * 60000 \<longrightarrow> u < t \<longrightarrow> \<not> matches f u)
      | None \<Rightarrow> \<forall>u. afterMs < u * 60000 \<longrightarrow> u * 60000 \<le> afterMs + 366 * 86400000 \<longrightarrow> \<not> matches f u"
  proof (cases "cron_search SEARCH_LIMIT_MINUTES f t0")
    case None
    then have "nextCronMatch f afterMs = None" by (simp add: nextCronMatch_def t0_def)
    moreover from first None have "\<forall>u. t0 \<le> u \<longrightarrow> u < t0 + SEARCH_LIMIT_MINUTES \<longrightarrow> \<not> matches f u" by simp
    ultimately show ?thesis using limit unfolding after by simp
  next
    case (Some r)
    then have "nextCronMatch f afterMs = Some (r * 60000)" by (simp add: nextCronMatch_def t0_def)
    moreover from first Some have r: "t0 \<le> r" "matches f r" "\<forall>u. t0 \<le> u \<longrightarrow> u < r \<longrightarrow> \<not> matches f u" by simp_all
    ultimately show ?thesis by (simp add: after)
  qed
  with parseCron_ok [OF assms] show ?thesis by blast
qed

lemma nextCronMatch_is_first_match_witness:
  "\<exists>f. parseCron ''30 2 15 */2 1-5/2,7'' = Some f \<and> dayOfWeek f = [0, 1, 3, 5] \<and> field_ok 0 6 (dayOfWeek f)"
proof -
  have parsed: "map_option dayOfWeek (parseCron ''30 2 15 */2 1-5/2,7'') = Some [0, 1, 3, 5]" by code_simp
  then obtain f where "parseCron ''30 2 15 */2 1-5/2,7'' = Some f" "dayOfWeek f = [0, 1, 3, 5]" by auto
  with nextCronMatch_is_first_match [OF this(1)] show ?thesis by blast
qed

end
