(* ===== verification/SessionTree.thy ===== *)
theory SessionTree
  imports Prelude "HOL-Library.List_Lexorder" "HOL-Library.Char_ord"
begin

text \<open>
  The sessions panel: which sessions a filter lists, the tree it shows them in and the search results
  (\<open>features/sessions/utils/sessionTree.js\<close>, \<open>utils/sessionName.js\<close>), and the panel's own state: the
  expanded rows and the fallback to the All filter (\<open>features/sessions/SessionsPanel.jsx\<close>).

  The recursive walks over the children map do not end on a cycle of parents; the engine then throws
  when its call stack is full. The first argument of a walk is the depth of calls the stack allows, and
  \<open>None\<close> is that exception. Loops that may not end are partial functions to \<open>option\<close>.
\<close>

section \<open>Sessions and filters\<close>

record session =
  session_id :: string
  parent_session_id :: "string option"
  spawned_from_session_id :: "string option"
  is_side_thread :: bool
  session_name :: "string option"
  auto_name :: "string option"
  num_turns :: int
  container_id :: "string option"
  updated_at :: "string option"
  started_at :: "string option"

datatype session_filter = CONVERSATIONS | NAMED | PINNED | THREADS | SUBSESSIONS | ALL_SESSIONS

definition SESSION_FILTER_ORDER :: "session_filter list" where
  "SESSION_FILTER_ORDER = [CONVERSATIONS, NAMED, PINNED, THREADS, SUBSESSIONS, ALL_SESSIONS]"

definition ORIGIN_FILTERS :: "session_filter list" where
  "ORIGIN_FILTERS = [THREADS, SUBSESSIONS]"

fun matchesSessionFilter :: "session_filter \<Rightarrow> session \<Rightarrow> string list \<Rightarrow> bool" where
  "matchesSessionFilter CONVERSATIONS s pins = (\<not> is_side_thread s)"
| "matchesSessionFilter NAMED s pins = (session_name s \<noteq> None)"
| "matchesSessionFilter PINNED s pins = (session_id s \<in> set pins)"
| "matchesSessionFilter THREADS s pins = is_side_thread s"
| "matchesSessionFilter SUBSESSIONS s pins = (spawned_from_session_id s \<noteq> None)"
| "matchesSessionFilter ALL_SESSIONS s pins = True"

definition originIdFor :: "session_filter \<Rightarrow> session \<Rightarrow> string option" where
  "originIdFor flt s =
     (if flt = SUBSESSIONS then spawned_from_session_id s else parent_session_id s)"

definition displayName :: "session \<Rightarrow> string option" where
  "displayName s =
     (if nonempty (session_name s) then session_name s
      else if nonempty (auto_name s) then auto_name s else None)"

definition isAutoNamed :: "session \<Rightarrow> bool" where
  "isAutoNamed s \<longleftrightarrow> \<not> nonempty (session_name s) \<and> nonempty (auto_name s)"

definition isVisibleSession :: "session \<Rightarrow> string option \<Rightarrow> bool" where
  "isVisibleSession s cur \<longleftrightarrow>
     0 < num_turns s \<or> nonempty (container_id s) \<or> Some (session_id s) = cur"

section \<open>The tree\<close>

type_synonym children_map = "(string \<times> session list) list"

record session_tree =
  rootSessions :: "session list"
  childrenMap :: children_map

definition children :: "children_map \<Rightarrow> session \<Rightarrow> session list" where
  "children cm s = (case map_of cm (session_id s) of None \<Rightarrow> [] | Some cs \<Rightarrow> cs)"

fun countSubtree :: "nat \<Rightarrow> children_map \<Rightarrow> session \<Rightarrow> nat option" where
  "countSubtree 0 cm s = None"
| "countSubtree (Suc d) cm s =
     map_option (\<lambda>ns. 1 + sum_list ns) (those (map (countSubtree d cm) (children cm s)))"

definition countTreeRows :: "nat \<Rightarrow> session_tree \<Rightarrow> nat option" where
  "countTreeRows d t =
     map_option sum_list (those (map (countSubtree d (childrenMap t)) (rootSessions t)))"

record tree_row =
  row_key :: string
  row_session :: session
  row_depth :: nat
  isLastChild :: bool
  continuations :: "bool list"
  hasChildren :: bool
  isExpanded :: bool
  hiddenSessions :: "session list"

fun descendantsOf :: "nat \<Rightarrow> children_map \<Rightarrow> session \<Rightarrow> session list option" where
  "descendantsOf 0 cm s = None"
| "descendantsOf (Suc d) cm s =
     map_option concat
       (those (map (\<lambda>child. map_option ((#) child) (descendantsOf d cm child)) (children cm s)))"

fun visit :: "nat \<Rightarrow> children_map \<Rightarrow> (string \<Rightarrow> bool) \<Rightarrow> string \<Rightarrow> nat \<Rightarrow> bool list
    \<Rightarrow> bool \<Rightarrow> session \<Rightarrow> tree_row list option" where
  "visit 0 cm expanded rootId depth conts isLast s = None"
| "visit (Suc d) cm expanded rootId depth conts isLast s =
     (let cs = children cm s; ex = expanded (session_id s) in
      case (if ex then Some [] else descendantsOf d cm s) of
        None \<Rightarrow> None
      | Some hidden \<Rightarrow>
          map_option
            (\<lambda>below.
               \<lparr>row_key = rootId @ ''/'' @ session_id s, row_session = s, row_depth = depth,
                isLastChild = isLast, continuations = conts, hasChildren = cs \<noteq> [],
                isExpanded = ex, hiddenSessions = hidden\<rparr> # concat below)
            (if ex
             then those (map (\<lambda>(i, child).
                    visit d cm expanded rootId (depth + 1) (conts @ [0 < depth \<and> \<not> isLast])
                      (Suc i = length cs) child) (enumerate 0 cs))
             else Some []))"

definition flattenSessionTree :: "nat \<Rightarrow> session_tree \<Rightarrow> (string \<Rightarrow> bool) \<Rightarrow> tree_row list option" where
  "flattenSessionTree d t expanded =
     map_option concat
       (those (map (\<lambda>(i, root).
          visit d (childrenMap t) expanded (session_id root) 0 []
            (Suc i = length (rootSessions t)) root) (enumerate 0 (rootSessions t))))"

text \<open>The loop over an explicit stack; the stack's top is the end of the list.\<close>

partial_function (option) search_stack :: "children_map \<Rightarrow> string \<Rightarrow> session list \<Rightarrow> bool option" where
  "search_stack cm sid stack =
     (if stack = [] then Some False
      else if session_id (last stack) = sid then Some True
      else search_stack cm sid (butlast stack @ children cm (last stack)))"

declare search_stack.simps [code]

definition isSessionInTree :: "session_tree \<Rightarrow> string \<Rightarrow> bool option" where
  "isSessionInTree t sid = search_stack (childrenMap t) sid (rootSessions t)"

section \<open>Order\<close>

text \<open>
  \<open>sort(byTimestamp)\<close> is stable and descending. It calls the comparator, and so \<open>getTimestamp\<close>, on every
  element as soon as there are two.
\<close>

definition sort_desc :: "(string \<times> 'a) list \<Rightarrow> (string \<times> 'a) list" where
  "sort_desc xs = rev (sort_key fst (rev xs))"

definition sort_tier :: "('a \<Rightarrow> string option) \<Rightarrow> 'a list \<Rightarrow> 'a list option" where
  "sort_tier getTimestamp xs =
     (if length xs < 2 then Some xs
      else map_option (\<lambda>ts. map snd (sort_desc (zip ts xs))) (those (map getTimestamp xs)))"

definition sortByPinnedThenRecency ::
  "session list \<Rightarrow> string list \<Rightarrow> (session \<Rightarrow> string option) \<Rightarrow> session list option" where
  "sortByPinnedThenRecency xs pins getTimestamp =
     (let pinned = filter (\<lambda>s. session_id s \<in> set pins) xs;
          unpinned = filter (\<lambda>s. session_id s \<notin> set pins) xs
      in case sort_tier getTimestamp (filter (\<lambda>s. nonempty (container_id s)) unpinned) of
           None \<Rightarrow> None
         | Some withContainer \<Rightarrow>
             map_option (\<lambda>withoutContainer. pinned @ withContainer @ withoutContainer)
               (sort_tier getTimestamp (filter (\<lambda>s. \<not> nonempty (container_id s)) unpinned)))"

section \<open>Building the tree\<close>

fun group_step :: "string list \<Rightarrow> session_tree \<Rightarrow> session \<Rightarrow> session_tree" where
  "group_step pins t s =
     (let cm = (case parent_session_id s of
                  Some p \<Rightarrow>
                    if p \<noteq> [] then AList.update p ((case map_of (childrenMap t) p of None \<Rightarrow> [] | Some cs \<Rightarrow> cs) @ [s])
                                      (childrenMap t)
                    else childrenMap t
                | None \<Rightarrow> childrenMap t)
      in if \<not> nonempty (parent_session_id s) \<or> session_id s \<in> set pins
         then \<lparr>rootSessions = rootSessions t @ [s], childrenMap = cm\<rparr>
         else \<lparr>rootSessions = rootSessions t, childrenMap = cm\<rparr>)"

definition group_sessions :: "session list \<Rightarrow> string list \<Rightarrow> string option \<Rightarrow> session_tree" where
  "group_sessions sessions pins cur =
     foldl (group_step pins) \<lparr>rootSessions = [], childrenMap = []\<rparr>
       (filter (\<lambda>s. isVisibleSession s cur) sessions)"

definition own_timestamp :: "session \<Rightarrow> string" where
  "own_timestamp s =
     (if nonempty (updated_at s) then the (updated_at s)
      else if nonempty (started_at s) then the (started_at s) else [])"

fun getMaxTimestamp :: "nat \<Rightarrow> children_map \<Rightarrow> session \<Rightarrow> string option" where
  "getMaxTimestamp 0 cm s = None"
| "getMaxTimestamp (Suc d) cm s =
     map_option (foldl (\<lambda>mx childMax. if mx < childMax then childMax else mx) (own_timestamp s))
       (those (map (getMaxTimestamp d cm) (children cm s)))"

definition buildSessionTree ::
  "nat \<Rightarrow> session list \<Rightarrow> string list \<Rightarrow> string option \<Rightarrow> session_tree option" where
  "buildSessionTree d sessions pins cur =
     (let t = group_sessions sessions pins cur
      in map_option (\<lambda>roots. t\<lparr>rootSessions := roots\<rparr>)
           (sortByPinnedThenRecency (rootSessions t) pins (getMaxTimestamp d (childrenMap t))))"

section \<open>Search\<close>

definition matchesSearchQuery :: "session \<Rightarrow> string \<Rightarrow> bool" where
  "matchesSearchQuery s query =
     (let q = to_lower query
      in (case displayName s of None \<Rightarrow> False | Some n \<Rightarrow> str_includes q (to_lower n))
         \<or> str_includes q (to_lower (session_id s)))"

definition buildSearchResults ::
  "session list \<Rightarrow> string \<Rightarrow> string list \<Rightarrow> string option \<Rightarrow> session list option" where
  "buildSearchResults sessions query pins cur =
     sortByPinnedThenRecency
       (filter (\<lambda>s. isVisibleSession s cur \<and> matchesSearchQuery s query) sessions)
       pins (\<lambda>s. Some (own_timestamp s))"

section \<open>The panel\<close>

text \<open>What the panel lists for a filter: the origin filters a flat list, the others their tree.\<close>

definition treeFor ::
  "nat \<Rightarrow> session_filter \<Rightarrow> session list \<Rightarrow> string list \<Rightarrow> string option \<Rightarrow> session_tree option" where
  "treeFor d flt sessions pins cur =
     buildSessionTree d (filter (\<lambda>s. matchesSessionFilter flt s pins) sessions) pins cur"

definition originSessions :: "session_filter \<Rightarrow> session list \<Rightarrow> string list \<Rightarrow> session list" where
  "originSessions flt sessions pins =
     (if flt \<in> set ORIGIN_FILTERS then filter (\<lambda>s. matchesSessionFilter flt s pins) sessions else [])"

definition getCount ::
  "nat \<Rightarrow> session_filter \<Rightarrow> session list \<Rightarrow> string list \<Rightarrow> string option \<Rightarrow> nat option" where
  "getCount d flt sessions pins cur = Option.bind (treeFor d flt sessions pins cur) (countTreeRows d)"

record panel_rows =
  expandedSessions :: "string list"
  manuallyCollapsed :: "string list"

definition toggleExpanded :: "string \<Rightarrow> panel_rows \<Rightarrow> panel_rows" where
  "toggleExpanded sid p =
     (if sid \<in> set (expandedSessions p)
      then p\<lparr>expandedSessions := removeAll sid (expandedSessions p),
             manuallyCollapsed := List.insert sid (manuallyCollapsed p)\<rparr>
      else p\<lparr>expandedSessions := expandedSessions p @ [sid],
             manuallyCollapsed := removeAll sid (manuallyCollapsed p)\<rparr>)"

partial_function (option) ancestor_ids ::
  "(string \<Rightarrow> session option) \<Rightarrow> session option \<Rightarrow> string list \<Rightarrow> string list option" where
  "ancestor_ids byId current found =
     (case current of
        None \<Rightarrow> Some found
      | Some s \<Rightarrow>
          (case parent_session_id s of
             None \<Rightarrow> Some found
           | Some p \<Rightarrow>
               if p = [] then Some found
               else ancestor_ids byId (byId p) (List.insert p found)))"

declare ancestor_ids.simps [code]

definition expandActiveAncestors ::
  "string option \<Rightarrow> session list \<Rightarrow> string list \<Rightarrow> panel_rows \<Rightarrow> panel_rows option" where
  "expandActiveAncestors cur sessions pins p =
     (if \<not> nonempty cur \<or> sessions = [] then Some p
      else if the cur \<in> set pins then Some \<lparr>expandedSessions = [], manuallyCollapsed = []\<rparr>
      else (let byId = map_of (rev (map (\<lambda>s. (session_id s, s)) sessions))
            in map_option
                 (\<lambda>ids. p\<lparr>expandedSessions :=
                    foldl (\<lambda>next i. if i \<in> set (manuallyCollapsed p) \<or> i \<in> set next then next else next @ [i])
                      (expandedSessions p) ids\<rparr>)
                 (ancestor_ids byId (byId (the cur)) [])))"

text \<open>The fallback to All, evaluated when the open session changes.\<close>

record filter_check =
  hasFilterBaseline :: bool
  lastCheckedSessionId :: "string option"
  fallbackToAll :: bool

definition checkFilter ::
  "nat \<Rightarrow> session_filter \<Rightarrow> session list \<Rightarrow> string list \<Rightarrow> string option \<Rightarrow> filter_check
   \<Rightarrow> filter_check option" where
  "checkFilter d pick sessions pins cur c =
     (if \<not> nonempty cur then Some c
      else if \<not> hasFilterBaseline c
      then Some (c\<lparr>hasFilterBaseline := True, lastCheckedSessionId := cur\<rparr>)
      else if cur = lastCheckedSessionId c then Some c
      else (let c = c\<lparr>lastCheckedSessionId := cur\<rparr> in
        if pick = ALL_SESSIONS then Some c
        else map_option (\<lambda>present. c\<lparr>fallbackToAll := \<not> present\<rparr>)
               (Option.bind (treeFor d pick sessions pins cur) (\<lambda>t. isSessionInTree t (the cur)))))"

definition panelFilter :: "session_filter \<Rightarrow> filter_check \<Rightarrow> session_filter" where
  "panelFilter pick c = (if fallbackToAll c then ALL_SESSIONS else pick)"

text \<open>A click on a filter stores the pick and clears the fallback.\<close>

definition setPanelFilter ::
  "session_filter \<Rightarrow> session_filter \<times> filter_check \<Rightarrow> session_filter \<times> filter_check" where
  "setPanelFilter flt pc = (flt, (snd pc)\<lparr>fallbackToAll := False\<rparr>)"

end
