(* ===== verification/SessionTreeFacts.thy ===== *)
theory SessionTreeFacts
  imports SessionTree "HOL-Library.Multiset"
begin

text \<open>
  What the sessions panel guarantees. \<open>preorder\<close> is the reference: a session and everything below it,
  depth first; counting, flattening and searching are shown to agree with it. \<open>forks\<close> is the relation of
  a session to its forks among a list of sessions. Ids are unique, and then a walk from a session without
  a parent never meets a cycle, so only pinned sessions on a cycle of parents could make a walk run on.
\<close>

section \<open>The walks against one reference\<close>

definition preorder :: "nat \<Rightarrow> children_map \<Rightarrow> session \<Rightarrow> session list option" where
  "preorder d cm s = map_option ((#) s) (descendantsOf d cm s)"

lemma descendantsOf_Suc:
  "descendantsOf (Suc d) cm s = map_option concat (those (map (preorder d cm) (children cm s)))"
  by (simp add: preorder_def [abs_def])

lemma descendantsOf_step: "descendantsOf d cm s = Some xs \<Longrightarrow> descendantsOf (Suc d) cm s = Some xs"
proof (induction d arbitrary: s xs)
  case 0
  then show ?case by simp
next
  case (Suc d)
  then obtain yss where yss: "those (map (preorder d cm) (children cm s)) = Some yss"
    and xs: "xs = concat yss" by (auto simp: descendantsOf_Suc simp del: descendantsOf.simps)
  have "those (map (preorder (Suc d) cm) (children cm s)) = Some yss"
    by (rule those_map_mono [OF _ yss]) (auto simp: preorder_def dest: Suc.IH)
  with xs show ?case by (simp only: descendantsOf_Suc) simp
qed

lemma descendantsOf_mono: "descendantsOf d cm s = Some xs \<Longrightarrow> d \<le> e \<Longrightarrow> descendantsOf e cm s = Some xs"
  by (induction e) (auto simp: le_Suc_eq dest: descendantsOf_step simp del: descendantsOf.simps)

lemma preorder_mono: "preorder d cm s = Some xs \<Longrightarrow> d \<le> e \<Longrightarrow> preorder e cm s = Some xs"
  by (auto simp: preorder_def dest: descendantsOf_mono)

lemma countSubtree_preorder: "countSubtree d cm s = map_option length (preorder d cm s)"
proof (induction d arbitrary: s)
  case 0
  then show ?case by (simp add: preorder_def)
next
  case (Suc d)
  have "countSubtree d cm = (\<lambda>s. map_option length (preorder d cm s))"
    using Suc.IH by auto
  then show ?case
    by (simp add: preorder_def [of "Suc d"] descendantsOf_Suc those_map_map_option option.map_comp comp_def
        length_concat del: descendantsOf.simps)
qed

lemma visit_all:
  "map_option (map row_session) (visit d cm (\<lambda>_. True) r n conts l s) = preorder d cm s"
proof (induction d arbitrary: n conts l s)
  case 0
  then show ?case by (simp add: preorder_def)
next
  case (Suc d)
  let ?v = "\<lambda>(i, c). visit d cm (\<lambda>_. True) r (n + 1) (conts @ [0 < n \<and> \<not> l]) (Suc i = length (children cm s)) c"
  have IH: "(\<lambda>x. map_option (map row_session) (?v x)) = (\<lambda>(i, c). preorder d cm c)"
    using Suc.IH by auto
  have "map_option (map (map row_session)) (those (map ?v (enumerate 0 (children cm s))))
      = those (map (preorder d cm) (children cm s))"
    by (subst those_map_map_option [symmetric]) (simp only: IH map_enumerate_snd)
  from arg_cong [OF this, of "map_option (\<lambda>x. s # concat x)"]
  show ?case
    by (simp add: preorder_def [of "Suc d"] descendantsOf_Suc option.map_comp comp_def map_concat Let_def
        del: descendantsOf.simps)
qed

definition row_part :: "tree_row \<Rightarrow> session list" where
  "row_part r = row_session r # hiddenSessions r"

lemma visit_parts:
  "visit d cm ex r n conts l s = Some rows \<Longrightarrow>
   preorder d cm s = Some (concat (map row_part rows))"
proof (induction d arbitrary: n conts l s rows)
  case 0
  then show ?case by simp
next
  case (Suc d)
  let ?h = "\<lambda>rows. concat (map row_part rows)"
  let ?v = "\<lambda>(i, c). visit d cm ex r (n + 1) (conts @ [0 < n \<and> \<not> l]) (Suc i = length (children cm s)) c"
  show ?case
  proof (cases "ex (session_id s)")
    case True
    with Suc.prems obtain below where
        b: "those (map ?v (enumerate 0 (children cm s))) = Some below"
      and rows: "?h rows = s # ?h (concat below)"
      by (auto simp: Let_def row_part_def)
    have "those (map (\<lambda>(i, c). preorder d cm c) (enumerate 0 (children cm s))) = Some (map ?h below)"
      by (rule those_concat_parts [OF b]) (auto dest: Suc.IH)
    with rows show ?thesis
      by (simp add: map_enumerate_snd preorder_def [of "Suc d"] descendantsOf_Suc
          concat_map_concat del: descendantsOf.simps)
  next
    case False
    with Suc.prems obtain hidden where "descendantsOf d cm s = Some hidden" "?h rows = s # hidden"
      by (auto simp: Let_def row_part_def split: option.splits)
    then show ?thesis
      by (simp add: preorder_def descendantsOf_step del: descendantsOf.simps)
  qed
qed


lemma getMaxTimestamp_defined: "getMaxTimestamp d cm s = None \<longleftrightarrow> preorder d cm s = None"
proof (induction d arbitrary: s)
  case 0
  then show ?case by (simp add: preorder_def)
next
  case (Suc d)
  then show ?case
    by (simp add: preorder_def [of "Suc d"] descendantsOf_Suc those_map_None
        del: descendantsOf.simps)
qed

lemma visit_defined: "preorder d cm s \<noteq> None \<Longrightarrow> visit (Suc d) cm ex r n conts l s \<noteq> None"
proof (induction d arbitrary: s n conts l)
  case 0
  then show ?case by (simp add: preorder_def)
next
  case (Suc d)
  let ?v = "\<lambda>(i, c). visit (Suc d) cm ex r (n + 1) (conts @ [0 < n \<and> \<not> l]) (Suc i = length (children cm s)) c"
  from Suc.prems have kids: "\<forall>c \<in> set (children cm s). preorder d cm c \<noteq> None"
    by (auto simp: preorder_def [of "Suc d"] descendantsOf_Suc those_map_None simp del: descendantsOf.simps)
  have "those (map ?v (enumerate 0 (children cm s))) \<noteq> None"
  proof
    assume "those (map ?v (enumerate 0 (children cm s))) = None"
    then obtain i c where "c \<in> set (children cm s)"
      "visit (Suc d) cm ex r (n + 1) (conts @ [0 < n \<and> \<not> l]) (Suc i = length (children cm s)) c = None"
      by (auto simp del: visit.simps simp: those_map_None in_set_enumerate_eq) (metis nth_mem)
    with kids Suc.IH show False by blast
  qed
  with Suc.prems show ?case
    by (subst visit.simps) (auto simp: Let_def preorder_def simp del: visit.simps descendantsOf.simps)
qed

definition child_step :: "children_map \<Rightarrow> session rel" where
  "child_step cm = {(s, c). c \<in> set (children cm s)}"

lemma preorder_set: "preorder d cm s = Some xs \<Longrightarrow> set xs = {x. (s, x) \<in> (child_step cm)\<^sup>*}"
proof (induction d arbitrary: s xs)
  case 0
  then show ?case by (simp add: preorder_def)
next
  case (Suc d)
  then obtain yss where yss: "those (map (preorder d cm) (children cm s)) = Some yss"
    and xs: "xs = s # concat yss"
    by (auto simp: preorder_def [of "Suc d"] descendantsOf_Suc simp del: descendantsOf.simps)
  from yss have "list_all2 (\<lambda>c ys. preorder d cm c = Some ys) (children cm s) yss"
    by (auto simp: those_Some list_all2_conv_all_nth list_eq_iff_nth_eq)
  then have "list_all2 (\<lambda>c ys. set ys = {x. (c, x) \<in> (child_step cm)\<^sup>*}) (children cm s) yss"
    by (rule list_all2_mono) (rule Suc.IH)
  then have "\<Union> (set ` set yss) = (\<Union>c \<in> set (children cm s). {x. (c, x) \<in> (child_step cm)\<^sup>*})"
    by induction auto
  with xs have "set xs = insert s (\<Union>c \<in> set (children cm s). {x. (c, x) \<in> (child_step cm)\<^sup>*})"
    by simp
  then show ?case
    by (auto simp: child_step_def intro: converse_rtrancl_into_rtrancl elim: converse_rtranclE)
qed

lemma search_stack_correct:
  "those (map (preorder d cm) stack) = Some xss \<Longrightarrow>
   search_stack cm sid stack = Some (sid \<in> session_id ` set (concat xss))"
proof (induction "length (concat xss)" arbitrary: stack xss d rule: less_induct)
  case less
  show ?case
  proof (cases stack rule: rev_cases)
    case Nil
    with less.prems show ?thesis by (simp add: search_stack.simps)
  next
    case (snoc st s)
    with less.prems obtain yss xs where yss: "those (map (preorder d cm) st) = Some yss"
      and xs: "preorder d cm s = Some xs" and xss: "xss = yss @ [xs]"
      by (auto simp: those_Some append_eq_map_conv)
    then obtain e where d: "d = Suc e" by (cases d) (auto simp: preorder_def)
    with xs obtain zss where zss: "those (map (preorder e cm) (children cm s)) = Some zss"
      and zs: "xs = s # concat zss"
      by (auto simp: preorder_def [of "Suc e"] descendantsOf_Suc simp del: descendantsOf.simps)
    have "those (map (preorder d cm) (children cm s)) = Some zss"
      by (rule those_map_mono [OF _ zss]) (erule preorder_mono, simp add: d)
    with yss have "those (map (preorder d cm) (st @ children cm s)) = Some (yss @ zss)"
      by (auto simp: those_Some)
    from less.hyps [OF _ this] have "search_stack cm sid (st @ children cm s)
        = Some (sid \<in> session_id ` set (concat (yss @ zss)))" by (simp add: xss zs)
    then show ?thesis
      by (subst search_stack.simps) (auto simp: snoc xss zs)
  qed
qed

section \<open>The relation of forks\<close>

definition forks :: "session list \<Rightarrow> session rel" where
  "forks vs = {(s, c). s \<in> set vs \<and> c \<in> set vs \<and> nonempty (parent_session_id c)
                      \<and> parent_session_id c = Some (session_id s)}"

definition listed_sessions :: "session list \<Rightarrow> string option \<Rightarrow> session list" where
  "listed_sessions sessions cur = filter (\<lambda>s. isVisibleSession s cur) sessions"

definition is_root :: "string list \<Rightarrow> session \<Rightarrow> bool" where
  "is_root pins s \<longleftrightarrow> \<not> nonempty (parent_session_id s) \<or> session_id s \<in> set pins"

lemma foldl_group:
  "rootSessions (foldl (group_step pins) t vs) = rootSessions t @ filter (is_root pins) vs \<and>
   children (childrenMap (foldl (group_step pins) t vs)) s
   = children (childrenMap t) s
     @ filter (\<lambda>c. nonempty (parent_session_id c) \<and> parent_session_id c = Some (session_id s)) vs"
proof (induction vs arbitrary: t)
  case Nil
  then show ?case by simp
next
  case (Cons v vs)
  then show ?case
    by (auto simp: is_root_def children_def update_conv' Let_def split: option.splits)
qed

lemma group_roots: "rootSessions (group_sessions ss pins cur) = filter (is_root pins) (listed_sessions ss cur)"
  by (simp add: group_sessions_def foldl_group listed_sessions_def)

lemma group_children:
  "children (childrenMap (group_sessions ss pins cur)) s
   = filter (\<lambda>c. nonempty (parent_session_id c) \<and> parent_session_id c = Some (session_id s))
       (listed_sessions ss cur)"
  unfolding group_sessions_def foldl_group [THEN conjunct2] listed_sessions_def
  by (simp add: children_def)

lemma child_step_forks:
  assumes "s \<in> set (listed_sessions ss cur)"
  shows "(s, c) \<in> (child_step (childrenMap (group_sessions ss pins cur)))\<^sup>* \<longleftrightarrow> (s, c) \<in> (forks (listed_sessions ss cur))\<^sup>*"
    (is "_ \<in> ?C\<^sup>* \<longleftrightarrow> _ \<in> ?F\<^sup>*")
proof
  have "(s, c) \<in> ?F\<^sup>*" "c \<in> set (listed_sessions ss cur)" if "(s, c) \<in> ?C\<^sup>*" for c
    using that
  proof (induction rule: rtrancl_induct)
    case base
    { case 1 then show ?case by simp next case 2 then show ?case by (rule assms) }
  next
    case (step y z)
    then have "(y, z) \<in> ?F" by (auto simp: child_step_def group_children forks_def)
    then show "(s, z) \<in> ?F\<^sup>*" "z \<in> set (listed_sessions ss cur)"
      using step by (auto simp: forks_def intro: rtrancl_into_rtrancl)
  qed
  then show "(s, c) \<in> ?F\<^sup>*" if "(s, c) \<in> ?C\<^sup>*" using that by blast
  have "?F \<subseteq> ?C" by (auto simp: child_step_def group_children forks_def)
  then show "(s, c) \<in> ?C\<^sup>*" if "(s, c) \<in> ?F\<^sup>*" using that rtrancl_mono by blast
qed

text \<open>A parent is unique when ids are, so a walk up from a cycle never leaves it.\<close>

lemma forks_parent:
  "distinct (map session_id vs) \<Longrightarrow> (a, c) \<in> forks vs \<Longrightarrow> (b, c) \<in> forks vs \<Longrightarrow> a = b"
  by (auto simp: forks_def distinct_map inj_on_def)

lemma cycle_upwards:
  assumes u: "distinct (map session_id vs)" and "(r, x) \<in> (forks vs)\<^sup>*" and "(x, x) \<in> (forks vs)\<^sup>+"
  shows "(r, r) \<in> (forks vs)\<^sup>+"
  using assms(2,3)
proof (induction rule: rtrancl_induct)
  case base
  then show ?case .
next
  case (step y z)
  from step.prems obtain w where w: "(z, w) \<in> (forks vs)\<^sup>*" "(w, z) \<in> forks vs" by (meson tranclD2)
  with step.hyps(2) have "w = y" using forks_parent [OF u] by blast
  with w step.hyps(2) have "(y, y) \<in> (forks vs)\<^sup>+" by (meson rtrancl_into_trancl2)
  then show ?case by (rule step.IH)
qed

definition no_pinned_cycle :: "session list \<Rightarrow> string list \<Rightarrow> bool" where
  "no_pinned_cycle vs pins \<longleftrightarrow> (\<forall>s \<in> set vs. session_id s \<in> set pins \<longrightarrow> (s, s) \<notin> (forks vs)\<^sup>+)"

lemma root_acyclic:
  assumes "distinct (map session_id vs)" "no_pinned_cycle vs pins" "r \<in> set vs" "is_root pins r"
    and "(r, x) \<in> (forks vs)\<^sup>*"
  shows "(x, x) \<notin> (forks vs)\<^sup>+"
proof
  assume "(x, x) \<in> (forks vs)\<^sup>+"
  with assms have cyc: "(r, r) \<in> (forks vs)\<^sup>+" by (blast intro: cycle_upwards)
  then have "nonempty (parent_session_id r)" by (auto simp: forks_def elim: tranclE)
  with assms cyc show False by (auto simp: is_root_def no_pinned_cycle_def)
qed

lemma below_forks: "{c. (s, c) \<in> (forks vs)\<^sup>+} \<subseteq> set vs"
  by (auto simp: forks_def elim: tranclE)

lemma descendantsOf_defined:
  assumes "cm = childrenMap (group_sessions ss pins cur)" and "vs = listed_sessions ss cur"
    and "s \<in> set vs" and "\<And>x. (s, x) \<in> (forks vs)\<^sup>* \<Longrightarrow> (x, x) \<notin> (forks vs)\<^sup>+"
    and "card {c. (s, c) \<in> (forks vs)\<^sup>+} < d"
  shows "preorder d cm s \<noteq> None"
  using assms(3-)
proof (induction d arbitrary: s)
  case 0
  then show ?case by simp
next
  case (Suc d)
  have "preorder d cm c \<noteq> None" if "c \<in> set (children cm s)" for c
  proof (rule Suc.IH)
    from that have c: "(s, c) \<in> forks vs" using Suc.prems(1) by (auto simp: assms(1,2) group_children forks_def)
    then show "c \<in> set vs" by (simp add: forks_def)
    show acyc: "(x, x) \<notin> (forks vs)\<^sup>+" if "(c, x) \<in> (forks vs)\<^sup>*" for x
      using that c Suc.prems(2) by (meson converse_rtrancl_into_rtrancl)
    have "{x. (c, x) \<in> (forks vs)\<^sup>+} \<subset> {x. (s, x) \<in> (forks vs)\<^sup>+}"
      using c acyc [of c] by (auto intro: trancl_into_trancl2)
    then have "card {x. (c, x) \<in> (forks vs)\<^sup>+} < card {x. (s, x) \<in> (forks vs)\<^sup>+}"
      by (rule psubset_card_mono [rotated]) (rule finite_subset [OF below_forks], simp)
    with Suc.prems(3) show "card {x. (c, x) \<in> (forks vs)\<^sup>+} < d" by simp
  qed
  then have "those (map (preorder d cm) (children cm s)) \<noteq> None" by (auto simp: those_map_None)
  then show ?case by (simp add: preorder_def [of "Suc d"] descendantsOf_Suc del: descendantsOf.simps)
qed

lemma root_preorder_defined:
  assumes "distinct (map session_id (listed_sessions ss cur))"
    and "no_pinned_cycle (listed_sessions ss cur) pins"
    and "r \<in> set (rootSessions (group_sessions ss pins cur))" and "length (listed_sessions ss cur) \<le> d"
  shows "preorder d (childrenMap (group_sessions ss pins cur)) r \<noteq> None"
proof (rule descendantsOf_defined [OF refl refl])
  let ?vs = "listed_sessions ss cur"
  from assms(3) show r: "r \<in> set ?vs" by (simp add: group_roots)
  from assms show a: "(x, x) \<notin> (forks ?vs)\<^sup>+" if "(r, x) \<in> (forks ?vs)\<^sup>*" for x
    using that root_acyclic by (auto simp: group_roots)
  have "{c. (r, c) \<in> (forks ?vs)\<^sup>+} \<subset> set ?vs"
    using below_forks [of r ?vs] a [of r] r by blast
  then have "card {c. (r, c) \<in> (forks ?vs)\<^sup>+} < card (set ?vs)" by (rule psubset_card_mono [rotated]) simp
  also have "\<dots> \<le> d" using card_length [of ?vs] assms(4) by linarith
  finally show "card {c. (r, c) \<in> (forks ?vs)\<^sup>+} < d" .
qed

section \<open>Three tiers\<close>

lemma sort_desc_sorted: "sorted_wrt (\<lambda>a b. fst b \<le> fst a) (sort_desc xs)"
  unfolding sort_desc_def sorted_wrt_rev using sorted_sort_key [of fst "rev xs"] by (simp add: sorted_map)

lemma sort_desc_stable: "filter (\<lambda>y. fst y = k) (sort_desc xs) = filter (\<lambda>y. fst y = k) xs"
  by (simp add: sort_desc_def rev_filter [symmetric] sort_key_stable)

lemma sort_desc_mset: "mset (sort_desc xs) = mset xs"
  by (simp add: sort_desc_def)

definition later_first :: "('a \<Rightarrow> string option) \<Rightarrow> 'a \<Rightarrow> 'a \<Rightarrow> bool" where
  "later_first f a b \<longleftrightarrow> (\<exists>s t. f a = Some s \<and> f b = Some t \<and> t \<le> s)"

lemma sort_tier_correct:
  assumes "sort_tier f xs = Some ys"
  shows "mset ys = mset xs" "sorted_wrt (later_first f) ys"
    "\<And>k. filter (\<lambda>x. f x = Some k) ys = filter (\<lambda>x. f x = Some k) xs"
proof -
  have "mset ys = mset xs \<and> sorted_wrt (later_first f) ys
      \<and> (\<forall>k. filter (\<lambda>x. f x = Some k) ys = filter (\<lambda>x. f x = Some k) xs)"
  proof (cases "length xs < 2")
    case True
    with assms have "ys = xs" by (simp add: sort_tier_def)
    with True show ?thesis by (cases xs) (auto simp: numeral_2_eq_2)
  next
    case False
    with assms obtain ts where ts: "those (map f xs) = Some ts" and ys: "ys = map snd (sort_desc (zip ts xs))"
      by (auto simp: sort_tier_def)
    have len: "length ts = length xs" using ts by (metis those_Some length_map)
    let ?z = "sort_desc (zip ts xs)"
    have m: "mset ?z = mset (zip ts xs)" by (rule sort_desc_mset)
    have f: "f x = Some t" if "(t, x) \<in> set ?z" for t x
    proof -
      from that have "(t, x) \<in> set (zip ts xs)" using m by (metis set_mset_mset)
      with ts show ?thesis by (auto simp: those_Some in_set_zip list_eq_iff_nth_eq)
    qed
    have "mset ys = mset (map snd (zip ts xs))" unfolding ys using m by (metis mset_map)
    moreover have "sorted_wrt (later_first f) ys"
      unfolding ys sorted_wrt_map
      by (rule sorted_wrt_mono_rel [OF _ sort_desc_sorted]) (use f in \<open>auto simp: later_first_def\<close>)
    moreover have "filter (\<lambda>x. f x = Some k) ys = filter (\<lambda>x. f x = Some k) xs" for k
    proof -
      have "filter (\<lambda>x. f x = Some k) ys = map snd (filter (\<lambda>y. f (snd y) = Some k) ?z)"
        by (simp add: ys filter_map comp_def)
      also have "filter (\<lambda>y. f (snd y) = Some k) ?z = filter (\<lambda>y. fst y = k) ?z"
        by (rule filter_cong) (use f in auto)
      also have "\<dots> = filter (\<lambda>y. fst y = k) (zip ts xs)" by (rule sort_desc_stable)
      also have "\<dots> = filter (\<lambda>y. f (snd y) = Some k) (zip ts xs)"
        by (rule filter_cong) (use f m in \<open>auto simp: set_mset_mset [symmetric] simp del: set_mset_mset\<close>)
      also have "map snd \<dots> = filter (\<lambda>x. f x = Some k) (map snd (zip ts xs))"
        by (simp add: filter_map comp_def)
      finally show ?thesis by (simp add: len)
    qed
    ultimately show ?thesis by (simp add: len)
  qed
  then show "mset ys = mset xs" "sorted_wrt (later_first f) ys"
    "\<And>k. filter (\<lambda>x. f x = Some k) ys = filter (\<lambda>x. f x = Some k) xs" by auto
qed

lemma sort_tier_defined: "(\<And>x. x \<in> set xs \<Longrightarrow> f x \<noteq> None) \<Longrightarrow> sort_tier f xs \<noteq> None"
  by (auto simp: sort_tier_def those_map_None simp del: not_None_eq)

definition tier :: "string list \<Rightarrow> session \<Rightarrow> nat" where
  "tier pins s = (if session_id s \<in> set pins then 0 else if nonempty (container_id s) then 1 else 2)"

definition panel_before :: "string list \<Rightarrow> (session \<Rightarrow> string option) \<Rightarrow> session \<Rightarrow> session \<Rightarrow> bool" where
  "panel_before pins f a b \<longleftrightarrow>
     tier pins a < tier pins b \<or> tier pins a = tier pins b \<and> (tier pins a = 0 \<or> later_first f a b)"

lemma sorted_by_tier:
  assumes "sortByPinnedThenRecency xs pins f = Some ys"
  shows "mset ys = mset xs" "sorted_wrt (panel_before pins f) ys"
    "\<And>n k. filter (\<lambda>s. tier pins s = n \<and> f s = Some k) ys = filter (\<lambda>s. tier pins s = n \<and> f s = Some k) xs"
    "filter (\<lambda>s. tier pins s = 0) ys = filter (\<lambda>s. tier pins s = 0) xs"
proof -
  let ?in = "\<lambda>n. filter (\<lambda>s. tier pins s = n) xs"
  have p: "filter (\<lambda>s. session_id s \<in> set pins) xs = ?in 0"
    and w: "filter (\<lambda>s. nonempty (container_id s)) (filter (\<lambda>s. session_id s \<notin> set pins) xs) = ?in 1"
    and o: "filter (\<lambda>s. \<not> nonempty (container_id s)) (filter (\<lambda>s. session_id s \<notin> set pins) xs) = ?in 2"
    by (auto simp: tier_def filter_filter intro!: filter_cong)
  from assms obtain W N where W: "sort_tier f (?in 1) = Some W" and N: "sort_tier f (?in 2) = Some N"
    and ys: "ys = ?in 0 @ W @ N"
    unfolding sortByPinnedThenRecency_def Let_def p w o by (auto split: option.splits)
  have set: "set W = set (?in 1)" "set N = set (?in 2)"
    using sort_tier_correct(1) [OF W] sort_tier_correct(1) [OF N] by (metis set_mset_mset)+
  have "mset (?in 0) + mset (?in 1) + mset (?in 2) = mset xs"
    by (induction xs) (auto simp: tier_def)
  then show "mset ys = mset xs" by (simp add: ys sort_tier_correct(1) [OF W] sort_tier_correct(1) [OF N] add.assoc)
  have "sorted_wrt (panel_before pins f) (?in 0)"
    by (rule sorted_wrt_mono_rel [of _ "\<lambda>_ _. True"]) (auto simp: panel_before_def sorted_wrt_iff_nth_less)
  moreover have "sorted_wrt (panel_before pins f) W"
    by (rule sorted_wrt_mono_rel [OF _ sort_tier_correct(2) [OF W]]) (auto simp: panel_before_def set)
  moreover have "sorted_wrt (panel_before pins f) N"
    by (rule sorted_wrt_mono_rel [OF _ sort_tier_correct(2) [OF N]]) (auto simp: panel_before_def set)
  ultimately show "sorted_wrt (panel_before pins f) ys"
    by (auto simp: ys sorted_wrt_append panel_before_def set)
  have none: "filter P (?in m) = []" if "\<And>s. P s \<Longrightarrow> tier pins s \<noteq> m" for P m
    using that by (auto simp: filter_empty_conv)
  show "filter (\<lambda>s. tier pins s = 0) ys = filter (\<lambda>s. tier pins s = 0) xs"
    using set by (auto simp: ys filter_empty_conv)
  show "filter (\<lambda>s. tier pins s = n \<and> f s = Some k) ys = filter (\<lambda>s. tier pins s = n \<and> f s = Some k) xs" for n k
  proof -
    have t: "filter (\<lambda>s. tier pins s = n \<and> f s = Some k) zs
        = (if n = m then filter (\<lambda>s. f s = Some k) zs else [])" if "\<forall>s \<in> set zs. tier pins s = m" for zs m
      using that by (auto simp: filter_empty_conv intro!: filter_cong)
    have "filter (\<lambda>s. tier pins s = n \<and> f s = Some k) W = filter (\<lambda>s. tier pins s = n \<and> f s = Some k) (?in 1)"
      using t [of W 1] t [of "?in 1" 1] set sort_tier_correct(3) [OF W, of k] by auto
    moreover have "filter (\<lambda>s. tier pins s = n \<and> f s = Some k) N = filter (\<lambda>s. tier pins s = n \<and> f s = Some k) (?in 2)"
      using t [of N 2] t [of "?in 2" 2] set sort_tier_correct(3) [OF N, of k] by auto
    ultimately have "filter (\<lambda>s. tier pins s = n \<and> f s = Some k) ys
       = concat (map (\<lambda>m. filter (\<lambda>s. tier pins s = n \<and> f s = Some k) (?in m)) [0, 1, 2])"
      by (simp add: ys)
    also have "\<dots> = filter (\<lambda>s. tier pins s = n \<and> f s = Some k) xs"
    proof -
      have "n = 0 \<or> n = 1 \<or> n = 2 \<or> 2 < n" by auto
      moreover have "filter (\<lambda>s. tier pins s = n \<and> f s = Some k) (?in m)
          = (if m = n then filter (\<lambda>s. tier pins s = n \<and> f s = Some k) xs else [])" for m
        by (auto simp: filter_empty_conv intro!: filter_cong)
      moreover have "2 < n \<Longrightarrow> filter (\<lambda>s. tier pins s = n \<and> f s = Some k) xs = []"
        by (auto simp: tier_def filter_empty_conv)
      ultimately show ?thesis by auto
    qed
    finally show ?thesis .
  qed
qed

lemma sortByPinnedThenRecency_defined:
  "(\<And>x. x \<in> set xs \<Longrightarrow> f x \<noteq> None) \<Longrightarrow> sortByPinnedThenRecency xs pins f \<noteq> None"
  using sort_tier_defined [of "filter (\<lambda>s. nonempty (container_id s)) (filter (\<lambda>s. session_id s \<notin> set pins) xs)" f]
    sort_tier_defined [of "filter (\<lambda>s. \<not> nonempty (container_id s)) (filter (\<lambda>s. session_id s \<notin> set pins) xs)" f]
  by (auto simp: sortByPinnedThenRecency_def Let_def)

lemma build_roots:
  assumes "buildSessionTree d ss pins cur = Some t"
  shows "childrenMap t = childrenMap (group_sessions ss pins cur)"
    and "mset (rootSessions t) = mset (rootSessions (group_sessions ss pins cur))"
  using assms by (auto simp: buildSessionTree_def Let_def dest: sorted_by_tier(1))

lemma build_set: "buildSessionTree d ss pins cur = Some t \<Longrightarrow>
   set (rootSessions t) = set (filter (is_root pins) (listed_sessions ss cur))"
  using build_roots(2) group_roots by (metis set_mset_mset)

lemma flatten_all:
  "map_option (map row_session) (flattenSessionTree d t (\<lambda>_. True))
   = map_option concat (those (map (preorder d (childrenMap t)) (rootSessions t)))"
proof -
  let ?v = "\<lambda>(i, root). visit d (childrenMap t) (\<lambda>_. True) (session_id root) 0 []
            (Suc i = length (rootSessions t)) root"
  have "(\<lambda>x. map_option (map row_session) (?v x)) = (\<lambda>(i, c). preorder d (childrenMap t) c)"
    by (auto simp: visit_all)
  then have "map_option (map (map row_session)) (those (map ?v (enumerate 0 (rootSessions t))))
      = those (map (preorder d (childrenMap t)) (rootSessions t))"
    by (subst those_map_map_option [symmetric]) (simp only: map_enumerate_snd)
  from arg_cong [OF this, of "map_option concat"] show ?thesis
    by (simp add: flattenSessionTree_def option.map_comp comp_def map_concat)
qed

lemma flatten_parts:
  assumes "flattenSessionTree d t ex = Some rows"
  shows "map_option concat (those (map (preorder d (childrenMap t)) (rootSessions t)))
     = Some (concat (map row_part rows))"
proof -
  let ?v = "\<lambda>(i, root). visit d (childrenMap t) ex (session_id root) 0 [] (Suc i = length (rootSessions t)) root"
  from assms obtain parts where p: "those (map ?v (enumerate 0 (rootSessions t))) = Some parts"
    and rows: "rows = concat parts" by (auto simp: flattenSessionTree_def)
  have "those (map (\<lambda>(i, c). preorder d (childrenMap t) c) (enumerate 0 (rootSessions t)))
      = Some (map (\<lambda>rows. concat (map row_part rows)) parts)"
    by (rule those_concat_parts [OF p]) (auto dest: visit_parts)
  then show ?thesis by (simp add: map_enumerate_snd rows concat_map_concat)
qed

lemma countTreeRows_preorder:
  "countTreeRows d t = map_option (length \<circ> concat) (those (map (preorder d (childrenMap t)) (rootSessions t)))"
proof -
  have "countSubtree d (childrenMap t) = (\<lambda>s. map_option length (preorder d (childrenMap t) s))"
    by (auto simp: countSubtree_preorder)
  then show ?thesis
    by (simp add: countTreeRows_def those_map_map_option option.map_comp comp_def length_concat)
qed

lemma flatten_defined:
  assumes "those (map (preorder d (childrenMap t)) (rootSessions t)) \<noteq> None"
  shows "flattenSessionTree (Suc d) t ex \<noteq> None"
proof
  assume "flattenSessionTree (Suc d) t ex = None"
  then obtain i r where "r \<in> set (rootSessions t)"
    and v: "visit (Suc d) (childrenMap t) ex (session_id r) 0 [] (Suc i = length (rootSessions t)) r = None"
    by (auto simp del: visit.simps simp: flattenSessionTree_def those_map_None in_set_enumerate_eq)
      (metis nth_mem)
  with assms have "preorder d (childrenMap t) r \<noteq> None" by (auto simp: those_map_None simp del: not_None_eq)
  from visit_defined [OF this] v show False by blast
qed

section \<open>The tree the panel builds\<close>

lemma forks_mono: "set vs \<subseteq> set ws \<Longrightarrow> forks vs \<subseteq> forks ws"
  by (auto simp: forks_def)

lemma listed_subset: "set (listed_sessions ss cur) \<subseteq> set ss"
  by (auto simp: listed_sessions_def)

lemma listed_distinct: "distinct (map session_id ss) \<Longrightarrow> distinct (map session_id (listed_sessions ss cur))"
  by (simp add: listed_sessions_def distinct_map_filter)

lemma no_pinned_cycle_listed:
  "no_pinned_cycle ss pins \<Longrightarrow> no_pinned_cycle (listed_sessions ss cur) pins"
  using trancl_mono [OF _ forks_mono [OF listed_subset]] listed_subset
  unfolding no_pinned_cycle_def by blast

lemma group_forest:
  assumes "distinct (map session_id ss)" and "no_pinned_cycle ss pins" and "length ss \<le> d"
    and "r \<in> set (rootSessions (group_sessions ss pins cur))"
  shows "preorder d (childrenMap (group_sessions ss pins cur)) r \<noteq> None"
proof (rule root_preorder_defined)
  show "length (listed_sessions ss cur) \<le> d"
    using assms(3) length_filter_le order_trans unfolding listed_sessions_def by blast
qed (use assms listed_distinct no_pinned_cycle_listed in auto)

lemma build_defined:
  assumes "distinct (map session_id ss)" and "no_pinned_cycle ss pins" and "length ss \<le> d"
  shows "buildSessionTree d ss pins cur \<noteq> None"
proof -
  have "sortByPinnedThenRecency (rootSessions (group_sessions ss pins cur)) pins
      (getMaxTimestamp d (childrenMap (group_sessions ss pins cur))) \<noteq> None"
    by (rule sortByPinnedThenRecency_defined) (use group_forest [OF assms] getMaxTimestamp_defined in blast)
  then show ?thesis by (auto simp: buildSessionTree_def Let_def)
qed

lemma build_forest:
  assumes "distinct (map session_id ss)" and "no_pinned_cycle ss pins" and "length ss \<le> d"
    and "buildSessionTree e ss pins cur = Some t"
  shows "those (map (preorder d (childrenMap t)) (rootSessions t)) \<noteq> None"
proof -
  have "set (rootSessions t) = set (rootSessions (group_sessions ss pins cur))"
    using build_roots(2) [OF assms(4)] by (metis set_mset_mset)
  with group_forest [OF assms(1-3)] show ?thesis
    unfolding build_roots(1) [OF assms(4)] by (auto simp: those_map_None simp del: not_None_eq)
qed

text \<open>The walks of the sessions panel end: when ids are unique and no pinned session is its own
  ancestor, building the tree, counting its rows, flattening it under any choice of expanded rows and
  searching it all return, in a call stack one deeper than the number of sessions.\<close>

theorem session_tree_returns:
  assumes "distinct (map session_id sessions)" and "no_pinned_cycle sessions pins"
    and "length sessions < d"
  shows "\<exists>t. buildSessionTree d sessions pins cur = Some t \<and> countTreeRows d t \<noteq> None
           \<and> (\<forall>expanded. flattenSessionTree d t expanded \<noteq> None) \<and> (\<forall>sid. isSessionInTree t sid \<noteq> None)"
proof -
  from assms(3) obtain e where d: "d = Suc e" "length sessions \<le> e" by (cases d) auto
  from build_defined [OF assms(1,2)] assms(3) obtain t where t: "buildSessionTree d sessions pins cur = Some t"
    by (metis less_imp_le_nat not_None_eq)
  note F = build_forest [OF assms(1,2) _ t]
  have "countTreeRows d t \<noteq> None" using F [of d] assms(3) by (simp add: countTreeRows_preorder)
  moreover have "flattenSessionTree d t expanded \<noteq> None" for expanded
    unfolding d(1) by (rule flatten_defined) (rule F [OF d(2)])
  moreover have "isSessionInTree t sid \<noteq> None" for sid
    using F [OF d(2)] search_stack_correct unfolding isSessionInTree_def by (metis not_None_eq option.discI)
  ultimately show ?thesis using t by blast
qed

lemma full_rows:
  assumes "flattenSessionTree d t (\<lambda>_. True) = Some rows"
  obtains xss where "those (map (preorder d (childrenMap t)) (rootSessions t)) = Some xss"
    and "map row_session rows = concat xss"
  using assms flatten_all [of d t]
  by (cases "those (map (preorder d (childrenMap t)) (rootSessions t))") auto

lemma badge_counts_expanded_rows:
  "countTreeRows d t = map_option length (flattenSessionTree d t (\<lambda>_. True))"
proof -
  have "countTreeRows d t = map_option (length \<circ> concat) (those (map (preorder d (childrenMap t)) (rootSessions t)))"
    by (rule countTreeRows_preorder)
  also have "\<dots> = map_option length (map_option (map row_session) (flattenSessionTree d t (\<lambda>_. True)))"
    unfolding flatten_all by (simp add: option.map_comp)
  finally show ?thesis by (simp add: option.map_comp comp_def)
qed

text \<open>C19. Collapsing hides rows and loses none: whatever is expanded, the rows shown, each followed by the
  sessions it says it hides, are the rows of the fully expanded tree in order; and a filter's badge counts
  exactly those.\<close>

theorem collapsed_rows_keep_all_sessions:
  assumes "flattenSessionTree d t expanded = Some rows"
  shows "\<exists>full. flattenSessionTree d t (\<lambda>_. True) = Some full
           \<and> concat (map (\<lambda>r. row_session r # hiddenSessions r) rows) = map row_session full
           \<and> countTreeRows d t = Some (length full)"
  using flatten_parts [OF assms] flatten_all [of d t] badge_counts_expanded_rows [of d t]
  by (auto simp: row_part_def [abs_def])

lemma tree_search_finds_rows:
  assumes "flattenSessionTree d t (\<lambda>_. True) = Some rows"
  shows "isSessionInTree t sid = Some (\<exists>r \<in> set rows. session_id (row_session r) = sid)"
proof -
  from assms obtain xss where x: "those (map (preorder d (childrenMap t)) (rootSessions t)) = Some xss"
    and r: "map row_session rows = concat xss" by (rule full_rows)
  have "set (concat xss) = row_session ` set rows" using r by (metis set_map)
  with search_stack_correct [OF x, of sid] show ?thesis by (auto simp: isSessionInTree_def)
qed

text \<open>Which sessions have a row.\<close>

lemma rows_reachable:
  assumes "buildSessionTree e ss pins cur = Some t" and "flattenSessionTree d t (\<lambda>_. True) = Some rows"
  shows "row_session ` set rows
       = {x. \<exists>r \<in> set (listed_sessions ss cur). is_root pins r \<and> (r, x) \<in> (forks (listed_sessions ss cur))\<^sup>*}"
proof -
  let ?cm = "childrenMap (group_sessions ss pins cur)"
  from assms(2) obtain xss where x: "those (map (preorder d (childrenMap t)) (rootSessions t)) = Some xss"
    and r: "map row_session rows = concat xss" by (rule full_rows)
  from x have "list_all2 (\<lambda>c ys. preorder d ?cm c = Some ys) (rootSessions t) xss"
    by (auto simp: those_Some list_all2_conv_all_nth list_eq_iff_nth_eq build_roots(1) [OF assms(1)])
  then have "list_all2 (\<lambda>c ys. set ys = {x. (c, x) \<in> (child_step ?cm)\<^sup>*}) (rootSessions t) xss"
    by (rule list_all2_mono) (rule preorder_set)
  then have "\<Union> (set ` set xss) = (\<Union>c \<in> set (rootSessions t). {x. (c, x) \<in> (child_step ?cm)\<^sup>*})"
    by induction auto
  also have "\<dots> = {x. \<exists>r \<in> set (listed_sessions ss cur). is_root pins r \<and> (r, x) \<in> (forks (listed_sessions ss cur))\<^sup>*}"
    by (auto simp: build_set [OF assms(1)] child_step_forks)
  finally show ?thesis using r by (metis set_concat set_map)
qed

text \<open>A fork whose parent the filter does not list has no row in that filter's tree unless it is pinned,
  although it matches the filter itself: the search that decides the fallback to All answers no.\<close>

theorem fork_of_unlisted_parent_has_no_row:
  assumes "distinct (map session_id sessions)" and "no_pinned_cycle sessions pins" and "length sessions < d"
    and "s \<in> set sessions" and "session_id s \<notin> set pins" and "parent_session_id s = Some p" and "p \<noteq> []"
    and "\<And>q. q \<in> set sessions \<Longrightarrow> session_id q = p \<Longrightarrow> \<not> matchesSessionFilter flt q pins"
  shows "Option.bind (treeFor d flt sessions pins cur) (\<lambda>t. isSessionInTree t (session_id s)) = Some False"
proof -
  let ?ss = "filter (\<lambda>s. matchesSessionFilter flt s pins) sessions"
  let ?vs = "listed_sessions ?ss cur"
  have ss: "distinct (map session_id ?ss)" "no_pinned_cycle ?ss pins" "length ?ss < d"
    using assms(1-3) trancl_mono [OF _ forks_mono [of ?ss sessions]] le_less_trans [OF length_filter_le]
    by (auto simp: distinct_map_filter no_pinned_cycle_def)
  from session_tree_returns [OF ss, of cur] obtain t rows where
    t: "buildSessionTree d ?ss pins cur = Some t" and rows: "flattenSessionTree d t (\<lambda>_. True) = Some rows" by blast
  have "session_id x \<noteq> session_id s" if x: "x \<in> row_session ` set rows" for x
  proof
    assume id: "session_id x = session_id s"
    from x obtain r where r: "r \<in> set ?vs" "is_root pins r" "(r, x) \<in> (forks ?vs)\<^sup>*"
      unfolding rows_reachable [OF t rows] by blast
    then have "x \<in> set ?vs" by (auto simp: forks_def elim: rtranclE)
    then have "x = s" using id assms(1,4) by (auto simp: listed_sessions_def distinct_map inj_on_def)
    moreover from this have "r \<noteq> x" using r(2) assms(5-7) by (auto simp: is_root_def nonempty_iff)
    ultimately obtain q where "(q, s) \<in> forks ?vs" using r(3) by (auto elim: rtranclE)
    then show False using assms(6,8) by (auto simp: forks_def listed_sessions_def)
  qed
  with tree_search_finds_rows [OF rows] t show ?thesis by (auto simp: treeFor_def)
qed

text \<open>The badge of the Threads filter counts no thread that has a parent and is not pinned, while the
  list below it shows all of them.\<close>

theorem threads_badge_counts_nothing:
  assumes "\<And>s. s \<in> set sessions \<Longrightarrow> is_side_thread s \<Longrightarrow> nonempty (parent_session_id s) \<and> session_id s \<notin> set pins"
  shows "getCount d THREADS sessions pins cur = Some 0
       \<and> originSessions THREADS sessions pins = filter is_side_thread sessions"
proof -
  let ?ss = "filter (\<lambda>s. matchesSessionFilter THREADS s pins) sessions"
  have "rootSessions (group_sessions ?ss pins cur) = []"
    using assms by (auto simp: group_roots listed_sessions_def is_root_def filter_empty_conv)
  then have "getCount d THREADS sessions pins cur = Some 0"
    by (simp add: getCount_def treeFor_def buildSessionTree_def Let_def sortByPinnedThenRecency_def
        sort_tier_def countTreeRows_def)
  then show ?thesis
    by (simp add: originSessions_def ORIGIN_FILTERS_def)
qed

text \<open>Search results are the visible sessions that match, each once, in three tiers: pinned, with a
  container, without one; within the unpinned tiers, the most recently active first.\<close>

theorem search_results_ordered:
  "\<exists>rs. buildSearchResults sessions query pins cur = Some rs
      \<and> mset rs = mset (filter (\<lambda>s. isVisibleSession s cur \<and> matchesSearchQuery s query) sessions)
      \<and> sorted_wrt (panel_before pins (\<lambda>s. Some (own_timestamp s))) rs"
proof -
  let ?m = "filter (\<lambda>s. isVisibleSession s cur \<and> matchesSearchQuery s query) sessions"
  obtain rs where "buildSearchResults sessions query pins cur = Some rs"
    using sortByPinnedThenRecency_defined [of ?m "\<lambda>s. Some (own_timestamp s)" pins]
    by (auto simp: buildSearchResults_def)
  then show ?thesis using sorted_by_tier(1,2) by (auto simp: buildSearchResults_def)
qed

end
