(* ===== verification/SessionPanel.thy ===== *)
theory SessionPanel
  imports SessionTreeFacts
begin

text \<open>
  The rows on screen: their keys are distinct, the row of the open session is among them, and the
  properties of the sessions panel at small inputs.
\<close>

section \<open>Row keys\<close>

lemma siblings_apart:
  assumes u: "distinct (map session_id vs)" and acyc: "(s, s) \<notin> (forks vs)\<^sup>+"
    and c: "(s, c) \<in> forks vs" "(s, c') \<in> forks vs" "c \<noteq> c'" and x: "(c, x) \<in> (forks vs)\<^sup>*"
  shows "(c', x) \<notin> (forks vs)\<^sup>*"
proof
  assume x': "(c', x) \<in> (forks vs)\<^sup>*"
  have cyc: False if "(a, b) \<in> (forks vs)\<^sup>*" "a \<noteq> b" "(s, a) \<in> forks vs" "(s, b) \<in> forks vs" for a b
  proof -
    from that(1,2) obtain w where "(a, w) \<in> (forks vs)\<^sup>*" "(w, b) \<in> forks vs" by (meson rtranclE)
    with forks_parent [OF u _ that(4)] have "(a, s) \<in> (forks vs)\<^sup>*" by blast
    with that(3) acyc show False by (meson rtrancl_into_trancl2)
  qed
  have "single_valued ((forks vs)\<inverse>)"
    by (auto simp: single_valued_def intro: forks_parent [OF u])
  from single_valued_confluent [OF this] x x'
  have "(c, c') \<in> (forks vs)\<^sup>* \<or> (c', c) \<in> (forks vs)\<^sup>*"
    by (auto simp: rtrancl_converse)
  with cyc c show False by blast
qed

lemma distinct_concat_apart:
  assumes "list_all2 (\<lambda>c ys. set ys \<subseteq> B c \<and> distinct ys) cs yss" and "distinct cs"
    and "\<And>c c'. c \<in> set cs \<Longrightarrow> c' \<in> set cs \<Longrightarrow> c \<noteq> c' \<Longrightarrow> B c \<inter> B c' = {}"
  shows "distinct (concat yss)"
proof -
  have "distinct (concat yss) \<and> set (concat yss) \<subseteq> \<Union> (B ` set cs)"
    using assms
  proof induction
    case Nil
    then show ?case by simp
  next
    case (Cons c cs ys yss)
    have IH: "distinct (concat yss) \<and> set (concat yss) \<subseteq> \<Union> (B ` set cs)"
      by (rule Cons.IH) (use Cons.prems in simp_all)
    have "B c \<inter> B c' = {}" if "c' \<in> set cs" for c'
      using Cons.prems that by (metis distinct.simps(2) list.set_intros)
    then have "set ys \<inter> set (concat yss) = {}" using IH Cons.hyps(1) by blast
    with IH Cons.hyps(1) show ?case by auto
  qed
  then show ?thesis by simp
qed

lemma preorder_distinct:
  assumes "cm = childrenMap (group_sessions ss pins cur)" and "vs = listed_sessions ss cur"
    and u: "distinct (map session_id vs)"
    and "s \<in> set vs" and "\<And>x. (s, x) \<in> (forks vs)\<^sup>* \<Longrightarrow> (x, x) \<notin> (forks vs)\<^sup>+"
    and "preorder d cm s = Some xs"
  shows "distinct xs \<and> set xs = {x. (s, x) \<in> (forks vs)\<^sup>*}"
proof
  have below: "set ys = {x. (c, x) \<in> (forks vs)\<^sup>*}" if "c \<in> set vs" "preorder e cm c = Some ys" for c e ys
    using preorder_set [OF that(2)] that(1) by (auto simp: assms(1,2) child_step_forks)
  show "set xs = {x. (s, x) \<in> (forks vs)\<^sup>*}" using below assms(4,6) .
  show "distinct xs"
    using assms(4-)
  proof (induction d arbitrary: s xs)
    case 0
    then show ?case by (simp add: preorder_def)
  next
    case (Suc d)
    then obtain yss where yss: "those (map (preorder d cm) (children cm s)) = Some yss"
      and xs: "xs = s # concat yss"
      by (auto simp: preorder_def [of "Suc d"] descendantsOf_Suc simp del: descendantsOf.simps)
    have kid: "(s, c) \<in> forks vs" if "c \<in> set (children cm s)" for c
      using that Suc.prems(1) by (auto simp: assms(1,2) group_children forks_def)
    have kid_ok: "set ys = {x. (c, x) \<in> (forks vs)\<^sup>*} \<and> distinct ys"
      if "c \<in> set (children cm s)" "preorder d cm c = Some ys" for c ys
    proof -
      have c: "c \<in> set vs" using kid [OF that(1)] by (simp add: forks_def)
      have "distinct ys" using Suc.IH [OF c _ that(2)] Suc.prems(2) kid [OF that(1)]
        by (meson converse_rtrancl_into_rtrancl)
      with below [OF c that(2)] show ?thesis by blast
    qed
    from yss have l: "list_all2 (\<lambda>c ys. c \<in> set (children cm s) \<and> preorder d cm c = Some ys) (children cm s) yss"
      by (auto simp: those_Some list_all2_conv_all_nth list_eq_iff_nth_eq)
    have all: "list_all2 (\<lambda>c ys. set ys \<subseteq> {x. (c, x) \<in> (forks vs)\<^sup>*} \<and> distinct ys) (children cm s) yss"
      by (rule list_all2_mono [OF l]) (use kid_ok in blast)
    have acyc: "(s, s) \<notin> (forks vs)\<^sup>+" using Suc.prems(2) by blast
    have "distinct (concat yss)"
    proof (rule distinct_concat_apart [OF all])
      show "distinct (children cm s)" using u by (simp add: assms(1,2) group_children distinct_map)
    qed (use siblings_apart [OF u acyc] kid in blast)
    moreover have "s \<notin> set (concat yss)"
    proof
      assume "s \<in> set (concat yss)"
      then obtain i where i: "i < length yss" "s \<in> set (yss ! i)" by (auto simp: in_set_conv_nth) metis
      with l have c: "children cm s ! i \<in> set (children cm s)" "preorder d cm (children cm s ! i) = Some (yss ! i)"
        by (auto simp: list_all2_conv_all_nth)
      from kid_ok [OF c] i(2) have "(children cm s ! i, s) \<in> (forks vs)\<^sup>*" by blast
      with kid [OF c(1)] acyc show False by (meson rtrancl_into_trancl2)
    qed
    ultimately show ?case by (simp add: xs)
  qed
qed

lemma visit_keys:
  "visit d cm ex r n conts l s = Some rows \<Longrightarrow>
   map row_key rows = map (\<lambda>row. r @ ''/'' @ session_id (row_session row)) rows"
proof (induction d arbitrary: n conts l s rows)
  case 0
  then show ?case by simp
next
  case (Suc d)
  let ?k = "\<lambda>rows. map row_key rows = map (\<lambda>row. r @ ''/'' @ session_id (row_session row)) rows"
  have "?k (concat below)"
    if "those (map (\<lambda>(i, c). visit d cm ex r (n + 1) (conts @ [0 < n \<and> \<not> l]) (Suc i = length (children cm s)) c)
        (enumerate 0 (children cm s))) = Some below" for below
  proof -
    have "\<forall>rows \<in> set below. ?k rows"
      using that by (fastforce simp: those_Some in_set_conv_nth list_eq_iff_nth_eq nth_enumerate_eq dest: Suc.IH)
    then show ?thesis by (auto simp: map_concat cong: map_cong)
  qed
  with Suc.prems show ?case by (auto simp: Let_def split: option.splits if_splits)
qed

lemma slash_free_key:
  "CHR ''/'' \<notin> set a \<Longrightarrow> CHR ''/'' \<notin> set b \<Longrightarrow> a @ ''/'' @ x = b @ ''/'' @ y \<Longrightarrow> a = b \<and> x = y"
proof (induction a arbitrary: b)
  case Nil
  then show ?case by (cases b) auto
next
  case (Cons c a)
  then show ?case by (cases b) auto
qed

lemma distinct_rows_of_parts:
  "distinct (concat (map row_part rows)) \<Longrightarrow> distinct (map row_session rows)"
  by (induction rows) (auto simp: row_part_def)

lemma row_sessions_in_parts: "row_session ` set rows \<subseteq> set (concat (map row_part rows))"
  by (auto simp: row_part_def)

text \<open>The keys of the rows are distinct, a pinned fork's two rows included, under any choice of expanded
  rows.\<close>

theorem row_keys_distinct:
  assumes "distinct (map session_id sessions)" and "no_pinned_cycle sessions pins"
    and slash: "\<And>s. s \<in> set sessions \<Longrightarrow> CHR ''/'' \<notin> set (session_id s)"
    and t: "buildSessionTree e sessions pins cur = Some t"
    and rows: "flattenSessionTree d t expanded = Some rows"
  shows "distinct (map row_key rows)"
proof -
  let ?cm = "childrenMap (group_sessions sessions pins cur)" and ?vs = "listed_sessions sessions cur"
  let ?v = "\<lambda>(i, root). visit d (childrenMap t) expanded (session_id root) 0 [] (Suc i = length (rootSessions t)) root"
  note u = listed_distinct [OF assms(1), of cur]
  from rows obtain parts where p: "those (map ?v (enumerate 0 (rootSessions t))) = Some parts"
    and r: "rows = concat parts" by (auto simp: flattenSessionTree_def)
  have roots: "r \<in> set ?vs \<and> is_root pins r" if "r \<in> set (rootSessions t)" for r
    using that build_set [OF t] by auto
  have block: "distinct (map row_key part) \<and> set (map row_key part) \<subseteq> range (\<lambda>x. session_id r @ ''/'' @ x)"
    if "r \<in> set (rootSessions t)"
      "visit d (childrenMap t) expanded (session_id r) 0 [] l r = Some part" for r l part
  proof -
    note R = roots [OF that(1)]
    from visit_parts [OF that(2)] have pre: "preorder d ?cm r = Some (concat (map row_part part))"
      by (simp add: build_roots(1) [OF t])
    have "distinct (concat (map row_part part)) \<and> set (concat (map row_part part)) = {x. (r, x) \<in> (forks ?vs)\<^sup>*}"
      by (rule preorder_distinct [OF refl refl u _ _ pre])
        (use R root_acyclic [OF u no_pinned_cycle_listed [OF assms(2)]] in auto)
    then have "distinct (map row_session part)" "row_session ` set part \<subseteq> set ?vs"
      using R row_sessions_in_parts [of part] by (auto dest: distinct_rows_of_parts simp: forks_def elim: rtranclE)
    then have "distinct (map (\<lambda>row. session_id r @ ''/'' @ session_id (row_session row)) part)"
      using u by (auto simp: distinct_map inj_on_def image_subset_iff)
    then show ?thesis unfolding visit_keys [OF that(2)] by auto
  qed
  have all: "list_all2 (\<lambda>r part. set part \<subseteq> range (\<lambda>x. session_id r @ ''/'' @ x) \<and> distinct part)
      (rootSessions t) (map (map row_key) parts)"
  proof (rule list_all2_all_nthI)
    from p have m: "map ?v (enumerate 0 (rootSessions t)) = map Some parts" by (simp only: those_Some)
    from arg_cong [OF m, of length] show len: "length (rootSessions t) = length (map (map row_key) parts)" by simp
    fix i assume i: "i < length (rootSessions t)"
    with arg_cong [OF m, of "\<lambda>xs. xs ! i"] len
    have "visit d (childrenMap t) expanded (session_id (rootSessions t ! i)) 0 []
        (Suc i = length (rootSessions t)) (rootSessions t ! i) = Some (parts ! i)"
      by (simp add: nth_enumerate_eq)
    from block [OF nth_mem [OF i] this] i len
    show "set (map (map row_key) parts ! i) \<subseteq> range (\<lambda>x. session_id (rootSessions t ! i) @ ''/'' @ x)
        \<and> distinct (map (map row_key) parts ! i)" by simp
  qed
  have ids: "distinct (map session_id (rootSessions t))"
  proof -
    have "mset (map session_id (rootSessions t)) = mset (map session_id (filter (is_root pins) ?vs))"
      using build_roots(2) [OF t] by (simp add: group_roots)
    with u show ?thesis by (metis distinct_map_filter mset_eq_imp_distinct_iff)
  qed
  have "distinct (concat (map (map row_key) parts))"
  proof (rule distinct_concat_apart [OF all])
    show "distinct (rootSessions t)" using ids by (simp add: distinct_map)
    fix a b assume ab: "a \<in> set (rootSessions t)" "b \<in> set (rootSessions t)" "a \<noteq> b"
    then have "session_id a \<noteq> session_id b" using ids by (auto simp: distinct_map inj_on_def)
    moreover have "CHR ''/'' \<notin> set (session_id a)" "CHR ''/'' \<notin> set (session_id b)"
      using ab roots slash listed_subset by blast+
    ultimately show "range (\<lambda>x. session_id a @ ''/'' @ x) \<inter> range (\<lambda>x. session_id b @ ''/'' @ x) = {}"
      using slash_free_key by blast
  qed
  then show ?thesis by (simp add: r map_concat)
qed

section \<open>The open session\<close>

text \<open>A row is shown when every session above it is expanded.\<close>

lemma visit_reaches:
  assumes "visit d cm ex r n conts l s = Some rows" and "(s, x) \<in> (child_step cm)\<^sup>*"
    and "\<And>y. (y, x) \<in> (child_step cm)\<^sup>+ \<Longrightarrow> (s, y) \<in> (child_step cm)\<^sup>* \<Longrightarrow> ex (session_id y)"
  shows "x \<in> row_session ` set rows"
  using assms
proof (induction d arbitrary: n conts l s rows)
  case 0
  then show ?case by simp
next
  case (Suc d)
  show ?case
  proof (cases "s = x")
    case True
    with Suc.prems(1) show ?thesis by (auto simp: Let_def split: option.splits if_splits)
  next
    case False
    with Suc.prems(2) obtain c where c: "c \<in> set (children cm s)" "(c, x) \<in> (child_step cm)\<^sup>*"
      and sc: "(s, c) \<in> child_step cm"
      by (auto simp: child_step_def elim: converse_rtranclE)
    have "ex (session_id s)" using Suc.prems(3) c sc by (meson rtrancl.rtrancl_refl rtrancl_into_trancl2)
    with Suc.prems(1) obtain below where
        b: "those (map (\<lambda>(i, c). visit d cm ex r (n + 1) (conts @ [0 < n \<and> \<not> l]) (Suc i = length (children cm s)) c)
          (enumerate 0 (children cm s))) = Some below"
      and rows: "set rows = insert (hd rows) (set (concat below))"
      by (auto simp: Let_def)
    from c(1) obtain i where i: "i < length (children cm s)" "c = children cm s ! i" by (auto simp: in_set_conv_nth)
    with b have v: "visit d cm ex r (n + 1) (conts @ [0 < n \<and> \<not> l]) (Suc i = length (children cm s)) c = Some (below ! i)"
      and len: "length below = length (children cm s)"
      by (auto simp: those_Some list_eq_iff_nth_eq nth_enumerate_eq)
    have "x \<in> row_session ` set (below ! i)"
      by (rule Suc.IH [OF v c(2)]) (meson Suc.prems(3) sc converse_rtrancl_into_rtrancl)
    then have "x \<in> row_session ` set (concat below)" using i(1) len by fastforce
    with rows show ?thesis by auto
  qed
qed

text \<open>The loop over the ancestors.\<close>

lemma by_id_lookup:
  assumes "distinct (map session_id ss)"
  shows "map_of (rev (map (\<lambda>s. (session_id s, s)) ss)) i = Some s \<longleftrightarrow> s \<in> set ss \<and> session_id s = i"
proof -
  have "distinct (map fst (rev (map (\<lambda>s. (session_id s, s)) ss)))"
    using assms by (simp add: rev_map [symmetric] comp_def)
  from map_of_eq_Some_iff [OF this] show ?thesis by auto
qed

lemma ancestor_ids_all:
  assumes u: "distinct (map session_id ss)" and acyc: "acyclic (forks ss)"
    and byId: "byId = map_of (rev (map (\<lambda>s. (session_id s, s)) ss))" and "s \<in> set ss"
  shows "\<exists>ids. ancestor_ids byId (Some s) found = Some ids
      \<and> set found \<subseteq> set ids \<and> (\<forall>y. (y, s) \<in> (forks ss)\<^sup>+ \<longrightarrow> session_id y \<in> set ids)"
  using assms(4)
proof (induction "card {y. (y, s) \<in> (forks ss)\<^sup>+}" arbitrary: s found rule: less_induct)
  case less
  have none: "(y, s) \<notin> (forks ss)\<^sup>+" if "\<not> nonempty (parent_session_id s)" for y
    using that by (auto simp: forks_def elim: tranclE)
  show ?case
  proof (cases "nonempty (parent_session_id s)")
    case False
    then show ?thesis using none by (subst ancestor_ids.simps) (auto split: option.splits)
  next
    case True
    then obtain p where p: "parent_session_id s = Some p" "p \<noteq> []" by (auto simp: nonempty_iff)
    then have step: "ancestor_ids byId (Some s) found = ancestor_ids byId (byId p) (List.insert p found)"
      by (subst ancestor_ids.simps) simp
    show ?thesis
    proof (cases "byId p")
      case None
      then have no: "(q, s) \<notin> forks ss" for q
        using u p by (auto simp: forks_def byId map_of_eq_None_iff image_image)
      then have "(y, s) \<notin> (forks ss)\<^sup>+" for y by (auto elim: tranclE)
      then show ?thesis unfolding step None by (subst ancestor_ids.simps) auto
    next
      case (Some q)
      then have q: "q \<in> set ss" "session_id q = p" by (simp_all add: byId by_id_lookup [OF u])
      then have qs: "(q, s) \<in> forks ss" using less.prems p by (simp add: forks_def)
      have sub: "{y. (y, s) \<in> (forks ss)\<^sup>+} = insert q {y. (y, q) \<in> (forks ss)\<^sup>+}"
      proof -
        have "(y, s) \<in> (forks ss)\<^sup>+ \<longleftrightarrow> (y, q) \<in> (forks ss)\<^sup>*" for y
        proof
          assume "(y, s) \<in> (forks ss)\<^sup>+"
          then obtain z where "(y, z) \<in> (forks ss)\<^sup>*" "(z, s) \<in> forks ss" by (meson tranclD2)
          with forks_parent [OF u _ qs] show "(y, q) \<in> (forks ss)\<^sup>*" by blast
        qed (rule rtrancl_into_trancl1 [OF _ qs])
        then show ?thesis by (auto simp: rtrancl_eq_or_trancl)
      qed
      have fin: "finite {y. (y, q) \<in> (forks ss)\<^sup>+}"
        by (rule finite_subset [of _ "set ss"]) (auto simp: forks_def elim: converse_tranclE)
      have "q \<notin> {y. (y, q) \<in> (forks ss)\<^sup>+}" using acyc by (simp add: acyclic_def)
      with fin have "card {y. (y, q) \<in> (forks ss)\<^sup>+} < card {y. (y, s) \<in> (forks ss)\<^sup>+}"
        by (simp add: sub)
      from less.hyps [OF this q(1), of "List.insert p found"] show ?thesis
        unfolding step Some using q(2) sub [unfolded set_eq_iff] by auto
    qed
  qed
qed

lemma foldl_expand:
  "set (foldl (\<lambda>next i. if i \<in> A \<or> i \<in> set next then next else next @ [i]) xs ids) = set xs \<union> (set ids - A)"
  by (induction ids arbitrary: xs) auto

text \<open>Opening an unpinned session that the tree holds shows its row: the panel expands the ancestors of
  the open session, and the flattened tree then has a row for it.\<close>

theorem active_session_is_shown:
  assumes u: "distinct (map session_id sessions)" and acyc: "acyclic (forks sessions)"
    and d: "length sessions < d" and sid: "sid \<noteq> []" "sid \<notin> set pins"
    and t: "buildSessionTree d sessions pins (Some sid) = Some t"
    and tree: "isSessionInTree t sid = Some True"
    and nothing_collapsed: "manuallyCollapsed p = []"
  shows "\<exists>p' rows. expandActiveAncestors (Some sid) sessions pins p = Some p'
      \<and> flattenSessionTree d t (\<lambda>i. i \<in> set (expandedSessions p')) = Some rows
      \<and> (\<exists>r \<in> set rows. session_id (row_session r) = sid)"
proof -
  let ?vs = "listed_sessions sessions (Some sid)" and ?cm = "childrenMap (group_sessions sessions pins (Some sid))"
  let ?byId = "map_of (rev (map (\<lambda>s. (session_id s, s)) sessions))"
  have npc: "no_pinned_cycle sessions pins" using acyc by (simp add: no_pinned_cycle_def acyclic_def)
  from session_tree_returns [OF u npc d, of "Some sid"] t
  have all: "flattenSessionTree d t ex \<noteq> None" for ex by auto
  then obtain full where full: "flattenSessionTree d t (\<lambda>_. True) = Some full" by blast
  from tree_search_finds_rows [OF full] tree obtain x where x: "x \<in> row_session ` set full" "session_id x = sid" by auto
  with rows_reachable [OF t full] obtain r where
    r: "r \<in> set ?vs" "is_root pins r" "(r, x) \<in> (forks ?vs)\<^sup>*" by blast
  then have "x \<in> set ?vs" by (auto simp: forks_def elim: rtranclE)
  then have xs: "x \<in> set sessions" using listed_subset by blast
  with x(2) have "?byId sid = Some x" by (simp add: by_id_lookup [OF u])
  with ancestor_ids_all [OF u acyc refl xs, of "[]"] obtain ids where
    ids: "ancestor_ids ?byId (?byId sid) [] = Some ids"
    and anc: "\<And>y. (y, x) \<in> (forks sessions)\<^sup>+ \<Longrightarrow> session_id y \<in> set ids" by auto
  let ?p' = "p\<lparr>expandedSessions := foldl (\<lambda>next i. if i \<in> set next then next else next @ [i]) (expandedSessions p) ids\<rparr>"
  have "sessions \<noteq> []" using xs by auto
  then have p': "expandActiveAncestors (Some sid) sessions pins p = Some ?p'"
    using ids sid nothing_collapsed by (simp add: expandActiveAncestors_def Let_def)
  have ex: "set (expandedSessions ?p') = set (expandedSessions p) \<union> set ids"
    using foldl_expand [of "{}"] by simp
  from all obtain rows where rows: "flattenSessionTree d t (\<lambda>i. i \<in> set (expandedSessions ?p')) = Some rows" by blast
  then obtain parts where p: "those (map (\<lambda>(i, root). visit d (childrenMap t) (\<lambda>i. i \<in> set (expandedSessions ?p'))
        (session_id root) 0 [] (Suc i = length (rootSessions t)) root) (enumerate 0 (rootSessions t))) = Some parts"
    and rp: "rows = concat parts" by (auto simp: flattenSessionTree_def)
  have "r \<in> set (rootSessions t)" using r build_set [OF t] by simp
  then obtain i where i: "i < length (rootSessions t)" "r = rootSessions t ! i" by (auto simp: in_set_conv_nth)
  with p have v: "visit d ?cm (\<lambda>i. i \<in> set (expandedSessions ?p')) (session_id r) 0 []
      (Suc i = length (rootSessions t)) r = Some (parts ! i)"
    and len: "length parts = length (rootSessions t)"
    by (auto simp: those_Some list_eq_iff_nth_eq nth_enumerate_eq build_roots(1) [OF t])
  have "x \<in> row_session ` set (parts ! i)"
  proof (rule visit_reaches [OF v])
    show "(r, x) \<in> (child_step ?cm)\<^sup>*" using child_step_forks [OF r(1)] r(3) by simp
    fix y assume y: "(y, x) \<in> (child_step ?cm)\<^sup>+" "(r, y) \<in> (child_step ?cm)\<^sup>*"
    from y(2) have ry: "(r, y) \<in> (forks ?vs)\<^sup>*" by (simp add: child_step_forks [OF r(1)])
    then have yv: "y \<in> set ?vs" using r(1) by (auto simp: forks_def elim: rtranclE)
    from y(1) obtain z where "(y, z) \<in> child_step ?cm" "(z, x) \<in> (child_step ?cm)\<^sup>*" by (meson tranclD)
    then have yz: "(y, z) \<in> forks ?vs" using yv by (auto simp: child_step_def group_children forks_def)
    then have "z \<in> set ?vs" by (auto simp: forks_def)
    from child_step_forks [OF this] \<open>(z, x) \<in> (child_step ?cm)\<^sup>*\<close> yz
    have "(y, x) \<in> (forks ?vs)\<^sup>+" by (meson rtrancl_into_trancl2)
    then have "(y, x) \<in> (forks sessions)\<^sup>+" using trancl_mono [OF _ forks_mono [OF listed_subset]] by blast
    then show "session_id y \<in> set (expandedSessions ?p')" using anc ex by blast
  qed
  then have "\<exists>row \<in> set rows. session_id (row_session row) = sid" using i len x(2) by (auto simp: rp)
  with p' rows show ?thesis by blast
qed

text \<open>A small panel: a conversation, its fork, a fork of the fork that is pinned.\<close>

definition sample_session :: "string \<Rightarrow> string option \<Rightarrow> int \<Rightarrow> session" where
  "sample_session i p n = \<lparr>session_id = i, parent_session_id = p, spawned_from_session_id = None,
     is_side_thread = False, session_name = None, auto_name = None, num_turns = n,
     container_id = None, updated_at = Some i, started_at = None\<rparr>"

definition sample_sessions :: "session list" where
  "sample_sessions = [sample_session ''a'' None 1, sample_session ''b'' (Some ''a'') 2,
     sample_session ''c'' (Some ''b'') 3, sample_session ''d'' None 4]"

lemma sample_acyclic: "acyclic (forks sample_sessions)"
proof -
  have "\<forall>x \<in> set sample_sessions. \<forall>y \<in> set sample_sessions.
      parent_session_id y = Some (session_id x) \<longrightarrow> nat (num_turns x) < nat (num_turns y)" by code_simp
  then have "forks sample_sessions \<subseteq> measure (\<lambda>s. nat (num_turns s))"
    by (auto simp: forks_def simp del: zless_nat_conj nat_less_eq_zless)
  with wf_acyclic [OF wf_measure] show ?thesis by (rule acyclic_subset)
qed

lemma sample_pinned: "no_pinned_cycle sample_sessions pins"
  using sample_acyclic by (simp add: no_pinned_cycle_def acyclic_def)

lemma sample_distinct: "distinct (map session_id sample_sessions)"
  by code_simp

theorem session_tree_returns_witness:
  "\<exists>t. buildSessionTree 5 sample_sessions [''c''] (Some ''d'') = Some t \<and> countTreeRows 5 t \<noteq> None
     \<and> (\<forall>expanded. flattenSessionTree 5 t expanded \<noteq> None) \<and> (\<forall>sid. isSessionInTree t sid \<noteq> None)"
  by (rule session_tree_returns [OF sample_distinct sample_pinned]) code_simp

definition sample_tree :: session_tree where
  "sample_tree = the (buildSessionTree 5 sample_sessions [''d''] (Some ''c''))"

lemma sample_tree_built: "buildSessionTree 5 sample_sessions [''d''] (Some ''c'') = Some sample_tree"
  by code_simp

theorem active_session_is_shown_witness:
  "\<exists>p' rows. expandActiveAncestors (Some ''c'') sample_sessions [''d''] \<lparr>expandedSessions = [], manuallyCollapsed = []\<rparr> = Some p'
      \<and> flattenSessionTree 5 sample_tree (\<lambda>i. i \<in> set (expandedSessions p')) = Some rows
      \<and> (\<exists>r \<in> set rows. session_id (row_session r) = ''c'')"
proof (rule active_session_is_shown [OF sample_distinct sample_acyclic _ _ _ sample_tree_built])
  show "isSessionInTree sample_tree ''c'' = Some True" unfolding isSessionInTree_def sample_tree_def by code_simp
qed (code_simp, simp_all)

theorem collapsed_rows_keep_all_sessions_witness:
  "\<exists>full. flattenSessionTree 5 sample_tree (\<lambda>_. True) = Some full
     \<and> concat (map (\<lambda>r. row_session r # hiddenSessions r)
         (the (flattenSessionTree 5 sample_tree (\<lambda>i. i = ''a'')))) = map row_session full
     \<and> countTreeRows 5 sample_tree = Some (length full)"
proof (rule collapsed_rows_keep_all_sessions)
  have "flattenSessionTree 5 sample_tree (\<lambda>i. i = ''a'') \<noteq> None" by code_simp
  then show "flattenSessionTree 5 sample_tree (\<lambda>i. i = ''a'')
      = Some (the (flattenSessionTree 5 sample_tree (\<lambda>i. i = ''a'')))" by (rule option.collapse [symmetric])
qed

definition sample_panel :: session_tree where
  "sample_panel = the (buildSessionTree 5 sample_sessions [''b''] (Some ''d''))"

theorem row_keys_distinct_witness:
  "distinct (map row_key (the (flattenSessionTree 5 sample_panel (\<lambda>_. True))))"
proof (rule row_keys_distinct [OF sample_distinct sample_pinned [of "[''b'']"]])
  show "CHR ''/'' \<notin> set (session_id s)" if "s \<in> set sample_sessions" for s
  proof -
    have "\<forall>s \<in> set sample_sessions. CHR ''/'' \<notin> set (session_id s)" by code_simp
    with that show ?thesis by blast
  qed
  show "buildSessionTree 5 sample_sessions [''b''] (Some ''d'') = Some sample_panel" by code_simp
  have "flattenSessionTree 5 sample_panel (\<lambda>_. True) \<noteq> None" by code_simp
  then show "flattenSessionTree 5 sample_panel (\<lambda>_. True)
      = Some (the (flattenSessionTree 5 sample_panel (\<lambda>_. True)))" by (rule option.collapse [symmetric])
qed

definition named_fork :: session where
  "named_fork = (sample_session ''e'' (Some ''a'') 5)\<lparr>session_name := Some ''review''\<rparr>"

theorem fork_of_unlisted_parent_has_no_row_witness:
  "matchesSessionFilter NAMED named_fork [] \<and>
   Option.bind (treeFor 6 NAMED (sample_sessions @ [named_fork]) [] None)
     (\<lambda>t. isSessionInTree t (session_id named_fork)) = Some False"
proof
  show "matchesSessionFilter NAMED named_fork []" by code_simp
  show "Option.bind (treeFor 6 NAMED (sample_sessions @ [named_fork]) [] None)
     (\<lambda>t. isSessionInTree t (session_id named_fork)) = Some False"
  proof (rule fork_of_unlisted_parent_has_no_row [where p = "''a''"])
    show "no_pinned_cycle (sample_sessions @ [named_fork]) []" by (simp add: no_pinned_cycle_def)
    have "\<forall>q \<in> set (sample_sessions @ [named_fork]).
        session_id q = ''a'' \<longrightarrow> \<not> matchesSessionFilter NAMED q []" by code_simp
    then show "\<not> matchesSessionFilter NAMED q []"
      if "q \<in> set (sample_sessions @ [named_fork])" "session_id q = ''a''" for q using that by blast
  qed (code_simp | simp)+
qed

definition sample_thread :: session where
  "sample_thread = (sample_session ''t'' (Some ''a'') 1)\<lparr>is_side_thread := True\<rparr>"

theorem threads_badge_counts_nothing_witness:
  "getCount 6 THREADS (sample_sessions @ [sample_thread]) [] None = Some 0
   \<and> originSessions THREADS (sample_sessions @ [sample_thread]) [] = [sample_thread]"
proof -
  let ?ss = "sample_sessions @ [sample_thread]"
  have "\<forall>s \<in> set ?ss. is_side_thread s \<longrightarrow> nonempty (parent_session_id s) \<and> session_id s \<notin> set []"
    by code_simp
  then have "getCount 6 THREADS ?ss [] None = Some 0
      \<and> originSessions THREADS ?ss [] = filter is_side_thread ?ss"
    by (intro threads_badge_counts_nothing) blast
  moreover have "filter is_side_thread ?ss = [sample_thread]"
    by (simp add: sample_sessions_def sample_session_def sample_thread_def)
  ultimately show ?thesis by simp
qed

end
