(* ===== verification/TextEdit.thy ===== *)
theory TextEdit
  imports Prelude
begin

text \<open>
  The text editing of the composer and the reply boxes: line offsets
  (\<open>chat-input/utils/textareaPosition.js\<close>), list markers (\<open>listMarker.js\<close>) and the transforms behind
  Tab, Shift+Enter and the wrapping keys (\<open>textTransforms.js\<close>), under \<open>features/chat/components\<close>. An
  offset is a \<open>nat\<close>; a transform takes the text with its selection and returns them, or \<open>None\<close>.
\<close>

section \<open>Offsets\<close>

abbreviation newline :: char where "newline \<equiv> CHR 0x0A"

text \<open>\<open>s.slice(a, b)\<close> for offsets; it is empty when \<open>b \<le> a\<close>.\<close>

definition slice :: "nat \<Rightarrow> nat \<Rightarrow> string \<Rightarrow> string" where
  "slice a b s = take (b - a) (drop a s)"

text \<open>
  \<open>s.lastIndexOf('\n', pos - 1)\<close> looks at the indices up to \<open>pos - 1\<close>; for \<open>pos = 0\<close> the engine clamps the
  start index -1 to 0 and looks at the first character.
\<close>

definition lineStartOffset :: "string \<Rightarrow> nat \<Rightarrow> nat" where
  "lineStartOffset s pos =
     (case last_index (\<lambda>c. c = newline) (take (max 1 pos) s) of None \<Rightarrow> 0 | Some i \<Rightarrow> i + 1)"

definition lineEndOffset :: "string \<Rightarrow> nat \<Rightarrow> nat" where
  "lineEndOffset s pos =
     (case find_index (\<lambda>c. c = newline) (drop pos s) of None \<Rightarrow> length s | Some i \<Rightarrow> pos + i)"

definition blank :: "char \<Rightarrow> bool" where
  "blank c \<longleftrightarrow> c = CHR '' '' \<or> c = CHR 0x09"

definition leadingWhitespaceLen :: "string \<Rightarrow> nat \<Rightarrow> nat" where
  "leadingWhitespaceLen s lineStart = length (takeWhile blank (drop lineStart s))"

section \<open>List markers\<close>

datatype marker_type = Bullet | Numbered_Dot | Numbered_Paren | Task

record list_line =
  leadingWhitespace :: string
  marker :: string
  markerType :: marker_type
  numberValue :: "nat option"
  bulletChar :: "char option"
  content :: string

definition is_bullet :: "char \<Rightarrow> bool" where
  "is_bullet c \<longleftrightarrow> c \<in> set ''-*+''"

definition ascii_digit :: "char \<Rightarrow> bool" where
  "ascii_digit c \<longleftrightarrow> 48 \<le> (of_char c :: nat) \<and> of_char c \<le> (57 :: nat)"

definition number_of :: "string \<Rightarrow> nat" where
  "number_of ds = foldl (\<lambda>n c. 10 * n + (of_char c - 48)) 0 ds"

text \<open>The four expressions, tried in this order; \<open>.\<close> does not match a line terminator.\<close>

fun task_item :: "string \<Rightarrow> string \<Rightarrow> list_line option" where
  "task_item ws (b # s1 # o1 # c # o2 # s2 # rest) =
     (if is_bullet b \<and> s1 = CHR '' '' \<and> o1 = CHR ''['' \<and> c \<in> set '' xX'' \<and> o2 = CHR '']'' \<and> s2 = CHR '' ''
         \<and> \<not> list_ex js_newline rest
      then Some \<lparr>leadingWhitespace = ws, marker = [b] @ '' ['' @ [c] @ ''] '', markerType = Task,
                 numberValue = None, bulletChar = Some b, content = rest\<rparr>
      else None)"
| "task_item ws _ = None"

fun bullet_item :: "string \<Rightarrow> string \<Rightarrow> list_line option" where
  "bullet_item ws (b # s1 # rest) =
     (if is_bullet b \<and> s1 = CHR '' '' \<and> \<not> list_ex js_newline rest
      then Some \<lparr>leadingWhitespace = ws, marker = [b] @ '' '', markerType = Bullet,
                 numberValue = None, bulletChar = Some b, content = rest\<rparr>
      else None)"
| "bullet_item ws _ = None"

definition numbered_item :: "char \<Rightarrow> marker_type \<Rightarrow> string \<Rightarrow> string \<Rightarrow> list_line option" where
  "numbered_item sep ty ws s =
     (let ds = takeWhile ascii_digit s
      in case dropWhile ascii_digit s of
           p # s1 # rest \<Rightarrow>
             if ds \<noteq> [] \<and> p = sep \<and> s1 = CHR '' '' \<and> \<not> list_ex js_newline rest
             then Some \<lparr>leadingWhitespace = ws, marker = ds @ [sep] @ '' '', markerType = ty,
                        numberValue = Some (number_of ds), bulletChar = None, content = rest\<rparr>
             else None
         | _ \<Rightarrow> None)"

definition parseListLine :: "string \<Rightarrow> list_line option" where
  "parseListLine s =
     (let ws = takeWhile blank s; rest = dropWhile blank s
      in case task_item ws rest of
           Some p \<Rightarrow> Some p
         | None \<Rightarrow>
        (case bullet_item ws rest of
           Some p \<Rightarrow> Some p
         | None \<Rightarrow>
        (case numbered_item (CHR ''.'') Numbered_Dot ws rest of
           Some p \<Rightarrow> Some p
         | None \<Rightarrow> numbered_item (CHR '')'') Numbered_Paren ws rest)))"

definition nextMarker :: "list_line \<Rightarrow> string" where
  "nextMarker p =
     (let b = (case bulletChar p of None \<Rightarrow> [] | Some c \<Rightarrow> [c]);
          n = (case numberValue p of None \<Rightarrow> 0 | Some n \<Rightarrow> n)
      in case markerType p of
           Bullet \<Rightarrow> b @ '' ''
         | Task \<Rightarrow> b @ '' [ ] ''
         | Numbered_Dot \<Rightarrow> nat_digits (n + 1) @ ''. ''
         | Numbered_Paren \<Rightarrow> nat_digits (n + 1) @ '') '')"

section \<open>Transforms\<close>

record edit =
  ed_value :: string
  selStart :: nat
  selEnd :: nat

definition WRAP_PAIRS :: "(char \<times> char) list" where
  "WRAP_PAIRS = [(CHR 0x27, CHR 0x27), (CHR 0x22, CHR 0x22), (CHR 0x60, CHR 0x60),
     (CHR ''('', CHR '')''), (CHR ''['', CHR '']''), (CHR ''{'', CHR ''}'')]"

definition wrapInTags :: "string \<Rightarrow> nat \<Rightarrow> nat \<Rightarrow> edit" where
  "wrapInTags s a b =
     (let wrapped = ''<this>'' @ slice a b s @ ''</this>'';
          newPos = (if a \<noteq> b then a + length wrapped else a + 6)
      in \<lparr>ed_value = take a s @ wrapped @ drop b s, selStart = newPos, selEnd = newPos\<rparr>)"

definition shiftEnter :: "string \<Rightarrow> nat \<Rightarrow> edit" where
  "shiftEnter s caret =
     (let lineStart = lineStartOffset s caret;
          lineEnd = lineEndOffset s caret;
          parsed = parseListLine (slice lineStart lineEnd s)
      in case parsed of
           Some p \<Rightarrow>
             if content p = [] then
               (let indent = leadingWhitespace p;
                    pos = lineStart + length indent + 1 + length indent
                in \<lparr>ed_value = take lineStart s @ indent @ [newline] @ indent @ drop lineEnd s,
                    selStart = pos, selEnd = pos\<rparr>)
             else
               (let prefix = leadingWhitespace p @ nextMarker p; pos = caret + 1 + length prefix
                in \<lparr>ed_value = take caret s @ [newline] @ prefix @ drop caret s, selStart = pos, selEnd = pos\<rparr>)
         | None \<Rightarrow>
             (let prefix = slice lineStart (lineStart + leadingWhitespaceLen s lineStart) s;
                  pos = caret + 1 + length prefix
              in \<lparr>ed_value = take caret s @ [newline] @ prefix @ drop caret s, selStart = pos, selEnd = pos\<rparr>))"

definition snapIndentLine :: "string \<Rightarrow> nat \<Rightarrow> nat \<Rightarrow> string \<times> nat" where
  "snapIndentLine s lineStart leadingLen =
     (let toAdd = 2 - leadingLen mod 2
      in (take lineStart s @ replicate toAdd (CHR '' '') @ drop lineStart s, toAdd))"

definition snapDedentLine :: "string \<Rightarrow> nat \<Rightarrow> nat \<Rightarrow> string \<times> nat" where
  "snapDedentLine s lineStart leadingLen =
     (if leadingLen = 0 then (s, 0)
      else (let toRemove = (if leadingLen mod 2 \<noteq> 0 then leadingLen mod 2 else 2)
            in (take lineStart s @ drop (lineStart + toRemove) s, toRemove)))"

text \<open>The starts of the lines that the selection touches.\<close>

definition touchedLineStarts :: "string \<Rightarrow> nat \<Rightarrow> nat \<Rightarrow> nat list" where
  "touchedLineStarts s first b =
     first # map Suc (filter (\<lambda>i. i < length s \<and> s ! i = newline \<and> i + 1 < b) [first..<b])"

definition snapLine :: "bool \<Rightarrow> nat \<Rightarrow> string \<times> int \<Rightarrow> string \<times> int" where
  "snapLine dedent ls st =
     (let ll = leadingWhitespaceLen (fst st) ls
      in if dedent then (case snapDedentLine (fst st) ls ll of (s', removed) \<Rightarrow> (s', snd st - int removed))
         else (case snapIndentLine (fst st) ls ll of (s', added) \<Rightarrow> (s', snd st + int added)))"

definition applyMultiLineSnap :: "string \<Rightarrow> nat \<Rightarrow> nat \<Rightarrow> bool \<Rightarrow> edit" where
  "applyMultiLineSnap s a b dedent =
     (let first = lineStartOffset s a;
          (current, totalDelta) = foldr (snapLine dedent) (touchedLineStarts s first b) (s, 0)
      in \<lparr>ed_value = current, selStart = first, selEnd = nat (max (int first) (int b + totalDelta))\<rparr>)"

definition tabKey :: "string \<Rightarrow> nat \<Rightarrow> nat \<Rightarrow> bool \<Rightarrow> edit option" where
  "tabKey s a b dedent =
     (if a \<noteq> b \<and> newline \<in> set (slice a b s) then Some (applyMultiLineSnap s a b dedent)
      else (let lineStart = lineStartOffset s a;
                leadingLen = leadingWhitespaceLen s lineStart
            in if dedent then
                 (if leadingLen = 0 then None
                  else (case snapDedentLine s lineStart leadingLen of (s', removed) \<Rightarrow>
                          Some \<lparr>ed_value = s', selStart = max lineStart (a - removed),
                                selEnd = max lineStart (b - removed)\<rparr>))
               else if a \<noteq> b then
                 Some \<lparr>ed_value = take a s @ ''  '' @ drop b s, selStart = a + 2, selEnd = a + 2\<rparr>
               else if int a - int lineStart \<le> int leadingLen then
                 (case snapIndentLine s lineStart leadingLen of (s', added) \<Rightarrow>
                    Some \<lparr>ed_value = s', selStart = lineStart + leadingLen + added,
                          selEnd = lineStart + leadingLen + added\<rparr>)
               else Some \<lparr>ed_value = take a s @ ''  '' @ drop a s, selStart = a + 2, selEnd = a + 2\<rparr>))"

definition wrapPair :: "string \<Rightarrow> nat \<Rightarrow> nat \<Rightarrow> char \<Rightarrow> edit option" where
  "wrapPair s a b key =
     (if a = b then None
      else (case map_of WRAP_PAIRS key of
              None \<Rightarrow> None
            | Some close \<Rightarrow>
                Some \<lparr>ed_value = take a s @ [key] @ slice a b s @ [close] @ drop b s,
                      selStart = b + 2, selEnd = b + 2\<rparr>))"

end
