(* ===== verification/TextEditFacts.thy ===== *)
theory TextEditFacts
  imports TextEdit
begin

text \<open>
  What the text editing does: offsets delimit lines except before a leading line break, list lines parse
  and print, a list continues with its next marker and ends on an empty item, indenting a selection
  indents each line of it, and the wrapping keys keep the text between the marks.
\<close>

section \<open>Lines\<close>

definition no_newline :: "string \<Rightarrow> bool" where
  "no_newline s \<longleftrightarrow> newline \<notin> set s"

definition starts_line :: "string \<Rightarrow> bool" where
  "starts_line pre \<longleftrightarrow> pre = [] \<or> last pre = newline"

definition ends_line :: "string \<Rightarrow> bool" where
  "ends_line post \<longleftrightarrow> post = [] \<or> hd post = newline"

lemma no_newline_simps [simp]: "no_newline []" "no_newline (c # s) \<longleftrightarrow> c \<noteq> newline \<and> no_newline s"
  "no_newline (s @ t) \<longleftrightarrow> no_newline s \<and> no_newline t"
  by (auto simp: no_newline_def)

lemma no_newline_take: "no_newline s \<Longrightarrow> no_newline (take k s)"
  by (auto simp: no_newline_def dest: in_set_takeD)

lemma starts_line_snoc [simp]: "starts_line (pre @ [newline])"
  by (simp add: starts_line_def)

lemma last_index_starts: "starts_line pre \<Longrightarrow> no_newline s \<Longrightarrow>
   (case last_index (\<lambda>c. c = newline) (pre @ s) of None \<Rightarrow> 0 | Some i \<Rightarrow> i + 1) = length pre"
  by (cases pre rule: rev_cases)
    (auto simp: starts_line_def last_index_append no_newline_def last_index_None split: option.splits)

lemma lineStart_of:
  assumes "starts_line pre" and "no_newline (take k rest)" and "k \<le> length rest"
    and "0 < length pre + k \<or> rest = [] \<or> hd rest \<noteq> newline"
  shows "lineStartOffset (pre @ rest) (length pre + k) = length pre"
proof (cases "0 < length pre + k")
  case True
  then have "max 1 (length pre + k) = length pre + k" by (intro max_absorb2) linarith
  then have "take (max 1 (length pre + k)) (pre @ rest) = pre @ take k rest" by simp
  with last_index_starts [OF assms(1,2)] show ?thesis by (simp add: lineStartOffset_def)
next
  case False
  with assms(4) show ?thesis by (cases rest) (auto simp: lineStartOffset_def)
qed

lemma find_index_ends: "no_newline s \<Longrightarrow> ends_line post \<Longrightarrow>
   find_index (\<lambda>c. c = newline) (s @ post) = (if post = [] then None else Some (length s))"
  by (induction s) (auto simp: ends_line_def neq_Nil_conv)

lemma lineEnd_of:
  assumes "no_newline line" and "ends_line post" and "k \<le> length line"
  shows "lineEndOffset (pre @ line @ post) (length pre + k) = length pre + length line"
proof -
  have "no_newline (drop k line)" using assms(1) by (auto simp: no_newline_def dest: in_set_dropD)
  from find_index_ends [OF this assms(2)] assms(3) show ?thesis by (auto simp: lineEndOffset_def)
qed

text \<open>The first character is a line break and the caret is before it: the offset is the next line's.\<close>

lemma lineStart_before_newline: "lineStartOffset (newline # s) 0 = 1"
  by (simp add: lineStartOffset_def)

lemma slice_mid [simp]: "slice (length pre) (length pre + length s) (pre @ s @ post) = s"
  by (simp add: slice_def)

lemma newline_not_blank: "\<not> blank newline"
  by (simp add: blank_def)

section \<open>List lines\<close>

lemma task_item_Some: "task_item ws s = Some p \<longleftrightarrow>
   (\<exists>b c rest. s = b # '' ['' @ c # ''] '' @ rest \<and> is_bullet b \<and> c \<in> set '' xX'' \<and> \<not> list_ex js_newline rest
     \<and> p = \<lparr>leadingWhitespace = ws, marker = [b] @ '' ['' @ [c] @ ''] '', markerType = Task,
            numberValue = None, bulletChar = Some b, content = rest\<rparr>)"
  by (induction ws s rule: task_item.induct) auto

lemma bullet_item_Some: "bullet_item ws s = Some p \<longleftrightarrow>
   (\<exists>b rest. s = b # CHR '' '' # rest \<and> is_bullet b \<and> \<not> list_ex js_newline rest
     \<and> p = \<lparr>leadingWhitespace = ws, marker = [b] @ '' '', markerType = Bullet,
            numberValue = None, bulletChar = Some b, content = rest\<rparr>)"
  by (induction ws s rule: bullet_item.induct) auto

lemma numbered_item_Some: "numbered_item sep ty ws s = Some p \<longleftrightarrow>
   (\<exists>rest. let ds = takeWhile ascii_digit s in dropWhile ascii_digit s = sep # CHR '' '' # rest \<and> ds \<noteq> []
     \<and> \<not> list_ex js_newline rest
     \<and> p = \<lparr>leadingWhitespace = ws, marker = ds @ [sep] @ '' '', markerType = ty,
            numberValue = Some (number_of ds), bulletChar = None, content = rest\<rparr>)"
  by (auto simp: numbered_item_def Let_def simp del: dropWhile_eq_Nil_conv split: list.splits)

lemma item_parts:
  "task_item ws s = Some p \<Longrightarrow> leadingWhitespace p = ws \<and> marker p @ content p = s"
  "bullet_item ws s = Some p \<Longrightarrow> leadingWhitespace p = ws \<and> marker p @ content p = s"
  "numbered_item sep ty ws s = Some p \<Longrightarrow> leadingWhitespace p = ws \<and> marker p @ content p = s"
proof -
  show "leadingWhitespace p = ws \<and> marker p @ content p = s" if "numbered_item sep ty ws s = Some p"
    using that by (auto simp: numbered_item_Some Let_def) (metis takeWhile_dropWhile_id)
qed (auto simp: task_item_Some bullet_item_Some)

lemma parse_parts:
  assumes "parseListLine s = Some p"
  shows "leadingWhitespace p = takeWhile blank s \<and> marker p @ content p = dropWhile blank s"
  using assms by (auto simp: parseListLine_def Let_def split: option.splits dest: item_parts)

lemma digit_char_ascii: "n < 10 \<Longrightarrow> ascii_digit (digit_char n) \<and> (of_char (digit_char n) :: nat) - 48 = n"
  by (simp add: ascii_digit_def digit_char_def)

lemma nat_digits_ascii: "(\<forall>c \<in> set (nat_digits n). ascii_digit c) \<and> nat_digits n \<noteq> []"
proof (induction n rule: nat_digits.induct)
  case (1 n)
  then show ?case by (subst nat_digits.simps) (auto simp: nat_digits.simps [of n] digit_char_ascii)
qed

lemma number_of_snoc: "number_of (ds @ [c]) = 10 * number_of ds + (of_char c - 48)"
  by (simp add: number_of_def)

lemma number_of_digits: "number_of (nat_digits n) = n"
proof (induction n rule: nat_digits.induct)
  case (1 n)
  show ?case
  proof (cases "n < 10")
    case True
    then show ?thesis by (simp add: nat_digits.simps [of n] number_of_def digit_char_ascii)
  next
    case False
    with 1 show ?thesis by (subst nat_digits.simps) (simp add: number_of_snoc digit_char_ascii)
  qed
qed

lemma bullet_not_blank: "is_bullet b \<Longrightarrow> \<not> blank b \<and> \<not> ascii_digit b"
  by (auto simp: is_bullet_def blank_def ascii_digit_def)

lemma digit_not_blank: "ascii_digit c \<Longrightarrow> \<not> blank c \<and> \<not> is_bullet c"
  by (auto simp: is_bullet_def blank_def ascii_digit_def)

lemma parse_blank_prefix:
  assumes "\<forall>c \<in> set ws. blank c" and "s = [] \<or> \<not> blank (hd s)"
  shows "takeWhile blank (ws @ s) = ws" "dropWhile blank (ws @ s) = s"
  using assms by (induction ws) (cases s; auto)+

lemma list_ex_newline: "list_ex js_newline s \<longleftrightarrow> (\<exists>c \<in> set s. js_newline c)"
  by (simp add: list_ex_iff)

lemma parse_facts:
  assumes "parseListLine s = Some p"
  shows "(\<forall>c \<in> set (leadingWhitespace p). blank c) \<and> s = leadingWhitespace p @ marker p @ content p"
  using parse_parts [OF assms] by (metis set_takeWhileD takeWhile_dropWhile_id)

text \<open>What follows the marker of a parsed line can be replaced; the next marker parses to its type.\<close>

lemma numbered_parse:
  assumes "ds \<noteq> []" "\<forall>c \<in> set ds. ascii_digit c" "\<not> ascii_digit sep" "\<not> list_ex js_newline c"
  shows "numbered_item sep ty ws (ds @ sep # CHR '' '' # c)
     = Some \<lparr>leadingWhitespace = ws, marker = ds @ [sep] @ '' '', markerType = ty,
             numberValue = Some (number_of ds), bulletChar = None, content = c\<rparr>"
    and "sep \<noteq> sep' \<Longrightarrow> numbered_item sep' ty' ws (ds @ sep # CHR '' '' # c) = None"
proof -
  have "takeWhile ascii_digit (ds @ sep # CHR '' '' # c) = ds"
    "dropWhile ascii_digit (ds @ sep # CHR '' '' # c) = sep # CHR '' '' # c"
    using assms by (simp_all add: takeWhile_append2 dropWhile_append2)
  with assms show "numbered_item sep ty ws (ds @ sep # CHR '' '' # c)
     = Some \<lparr>leadingWhitespace = ws, marker = ds @ [sep] @ '' '', markerType = ty,
             numberValue = Some (number_of ds), bulletChar = None, content = c\<rparr>"
    "sep \<noteq> sep' \<Longrightarrow> numbered_item sep' ty' ws (ds @ sep # CHR '' '' # c) = None"
    by (simp_all add: numbered_item_def)
qed

lemma not_bullet_items:
  "\<not> is_bullet (hd s) \<Longrightarrow> task_item ws s = None \<and> bullet_item ws s = None"
  by (cases "task_item ws s"; cases "bullet_item ws s") (auto simp: task_item_Some bullet_item_Some)

lemma digits_no_bullet:
  assumes "ds \<noteq> []" "\<forall>c \<in> set ds. ascii_digit c"
  shows "task_item ws (ds @ r) = None \<and> bullet_item ws (ds @ r) = None"
  by (rule not_bullet_items) (use assms digit_not_blank in \<open>auto simp: neq_Nil_conv\<close>)

text \<open>The line that continues a list: the same indentation, the next marker, and nothing after it.\<close>

definition continued :: "list_line \<Rightarrow> string" where
  "continued p = leadingWhitespace p @ nextMarker p"

lemma marker_shape:
  assumes "parseListLine s = Some p"
  shows "(markerType p \<in> {Bullet, Task} \<longrightarrow> (\<exists>b. bulletChar p = Some b \<and> is_bullet b) \<and> numberValue p = None)
       \<and> (markerType p \<in> {Numbered_Dot, Numbered_Paren} \<longrightarrow> (\<exists>n. numberValue p = Some n) \<and> bulletChar p = None)
       \<and> no_newline (content p) \<and> no_newline (marker p)"
proof -
  have d: "no_newline (takeWhile ascii_digit r)" for r
    by (auto simp: no_newline_def ascii_digit_def dest: set_takeWhileD)
  have n: "\<not> list_ex js_newline r \<Longrightarrow> no_newline r" for r
    by (auto simp: no_newline_def list_ex_iff js_newline_def)
  have b: "is_bullet c \<Longrightarrow> c \<noteq> newline" for c by (auto simp: is_bullet_def)
  show ?thesis using assms d n b
    by (auto simp: parseListLine_def Let_def task_item_Some bullet_item_Some numbered_item_Some
        split: option.splits)
qed

lemma continued_parses:
  assumes "parseListLine s = Some p"
  shows "\<exists>p'. parseListLine (continued p) = Some p' \<and> markerType p' = markerType p
      \<and> leadingWhitespace p' = leadingWhitespace p \<and> bulletChar p' = bulletChar p \<and> content p' = []
      \<and> numberValue p' = map_option Suc (numberValue p)"
proof -
  let ?ws = "leadingWhitespace p"
  have ws: "\<forall>c \<in> set ?ws. blank c" using parse_facts [OF assms] by blast
  have split: "takeWhile blank (?ws @ m) = ?ws" "dropWhile blank (?ws @ m) = m" if "\<not> blank (hd m)" for m
    using parse_blank_prefix [OF ws, of m] that by auto
  note S = marker_shape [OF assms]
  show ?thesis
  proof (cases "markerType p \<in> {Bullet, Task}")
    case True
    with S obtain b where b: "bulletChar p = Some b" "is_bullet b" "numberValue p = None" by blast
    then have "\<not> blank b" by (simp add: bullet_not_blank)
    with True b split [of "nextMarker p"] show ?thesis
      by (auto simp: continued_def nextMarker_def parseListLine_def)
  next
    case False
    then have ty: "markerType p \<in> {Numbered_Dot, Numbered_Paren}" by (cases "markerType p") auto
    with S obtain n where n: "numberValue p = Some n" "bulletChar p = None" by blast
    let ?ds = "nat_digits (n + 1)"
    have ds: "?ds \<noteq> []" "\<forall>c \<in> set ?ds. ascii_digit c" using nat_digits_ascii by auto
    then have "\<not> blank (hd (?ds @ r))" for r using digit_not_blank by (auto simp: neq_Nil_conv)
    note sp = split [OF this]
    have nd: "\<not> ascii_digit (CHR ''.'')" "\<not> ascii_digit (CHR '')'')" by (auto simp: ascii_digit_def)
    from ty n show ?thesis
      using sp [of "''. ''"] sp [of "'') ''"] digits_no_bullet [OF ds]
        numbered_parse(1) [OF ds nd(1), of "[]"] numbered_parse(1) [OF ds nd(2), of "[]"]
        numbered_parse(2) [OF ds nd(2), of "[]" "CHR ''.''"] number_of_digits [of "n + 1"]
      by (auto simp: continued_def nextMarker_def parseListLine_def)
  qed
qed

text \<open>Shift+Enter at the end of a list item continues the list on a line of its own with the next
  marker, and pressed again there it takes the marker away and ends the list.\<close>

theorem list_continues_then_ends:
  assumes line: "parseListLine line = Some p" "content p \<noteq> []"
    and pre: "pre = [] \<or> last pre = newline" and post: "post = [] \<or> hd post = newline"
    and e: "e = shiftEnter (pre @ line @ post) (length pre + length line)"
  shows "ed_value e = pre @ line @ [newline] @ leadingWhitespace p @ nextMarker p @ post
       \<and> ed_value (shiftEnter (ed_value e) (selStart e))
         = pre @ line @ [newline] @ leadingWhitespace p @ [newline] @ leadingWhitespace p @ post"
proof -
  have blank: "no_newline (leadingWhitespace q)" if "parseListLine l = Some q" for q l
    using conjunct1 [OF parse_facts [OF that]] newline_not_blank unfolding no_newline_def by blast
  have nl: "no_newline l" if "parseListLine l = Some q" for q l
  proof -
    have "no_newline (leadingWhitespace q @ marker q @ content q)"
      using marker_shape [OF that] blank [OF that] by simp
    with conjunct2 [OF parse_facts [OF that]] show ?thesis by (rule ssubst)
  qed
  have sl: "starts_line pre" "ends_line post" using pre post by (auto simp: starts_line_def ends_line_def)
  have "content p = []" if "line = []" using conjunct2 [OF parse_facts [OF line(1)]] that by simp
  with line(2) have ne: "line \<noteq> []" by blast
  let ?line2 = "continued p" and ?pre2 = "pre @ line @ [newline]"
  from continued_parses [OF line(1)] obtain p2 where
    p2: "parseListLine ?line2 = Some p2" "content p2 = []" "leadingWhitespace p2 = leadingWhitespace p" by blast
  have ls: "lineStartOffset (pre @ line @ post) (length pre + length line) = length pre"
    by (rule lineStart_of [OF sl(1)]) (use nl [OF line(1)] ne in auto)
  have le: "lineEndOffset (pre @ line @ post) (length pre + length line) = length pre + length line"
    by (rule lineEnd_of [OF nl [OF line(1)] sl(2)]) simp
  have e1: "e = \<lparr>ed_value = ?pre2 @ ?line2 @ post, selStart = length ?pre2 + length ?line2,
      selEnd = length ?pre2 + length ?line2\<rparr>"
    using line by (simp add: e shiftEnter_def ls le Let_def continued_def)
  have sl2: "starts_line ?pre2" by (simp add: starts_line_def)
  have ls2: "lineStartOffset (?pre2 @ ?line2 @ post) (length ?pre2 + length ?line2) = length ?pre2"
    by (rule lineStart_of [OF sl2]) (use nl [OF p2(1)] in auto)
  have le2: "lineEndOffset (?pre2 @ ?line2 @ post) (length ?pre2 + length ?line2) = length ?pre2 + length ?line2"
    by (rule lineEnd_of [OF nl [OF p2(1)] sl(2)]) simp
  have "ed_value (shiftEnter (?pre2 @ ?line2 @ post) (length ?pre2 + length ?line2))
      = ?pre2 @ leadingWhitespace p @ [newline] @ leadingWhitespace p @ post"
    unfolding shiftEnter_def ls2 le2 slice_mid Let_def using p2 by simp
  then show ?thesis by (simp add: e1 continued_def)
qed

section \<open>Indenting lines\<close>

text \<open>What Tab and Shift+Tab do to one line.\<close>

definition snap :: "bool \<Rightarrow> string \<Rightarrow> string" where
  "snap dedent l =
     (let n = length (takeWhile blank l)
      in if dedent then drop (if n = 0 then 0 else if odd n then 1 else 2) l
         else replicate (if odd n then 1 else 2) (CHR '' '') @ l)"

abbreviation lines_text :: "string list \<Rightarrow> string" where
  "lines_text \<equiv> intercalate [newline]"

fun line_starts :: "nat \<Rightarrow> string list \<Rightarrow> nat list" where
  "line_starts n [] = []"
| "line_starts n (l # ls) = n # line_starts (n + length l + 1) ls"

lemma lines_text_Cons: "ls \<noteq> [] \<Longrightarrow> lines_text (l # ls) = l @ [newline] @ lines_text ls"
  by (cases ls) auto

lemma takeWhile_blank_line:
  "ends_line post \<Longrightarrow> takeWhile blank (l @ post) = takeWhile blank l"
  by (induction l) (cases post; auto simp: ends_line_def blank_def)+

lemma snapLine_at:
  assumes "ends_line post"
  shows "fst (snapLine dedent (length pre) (pre @ l @ post, z)) = pre @ snap dedent l @ post"
    and "snd (snapLine dedent (length pre) (pre @ l @ post, z)) = z + int (length (snap dedent l)) - int (length l)"
proof -
  let ?n = "length (takeWhile blank l)"
  have n: "leadingWhitespaceLen (pre @ l @ post) (length pre) = ?n"
    using takeWhile_blank_line [OF assms] by (simp add: leadingWhitespaceLen_def)
  have le: "?n \<le> length l" by (rule length_takeWhile_le)
  have m: "2 - ?n mod 2 = (if odd ?n then 1 else 2)" by (simp add: odd_iff_mod_2_eq_one)
  have k: "even m \<Longrightarrow> m \<noteq> 0 \<Longrightarrow> 2 \<le> m" for m :: nat by presburger
  show "fst (snapLine dedent (length pre) (pre @ l @ post, z)) = pre @ snap dedent l @ post"
    "snd (snapLine dedent (length pre) (pre @ l @ post, z)) = z + int (length (snap dedent l)) - int (length l)"
    using le k [of ?n] n m
    by (auto simp: snapLine_def snapDedentLine_def snapIndentLine_def snap_def Let_def
        odd_iff_mod_2_eq_one even_iff_mod_2_eq_zero of_nat_diff)
qed

lemma foldr_snapLine:
  assumes "ls \<noteq> []" and "ends_line post"
  shows "foldr (snapLine dedent) (line_starts (length pre) ls) (pre @ lines_text ls @ post, 0)
    = (pre @ lines_text (map (snap dedent) ls) @ post,
       int (length (lines_text (map (snap dedent) ls))) - int (length (lines_text ls)))"
  using assms(1)
proof (induction ls arbitrary: pre)
  case Nil
  then show ?case by simp
next
  case (Cons l ls)
  show ?case
  proof (cases "ls = []")
    case True
    then show ?thesis
      using snapLine_at [OF assms(2), of dedent pre l 0]
      by (auto simp: prod_eq_iff)
  next
    case False
    have "foldr (snapLine dedent) (line_starts (length (pre @ l @ [newline])) ls)
        ((pre @ l @ [newline]) @ lines_text ls @ post, 0)
      = ((pre @ l @ [newline]) @ lines_text (map (snap dedent) ls) @ post,
         int (length (lines_text (map (snap dedent) ls))) - int (length (lines_text ls)))"
      by (rule Cons.IH [OF False])
    then have F: "foldr (snapLine dedent) (line_starts (length pre + length l + 1) ls)
        (pre @ lines_text (l # ls) @ post, 0)
      = (pre @ l @ ([newline] @ lines_text (map (snap dedent) ls) @ post),
         int (length (lines_text (map (snap dedent) ls))) - int (length (lines_text ls)))" (is "_ = (_ @ l @ ?post, ?z)")
      by (simp add: lines_text_Cons [OF False] add.assoc)
    have post: "ends_line ?post" by (simp add: ends_line_def)
    have "foldr (snapLine dedent) (line_starts (length pre) (l # ls)) (pre @ lines_text (l # ls) @ post, 0)
        = snapLine dedent (length pre) (pre @ l @ ?post, ?z)"
      by (simp only: line_starts.simps foldr.simps comp_def F)
    also have "\<dots> = (pre @ snap dedent l @ ?post, ?z + int (length (snap dedent l)) - int (length l))"
      using snapLine_at [OF post] by (intro prod_eqI) simp_all
    finally show ?thesis using False by (simp add: lines_text_Cons)
  qed
qed

lemma touched_lines:
  assumes "ls \<noteq> []" and "\<forall>l \<in> set ls. no_newline l" and "ends_line post"
    and "length pre + length (lines_text ls) - length (last ls) < b \<or> length ls = 1"
    and "b \<le> length pre + length (lines_text ls)"
  shows "touchedLineStarts (pre @ lines_text ls @ post) (length pre) b = line_starts (length pre) ls"
  using assms(1,2,4,5)
proof (induction ls arbitrary: pre)
  case Nil
  then show ?case by simp
next
  case (Cons l ls)
  show ?case
  proof (cases "ls = []")
    case True
    with Cons.prems have "filter (\<lambda>i. i < length (pre @ l @ post) \<and> (pre @ l @ post) ! i = newline \<and> i + 1 < b)
        [length pre..<b] = []"
      by (auto simp: filter_empty_conv nth_append no_newline_def) (metis nth_mem)
    with True show ?thesis by (simp add: touchedLineStarts_def)
  next
    case False
    let ?s = "pre @ lines_text (l # ls) @ post" and ?k = "length pre + length l"
    let ?P = "\<lambda>i. i < length ?s \<and> ?s ! i = newline \<and> i + 1 < b"
    have s: "?s = (pre @ l @ [newline]) @ lines_text ls @ post" by (simp add: lines_text_Cons [OF False])
    have len: "length (lines_text (l # ls)) = length l + 1 + length (lines_text ls)"
      by (simp add: lines_text_Cons [OF False])
    have last: "length (last ls) \<le> length (lines_text ls)" using False
    proof (induction ls)
      case (Cons a ls)
      then show ?case by (cases "ls = []") (auto simp: lines_text_Cons)
    qed simp
    have b: "?k + 1 < b" using Cons.prems(3) False last by (simp add: len)
    then have up: "[length pre..<b] = [length pre..<?k] @ ?k # [?k + 1..<b]"
    proof -
      have "[length pre..<?k + (b - ?k)] = [length pre..<?k] @ [?k..<?k + (b - ?k)]"
        by (rule upt_add_eq_append) simp
      with b show ?thesis by (simp add: upt_conv_Cons)
    qed
    have none: "filter ?P [length pre..<?k] = []"
      using Cons.prems(2)
      by (auto simp: filter_empty_conv nth_append lines_text_Cons [OF False] no_newline_def) (metis nth_mem)
    have nl: "?s ! ?k = newline" "?k < length ?s"
      by (auto simp: nth_append lines_text_Cons [OF False])
    have IH: "touchedLineStarts ((pre @ l @ [newline]) @ lines_text ls @ post) (length (pre @ l @ [newline])) b
        = line_starts (length (pre @ l @ [newline])) ls"
      by (rule Cons.IH) (use Cons.prems False len last in auto)
    then have "(?k + 1) # map Suc (filter ?P [?k + 1..<b]) = line_starts (?k + 1) ls"
      unfolding s touchedLineStarts_def by (simp add: add.assoc)
    with none nl b show ?thesis
      unfolding touchedLineStarts_def up by simp
  qed
qed

text \<open>Tab and Shift+Tab over a selection of several lines do to each of them what they do to one line,
  and nothing to the text around: the offsets that the loop computes once stay right because it goes from
  the last line to the first.\<close>

theorem multi_line_tab_is_per_line:
  assumes lines: "2 \<le> length ls" "\<forall>l \<in> set ls. newline \<notin> set l"
    and pre: "pre = [] \<or> last pre = newline" and post: "post = [] \<or> hd post = newline"
    and a: "a \<le> length (hd ls)" "0 < length pre + a \<or> hd ls \<noteq> []"
    and b: "length (lines_text ls) - length (last ls) < b" "b \<le> length (lines_text ls)"
  shows "\<exists>e. tabKey (pre @ lines_text ls @ post) (length pre + a) (length pre + b) dedent = Some e
      \<and> ed_value e = pre @ lines_text (map (snap dedent) ls) @ post
      \<and> selStart e = length pre
      \<and> selEnd e = nat (max (int (length pre)) (int (length pre + b)
          + (int (length (lines_text (map (snap dedent) ls))) - int (length (lines_text ls)))))"
proof -
  let ?s = "pre @ lines_text ls @ post"
  from lines(1) obtain l ls' where "ls = l # ls'" by (cases ls) auto
  with lines(1) have ls: "ls = l # ls'" "ls' \<noteq> []" by auto
  have sl: "starts_line pre" "ends_line post" using pre post by (auto simp: starts_line_def ends_line_def)
  have nn: "\<forall>l \<in> set ls. no_newline l" using lines(2) by (simp add: no_newline_def)
  have body: "lines_text ls = l @ newline # lines_text ls'" using lines_text_Cons [OF ls(2)] ls(1) by simp
  have last: "length (last ls') \<le> length (lines_text ls')" using ls(2)
  proof (induction ls')
    case (Cons a ls)
    then show ?case by (cases "ls = []") (auto simp: lines_text_Cons)
  qed simp
  have len: "length (lines_text ls) = length l + 1 + length (lines_text ls')" by (simp only: body) simp
  have ab: "a \<le> length l" "length l + 1 < b" using a b(1) last len ls by auto
  have start: "lineStartOffset ?s (length pre + a) = length pre"
  proof (rule lineStart_of [OF sl(1)])
    have "take a (lines_text ls @ post) = take a l" using ab(1) by (simp add: body)
    moreover have "no_newline l" using nn ls(1) by simp
    ultimately show "no_newline (take a (lines_text ls @ post))" by (simp add: no_newline_take)
    show "a \<le> length (lines_text ls @ post)" using ab(1) by (simp add: body)
    show "0 < length pre + a \<or> lines_text ls @ post = [] \<or> hd (lines_text ls @ post) \<noteq> newline"
      using a(2) nn ls(1) unfolding body by (cases l) auto
  qed
  have "slice (length pre + a) (length pre + b) ?s = take (b - a) (drop a (lines_text ls @ post))"
    by (simp add: slice_def)
  also have "\<dots> = drop a l @ take (b - length l) (newline # lines_text ls' @ post)"
    using ab by (simp add: body)
  finally have sel: "newline \<in> set (slice (length pre + a) (length pre + b) ?s)"
    using ab by (cases "b - length l") auto
  have touch: "touchedLineStarts ?s (length pre) (length pre + b) = line_starts (length pre) ls"
    by (rule touched_lines) (use lines(1) nn sl b in auto)
  have ne: "ls \<noteq> []" "length pre + a \<noteq> length pre + b" using ls(1) ab by auto
  have tab: "tabKey ?s (length pre + a) (length pre + b) dedent
      = Some (applyMultiLineSnap ?s (length pre + a) (length pre + b) dedent)"
    using sel ne(2) unfolding tabKey_def by presburger
  have snapped: "applyMultiLineSnap ?s (length pre + a) (length pre + b) dedent
      = \<lparr>ed_value = pre @ lines_text (map (snap dedent) ls) @ post, selStart = length pre,
         selEnd = nat (max (int (length pre)) (int (length pre + b)
           + (int (length (lines_text (map (snap dedent) ls))) - int (length (lines_text ls)))))\<rparr>"
    unfolding applyMultiLineSnap_def start touch Let_def foldr_snapLine [OF ne(1) sl(2)] by simp
  show ?thesis unfolding tab snapped by simp
qed

text \<open>Tab in the indentation of a line, then Shift+Tab, gives the text back when the indentation is even;
  an odd one is rounded, up and then down.\<close>

lemma snap_back: "even (length (takeWhile blank l)) \<Longrightarrow> snap True (snap False l) = l"
proof -
  assume e: "even (length (takeWhile blank l))"
  have "takeWhile blank (CHR '' '' # CHR '' '' # l) = CHR '' '' # CHR '' '' # takeWhile blank l"
    by (simp add: blank_def)
  moreover have "replicate 2 (CHR '' '') = ''  ''" by (simp add: numeral_2_eq_2)
  ultimately show ?thesis using e by (simp add: snap_def)
qed

lemma tab_line:
  assumes pre: "starts_line pre" and post: "ends_line post" and l: "no_newline l"
    and k: "k \<le> length (takeWhile blank l)" and caret: "0 < length pre + k \<or> l \<noteq> [] \<or> post = []"
  shows "tabKey (pre @ l @ post) (length pre + k) (length pre + k) dedent
    = (if dedent \<and> takeWhile blank l = [] then None
       else Some \<lparr>ed_value = pre @ snap dedent l @ post,
         selStart = (if dedent then max (length pre) (length pre + k - (length l - length (snap True l)))
                     else length pre + length (takeWhile blank (snap False l))),
         selEnd = (if dedent then max (length pre) (length pre + k - (length l - length (snap True l)))
                     else length pre + length (takeWhile blank (snap False l)))\<rparr>)"
proof -
  have kl: "k \<le> length l" using k length_takeWhile_le le_trans by blast
  have start: "lineStartOffset (pre @ l @ post) (length pre + k) = length pre"
  proof (rule lineStart_of [OF pre])
    show "no_newline (take k (l @ post))" using kl l by (simp add: no_newline_take)
    show "k \<le> length (l @ post)" using kl by simp
    show "0 < length pre + k \<or> l @ post = [] \<or> hd (l @ post) \<noteq> newline"
      using caret l by (cases l) auto
  qed
  have n: "leadingWhitespaceLen (pre @ l @ post) (length pre) = length (takeWhile blank l)"
    using takeWhile_blank_line [OF post] by (simp add: leadingWhitespaceLen_def)
  have le: "length (takeWhile blank l) \<le> length l" by (rule length_takeWhile_le)
  have two: "even m \<Longrightarrow> m \<noteq> 0 \<Longrightarrow> 2 \<le> m" for m :: nat by presburger
  have rep: "takeWhile blank (replicate m (CHR '' '') @ l) = replicate m (CHR '' '') @ takeWhile blank l" for m
    by (induction m) (auto simp: blank_def)
  show ?thesis
    using k kl le two [of "length (takeWhile blank l)"]
    by (auto simp: tabKey_def start n Let_def snapDedentLine_def snapIndentLine_def snap_def rep
        odd_iff_mod_2_eq_one even_iff_mod_2_eq_zero)
qed

text \<open>With the caret at the very start of a text that begins with a line break, Tab indents the second
  line instead of the empty first one, and moves the caret there.\<close>

lemma tab_before_first_line_break:
  assumes "rest = [] \<or> \<not> blank (hd rest)"
  shows "tabKey (newline # rest) 0 0 False
    = Some \<lparr>ed_value = newline # ''  '' @ rest, selStart = 3, selEnd = 3\<rparr>"
proof -
  have "takeWhile blank rest = []" using assms by (cases rest) auto
  then show ?thesis
    by (simp add: tabKey_def lineStart_before_newline Let_def leadingWhitespaceLen_def snapIndentLine_def
        numeral_2_eq_2)
qed

theorem list_continues_then_ends_witness:
  "ed_value (shiftEnter (''a'' @ [newline] @ ''- [x] b'') 9) = ''a'' @ [newline] @ ''- [x] b'' @ [newline] @ ''- [ ] ''
   \<and> ed_value (shiftEnter (''a'' @ [newline] @ ''- [x] b'' @ [newline] @ ''- [ ] '') 16)
     = ''a'' @ [newline] @ ''- [x] b'' @ [newline, newline]"
proof -
  have p: "parseListLine ''- [x] b'' = Some (the (parseListLine ''- [x] b''))"
    "content (the (parseListLine ''- [x] b'')) \<noteq> []"
    "leadingWhitespace (the (parseListLine ''- [x] b'')) = []"
    "nextMarker (the (parseListLine ''- [x] b'')) = ''- [ ] ''" by code_simp+
  have e: "shiftEnter (''a'' @ [newline] @ ''- [x] b'') 9
    = \<lparr>ed_value = ''a'' @ [newline] @ ''- [x] b'' @ [newline] @ ''- [ ] '', selStart = 16, selEnd = 16\<rparr>"
    by code_simp
  show ?thesis
    using list_continues_then_ends [OF p(1,2), of "''a'' @ [newline]" "[]"
        "\<lparr>ed_value = ''a'' @ [newline] @ ''- [x] b'' @ [newline] @ ''- [ ] '', selStart = 16, selEnd = 16\<rparr>"]
      e p(3,4) by (simp add: numeral_eq_Suc)
qed

theorem multi_line_tab_is_per_line_witness:
  "\<exists>e. tabKey (''x'' @ [newline] @ ''a'' @ [newline] @ '' b'') 2 6 False = Some e
     \<and> ed_value e = ''x'' @ [newline] @ ''  a'' @ [newline] @ ''  b'' \<and> selStart e = 2 \<and> selEnd e = 9"
proof -
  have "map (snap False) [''a'', '' b''] = [''  a'', ''  b'']" by code_simp
  with multi_line_tab_is_per_line [of "[''a'', '' b'']" "''x'' @ [newline]" "[]" 0 4 False]
  show ?thesis by (simp add: numeral_eq_Suc)
qed

end
