(* ===== verification/BlockCollapse.thy ===== *)
theory BlockCollapse
  imports TextEditFacts
begin

text \<open>
  Collapsing XML blocks in the composer: finding blocks and placeholders (\<open>utils/xmlBlocks.js\<close>) and the
  manager that swaps them (\<open>chat-input/BlockCollapseManager.js\<close>). The state is the manager's map, in
  insertion order, and the counter that all managers share. Expanding everything goes through
  \<open>replaceAll\<close>, which reads the replacement as a pattern: \<open>subst_pattern\<close> is the standard's
  GetSubstitution for a match without captures.
\<close>

section \<open>Tags\<close>

definition ascii_letter :: "char \<Rightarrow> bool" where
  "ascii_letter c \<longleftrightarrow> (let n = of_char c :: nat in (65 \<le> n \<and> n \<le> 90) \<or> (97 \<le> n \<and> n \<le> 122))"

definition tag_char :: "char \<Rightarrow> bool" where
  "tag_char c \<longleftrightarrow> ascii_letter c \<or> ascii_digit c \<or> c = CHR ''_'' \<or> c = CHR ''-''"

text \<open>A tag name at the start of a text, the longest one: a letter, then letters, digits, \<open>_\<close> and \<open>-\<close>.\<close>

fun tag_name_at :: "string \<Rightarrow> string option" where
  "tag_name_at [] = None"
| "tag_name_at (c # s) = (if ascii_letter c then Some (c # takeWhile tag_char s) else None)"

definition openTag :: "string \<Rightarrow> string" where "openTag n = ''<'' @ n @ ''>''"

definition closeTag :: "string \<Rightarrow> string" where "closeTag n = ''</'' @ n @ ''>''"

definition placeholder :: "string \<Rightarrow> string \<Rightarrow> string" where
  "placeholder n ds = ''<'' @ n @ ''...'' @ ds @ ''>''"

text \<open>The two expressions, anchored at the start of the text.\<close>

definition OPEN_TAG_at :: "string \<Rightarrow> string option" where
  "OPEN_TAG_at s =
     (case s of
        [] \<Rightarrow> None
      | c # r \<Rightarrow>
          (case tag_name_at r of
             None \<Rightarrow> None
           | Some n \<Rightarrow> if starts_with (openTag n) s then Some n else None))"

definition COLLAPSED_at :: "string \<Rightarrow> (string \<times> string) option" where
  "COLLAPSED_at s =
     (case s of
        [] \<Rightarrow> None
      | c # r \<Rightarrow>
          (case tag_name_at r of
             None \<Rightarrow> None
           | Some n \<Rightarrow>
               (let ds = takeWhile ascii_digit (drop (length n + 3) r)
                in if ds \<noteq> [] \<and> starts_with (placeholder n ds) s then Some (n, ds) else None)))"

text \<open>All matches of a global expression, left to right; the next search starts after a match.\<close>

function matches_from :: "nat \<Rightarrow> (string \<Rightarrow> 'a option) \<Rightarrow> ('a \<Rightarrow> nat) \<Rightarrow> string \<Rightarrow> (nat \<times> 'a) list" where
  "matches_from i at len [] = []"
| "matches_from i at len (c # s) =
     (case at (c # s) of
        Some x \<Rightarrow> (i, x) # matches_from (i + max 1 (len x)) at len (drop (max 1 (len x)) (c # s))
      | None \<Rightarrow> matches_from (i + 1) at len s)"
  by pat_completeness auto
termination by (relation "measure (\<lambda>(i, at, len, s). length s)") auto

section \<open>Blocks\<close>

record xml_block =
  b_start :: nat
  b_end :: nat
  tagName :: string
  fullMatch :: string

text \<open>The end of the tag that closes the block: an opening tag of the same name before the next closing
  one goes one level deeper. \<open>pos\<close> is the offset of the rest of the text.\<close>

function close_offset :: "string \<Rightarrow> nat \<Rightarrow> nat \<Rightarrow> string \<Rightarrow> nat option" where
  "close_offset n depth pos rest =
     (case split_on (closeTag n) rest of
        None \<Rightarrow> None
      | Some (a, b) \<Rightarrow>
          (case split_on (openTag n) rest of
             Some (a', b') \<Rightarrow>
               if length a' < length a
               then close_offset n (depth + 1) (pos + length a' + length (openTag n)) b'
               else if depth = 1 then Some (pos + length a + length (closeTag n))
               else close_offset n (depth - 1) (pos + length a + length (closeTag n)) b
           | None \<Rightarrow>
               if depth = 1 then Some (pos + length a + length (closeTag n))
               else close_offset n (depth - 1) (pos + length a + length (closeTag n)) b))"
  by pat_completeness auto
termination
  by (relation "measure (\<lambda>(n, d, p, r). length r)")
    (auto simp: openTag_def closeTag_def dest: split_on_shorter)

definition block_at :: "string \<Rightarrow> nat \<times> string \<Rightarrow> xml_block option" where
  "block_at s m =
     (let (start, n) = m; after = start + length (openTag n)
      in map_option (\<lambda>e. \<lparr>b_start = start, b_end = e, tagName = n, fullMatch = slice start e s\<rparr>)
           (close_offset n 1 after (drop after s)))"

definition findAllBlocks :: "string \<Rightarrow> xml_block list" where
  "findAllBlocks s = List.map_filter (block_at s) (matches_from 0 OPEN_TAG_at (\<lambda>n. length (openTag n)) s)"

definition findEnclosingBlock :: "string \<Rightarrow> nat \<Rightarrow> xml_block option" where
  "findEnclosingBlock s cursor =
     foldl (\<lambda>best b.
        if b_start b \<le> cursor \<and> cursor \<le> b_end b
        then (case best of
                None \<Rightarrow> Some b
              | Some t \<Rightarrow> if int (b_end b) - int (b_start b) < int (b_end t) - int (b_start t)
                          then Some b else best)
        else best) None (findAllBlocks s)"

definition placeholder_dist :: "nat \<Rightarrow> nat \<Rightarrow> nat \<Rightarrow> nat" where
  "placeholder_dist cursor start e =
     (if start \<le> cursor \<and> cursor \<le> e then 0
      else nat (min \<bar>int cursor - int start\<bar> \<bar>int cursor - int e\<bar>))"

definition findEnclosingCollapsed :: "string \<Rightarrow> nat \<Rightarrow> (nat \<times> string) option" where
  "findEnclosingCollapsed s cursor =
     (let nearest = foldl (\<lambda>best (start, n, ds).
            let p = placeholder n ds; d = placeholder_dist cursor start (start + length p)
            in (case best of
                  None \<Rightarrow> Some (d, start, p)
                | Some (bestDist, _) \<Rightarrow> if d < bestDist then Some (d, start, p) else best))
          None (matches_from 0 COLLAPSED_at (\<lambda>(n, ds). length (placeholder n ds)) s)
      in case nearest of
           Some (d, start, p) \<Rightarrow> if d \<le> 0 then Some (start, p) else None
         | None \<Rightarrow> None)"

section \<open>The manager\<close>

record collapse_state =
  collapsed :: "(string \<times> string) list"
  globalCounter :: nat

definition swap_block :: "nat \<Rightarrow> xml_block \<Rightarrow> collapse_state \<times> string \<Rightarrow> collapse_state \<times> string" where
  "swap_block i b mv =
     (let p = placeholder (tagName b) (nat_digits i)
      in ((fst mv)\<lparr>collapsed := AList.update p (fullMatch b) (collapsed (fst mv))\<rparr>,
          take (b_start b) (snd mv) @ p @ drop (b_end b) (snd mv)))"

definition collapseLocal ::
  "collapse_state \<Rightarrow> string \<Rightarrow> nat \<Rightarrow> (collapse_state \<times> string \<times> nat) option" where
  "collapseLocal m s cursor =
     (case findEnclosingBlock s cursor of
        None \<Rightarrow> None
      | Some b \<Rightarrow>
          (let i = globalCounter m + 1;
               (m', s') = swap_block i b (m\<lparr>globalCounter := i\<rparr>, s)
           in Some (m', s', b_start b + length (placeholder (tagName b) (nat_digits i)))))"

definition innermost :: "string \<Rightarrow> xml_block list" where
  "innermost s =
     (let blocks = findAllBlocks s
      in filter (\<lambda>b. \<not> list_ex (\<lambda>other. b_start b < b_start other \<and> b_end other < b_end b) blocks) blocks)"

text \<open>One turn of the loop: numbers are given from the first block to the last, the text is rewritten from
  the last to the first.\<close>

definition collapse_pass :: "collapse_state \<times> string \<Rightarrow> collapse_state \<times> string" where
  "collapse_pass mv =
     (let (m, s) = mv; bs = innermost s; n = globalCounter m
      in foldr (\<lambda>(i, b). swap_block i b) (enumerate (n + 1) bs) (m\<lparr>globalCounter := n + length bs\<rparr>, s))"

text \<open>\<open>value.replaceAll(p, replacement)\<close>; \<open>before\<close> is the text up to the rest. A placeholder is never empty.\<close>

fun subst_pattern :: "string \<Rightarrow> string \<Rightarrow> string \<Rightarrow> string \<Rightarrow> string" where
  "subst_pattern matched before after [] = []"
| "subst_pattern matched before after [c] = [c]"
| "subst_pattern matched before after (c # d # r) =
     (if c = CHR ''$'' \<and> d = CHR ''$'' then CHR ''$'' # subst_pattern matched before after r
      else if c = CHR ''$'' \<and> d = CHR ''&'' then matched @ subst_pattern matched before after r
      else if c = CHR ''$'' \<and> d = CHR 0x60 then before @ subst_pattern matched before after r
      else if c = CHR ''$'' \<and> d = CHR 0x27 then after @ subst_pattern matched before after r
      else c # subst_pattern matched before after (d # r))"

function replace_all :: "string \<Rightarrow> string \<Rightarrow> string \<Rightarrow> string \<Rightarrow> string" where
  "replace_all p replacement before rest =
     (if p = [] then rest
      else case split_on p rest of
             None \<Rightarrow> rest
           | Some (a, b) \<Rightarrow>
               a @ subst_pattern p (before @ a) b replacement @ replace_all p replacement (before @ a @ p) b)"
  by pat_completeness auto
termination by (relation "measure (\<lambda>(p, r, b, s). length s)") (auto dest: split_on_shorter)

declare close_offset.simps [simp del] replace_all.simps [simp del]

definition expandLocal :: "collapse_state \<Rightarrow> string \<Rightarrow> nat \<Rightarrow> (string \<times> nat) option" where
  "expandLocal m s cursor =
     (case findEnclosingCollapsed s cursor of
        None \<Rightarrow> None
      | Some (start, p) \<Rightarrow>
          (case map_of (collapsed m) p of
             None \<Rightarrow> None
           | Some original \<Rightarrow>
               if original = [] then None
               else Some (take start s @ original @ drop (start + length p) s, start + length original)))"

definition expandAll :: "collapse_state \<Rightarrow> string \<Rightarrow> string" where
  "expandAll m s = foldl (\<lambda>s (p, original). replace_all p original [] s) s (rev (collapsed m))"

definition expandBeforeSubmit :: "collapse_state \<Rightarrow> string \<Rightarrow> string" where
  "expandBeforeSubmit m s = (if collapsed m = [] then s else expandAll m s)"

definition reset_collapse :: "collapse_state \<Rightarrow> collapse_state" where
  "reset_collapse m = m\<lparr>collapsed := []\<rparr>"

section \<open>Collapsing everything ends\<close>

text \<open>Every pass swaps a block, which holds two angle brackets, for a placeholder, which holds one.\<close>

abbreviation angles :: "string \<Rightarrow> nat" where
  "angles s \<equiv> length (filter (\<lambda>c. c = CHR ''<'') s)"

lemma angles_tags [simp]: "1 \<le> angles (openTag n)" "1 \<le> angles (closeTag n)"
  by (simp_all add: openTag_def closeTag_def)

lemma matches_from_sound:
  "(i, x) \<in> set (matches_from k at len s) \<Longrightarrow>
   k \<le> i \<and> i < k + length s \<and> at (drop (i - k) s) = Some x"
proof (induction k at len s rule: matches_from.induct)
  case (1 k at len)
  then show ?case by simp
next
  case (2 k at len c s)
  show ?case
  proof (cases "at (c # s)")
    case None
    with "2.prems" have "(i, x) \<in> set (matches_from (k + 1) at len s)" by simp
    from "2.IH"(1) [OF None this] have IH: "k + 1 \<le> i" "i < k + 1 + length s" "at (drop (i - (k + 1)) s) = Some x"
      by auto
    then obtain j where "i = k + Suc j" by (metis add_Suc_right add_Suc le_iff_add Suc_eq_plus1)
    with IH show ?thesis by simp
  next
    case (Some y)
    let ?m = "max 1 (len y)"
    have "(i, x) = (k, y) \<or> (i, x) \<in> set (matches_from (k + ?m) at len (drop ?m (c # s)))"
      using "2.prems" Some by simp
    then show ?thesis
    proof
      assume "(i, x) = (k, y)"
      with Some show ?thesis by simp
    next
      assume "(i, x) \<in> set (matches_from (k + ?m) at len (drop ?m (c # s)))"
      from "2.IH"(2) [OF Some this] have "k + ?m \<le> i" "i < k + ?m + length (drop ?m (c # s))"
        "at (drop (i - (k + ?m)) (drop ?m (c # s))) = Some x" by auto
      then show ?thesis by (auto simp del: drop_Suc_Cons max.absorb1 max.absorb2)
    qed
  qed
qed

lemma matches_from_sorted: "sorted_wrt (\<lambda>a b. fst a < fst b) (matches_from k at len s)"
proof (induction k at len s rule: matches_from.induct)
  case (1 k at len)
  then show ?case by simp
next
  case (2 k at len c s)
  then show ?case
    by (auto split: option.splits dest!: matches_from_sound)
qed

lemma close_offset_sound:
  "close_offset n d pos rest = Some e \<Longrightarrow>
   \<exists>x y. rest = x @ closeTag n @ y \<and> e = pos + length x + length (closeTag n)"
proof (induction n d pos rest rule: close_offset.induct)
  case (1 n d pos rest)
  from "1.prems" obtain a b where ab: "split_on (closeTag n) rest = Some (a, b)"
    by (subst (asm) close_offset.simps) (auto split: option.splits)
  note R = split_on_Some [OF ab]
  have stop: ?case if "e = pos + length a + length (closeTag n)" using R that by blast
  show ?case
  proof (cases "split_on (openTag n) rest")
    case None
    show ?thesis
    proof (cases "d = 1")
      case True
      with "1.prems" ab None have "e = pos + length a + length (closeTag n)"
        by (subst (asm) close_offset.simps) simp
      then show ?thesis by (rule stop)
    next
      case False
      with "1.prems" ab None have c: "close_offset n (d - 1) (pos + length a + length (closeTag n)) b = Some e"
        by (subst (asm) close_offset.simps) simp
      from "1.IH"(1) [OF ab refl None False c] R show ?thesis by (metis add.assoc append.assoc length_append)
    qed
  next
    case (Some ob)
    obtain a' b' where ob: "ob = (a', b')" by (cases ob)
    note O = split_on_Some [OF Some [unfolded ob]]
    show ?thesis
    proof (cases "length a' < length a")
      case True
      with "1.prems" ab Some ob have c: "close_offset n (d + 1) (pos + length a' + length (openTag n)) b' = Some e"
        by (subst (asm) close_offset.simps) simp
      from "1.IH"(2) [OF ab refl Some ob[symmetric] True c] O show ?thesis by (metis add.assoc append.assoc length_append)
    next
      case nlt: False
      show ?thesis
      proof (cases "d = 1")
        case True
        with "1.prems" ab Some ob nlt have "e = pos + length a + length (closeTag n)"
          by (subst (asm) close_offset.simps) simp
        then show ?thesis by (rule stop)
      next
        case False
        with "1.prems" ab Some ob nlt have c: "close_offset n (d - 1) (pos + length a + length (closeTag n)) b = Some e"
          by (subst (asm) close_offset.simps) simp
        from "1.IH"(3) [OF ab refl Some ob[symmetric] nlt False c] R show ?thesis by (metis add.assoc append.assoc length_append)
      qed
    qed
  qed
qed

lemma OPEN_TAG_at_Some: "OPEN_TAG_at s = Some n \<Longrightarrow> \<exists>r. s = openTag n @ r"
  by (auto simp: OPEN_TAG_at_def starts_with_iff split: list.splits option.splits if_splits)

lemma findAllBlocks_sound:
  assumes "b \<in> set (findAllBlocks s)"
  shows "\<exists>x y z. s = x @ (openTag (tagName b) @ y @ closeTag (tagName b)) @ z
       \<and> b_start b = length x \<and> b_end b = length x + length (fullMatch b)
       \<and> fullMatch b = openTag (tagName b) @ y @ closeTag (tagName b)"
proof -
  from assms obtain i n where m: "(i, n) \<in> set (matches_from 0 OPEN_TAG_at (\<lambda>n. length (openTag n)) s)"
    and b: "block_at s (i, n) = Some b" by (auto simp: findAllBlocks_def List.map_filter_def)
  from matches_from_sound [OF m] obtain r where r: "drop i s = openTag n @ r" "i < length s"
    using OPEN_TAG_at_Some by force
  then have s: "s = take i s @ openTag n @ r" by (metis append_take_drop_id)
  let ?after = "i + length (openTag n)"
  have "drop ?after s = drop (length (openTag n)) (drop i s)" by (simp add: add.commute)
  then have "drop ?after s = r" by (simp add: r(1))
  with b obtain e where e: "close_offset n 1 ?after r = Some e"
    and bb: "b = \<lparr>b_start = i, b_end = e, tagName = n, fullMatch = slice i e s\<rparr>"
    by (auto simp: block_at_def Let_def)
  from close_offset_sound [OF e] obtain x y where xy: "r = x @ closeTag n @ y"
    "e = ?after + length x + length (closeTag n)" by blast
  have "slice i e s = openTag n @ x @ closeTag n"
    unfolding slice_def r(1) xy(1) using xy(2) by simp
  then show ?thesis using s r(2) xy bb by (intro exI [of _ "take i s"] exI [of _ x] exI [of _ y]) simp
qed

lemma block_angles:
  assumes "b \<in> set (findAllBlocks s)"
  shows "b_start b < b_end b" "b_end b \<le> length s" "s ! b_start b = CHR ''<''"
    "2 + angles (drop (b_end b) s) \<le> angles (drop (b_start b) s)"
proof -
  from findAllBlocks_sound [OF assms] obtain x y z where
    B: "s = x @ (openTag (tagName b) @ y @ closeTag (tagName b)) @ z"
      "b_start b = length x" "b_end b = length x + length (fullMatch b)"
      "fullMatch b = openTag (tagName b) @ y @ closeTag (tagName b)" by blast
  then show "b_start b < b_end b" "b_end b \<le> length s" "s ! b_start b = CHR ''<''"
    by (auto simp: openTag_def nth_append)
  have "drop (b_end b) s = z" "drop (b_start b) s = (openTag (tagName b) @ y @ closeTag (tagName b)) @ z"
    by (simp_all add: B)
  then show "2 + angles (drop (b_end b) s) \<le> angles (drop (b_start b) s)"
    by (simp add: openTag_def closeTag_def)
qed

lemma findAllBlocks_sorted: "sorted_wrt (\<lambda>a b. b_start a < b_start b) (findAllBlocks s)"
proof -
  have "sorted_wrt (\<lambda>a b. b_start a < b_start b) (List.map_filter (block_at s) ms)"
    if "sorted_wrt (\<lambda>a b. fst a < fst b) ms" for ms
    using that
    by (induction ms) (auto simp: List.map_filter_simps List.map_filter_def block_at_def Let_def split: option.splits)
  then show ?thesis unfolding findAllBlocks_def by (simp add: matches_from_sorted)
qed

lemma innermost_sub: "set (innermost s) \<subseteq> set (findAllBlocks s)"
  "sorted_wrt (\<lambda>a b. b_start a < b_start b) (innermost s)"
  by (auto simp: innermost_def Let_def intro: sorted_wrt_filter findAllBlocks_sorted)

lemma angles_split: "angles s = angles (take n s) + angles (drop n s)"
  by (metis append_take_drop_id filter_append length_append)

lemma ascii_digits_plain: "CHR ''<'' \<notin> set (nat_digits n) \<and> CHR ''>'' \<notin> set (nat_digits n)"
proof -
  have "\<not> ascii_digit (CHR ''<'')" "\<not> ascii_digit (CHR ''>'')" by (simp_all add: ascii_digit_def)
  with nat_digits_ascii [of n] show ?thesis by blast
qed

lemma letter_tag: "ascii_letter c \<Longrightarrow> tag_char c"
  by (simp add: tag_char_def)

lemma angles_placeholder: "CHR ''<'' \<notin> set n \<Longrightarrow> angles (placeholder n (nat_digits i)) = 1"
  using ascii_digits_plain by (auto simp: placeholder_def filter_empty_conv)

lemma tag_chars_plain: "tag_char c \<Longrightarrow> c \<notin> set ''<>.$''"
  by (auto simp: tag_char_def ascii_letter_def ascii_digit_def)

definition tag_name :: "string \<Rightarrow> bool" where
  "tag_name n \<longleftrightarrow> n \<noteq> [] \<and> ascii_letter (hd n) \<and> (\<forall>c \<in> set n. tag_char c)"

lemma tag_name_at_Some: "tag_name_at s = Some n \<Longrightarrow> tag_name n"
  by (cases s) (auto simp: tag_name_def letter_tag dest: set_takeWhileD split: if_splits)

lemma block_tag:
  assumes "b \<in> set (findAllBlocks s)" shows "tag_name (tagName b)"
proof -
  from assms obtain i n where "(i, n) \<in> set (matches_from 0 OPEN_TAG_at (\<lambda>n. length (openTag n)) s)"
    and b: "tagName b = n" by (auto simp: findAllBlocks_def List.map_filter_def block_at_def Let_def)
  from matches_from_sound [OF this(1)] have "OPEN_TAG_at (drop i s) = Some n" by simp
  then show ?thesis unfolding b
    by (auto simp: OPEN_TAG_at_def split: list.splits option.splits if_splits intro: tag_name_at_Some)
qed

lemma tag_name_plain: "tag_name n \<Longrightarrow> CHR ''<'' \<notin> set n \<and> CHR ''>'' \<notin> set n \<and> CHR ''$'' \<notin> set n"
  using tag_chars_plain by (fastforce simp: tag_name_def)

lemma snd_swap_block: "snd (swap_block i b mv)
    = take (b_start b) (snd mv) @ placeholder (tagName b) (nat_digits i) @ drop (b_end b) (snd mv)"
  by (simp add: swap_block_def Let_def)

lemma swap_angles:
  assumes "b \<in> set (findAllBlocks s)" and "take (b_start b + 1) u = take (b_start b + 1) s"
  shows "angles (snd (swap_block i b (m, u))) \<le> angles u"
proof -
  note B = block_angles [OF assms(1)]
  have "b_start b < length s" using B(1,2) by simp
  then have "u ! b_start b = s ! b_start b" "b_start b < length u"
    using arg_cong [OF assms(2), of "\<lambda>x. x ! b_start b"] arg_cong [OF assms(2), of length] by auto
  then have "drop (b_start b) u = CHR ''<'' # drop (Suc (b_start b)) u" using B(3) by (metis Cons_nth_drop_Suc)
  then have "angles (drop (b_start b) u) = 1 + angles (drop (Suc (b_start b)) u)" by simp
  moreover have "angles (drop (b_end b) u) \<le> angles (drop (Suc (b_start b)) u)"
    using angles_split [of "drop (Suc (b_start b)) u" "b_end b - Suc (b_start b)"] B(1) by simp
  ultimately show ?thesis
    using angles_split [of u "b_start b"] angles_placeholder [of "tagName b" i] tag_name_plain [OF block_tag [OF assms(1)]]
    by (simp add: snd_swap_block)
qed

lemma swap_keeps_front: "k \<le> b_start b \<Longrightarrow> k \<le> length (snd mv) \<Longrightarrow> take k (snd (swap_block i b mv)) = take k (snd mv)"
  by (simp add: snd_swap_block min_def)

lemma swaps_angles:
  assumes "\<forall>b \<in> set bs. b \<in> set (findAllBlocks s)" and "sorted_wrt (\<lambda>a b. b_start a < b_start b) bs"
  shows "angles (snd (foldr (\<lambda>(i, b). swap_block i b) (enumerate n bs) (m, s))) \<le> angles s
       \<and> (bs \<noteq> [] \<longrightarrow> angles (snd (foldr (\<lambda>(i, b). swap_block i b) (enumerate n bs) (m, s))) < angles s)
       \<and> (\<forall>k. (\<forall>b \<in> set bs. k \<le> b_start b) \<longrightarrow> k \<le> length s \<longrightarrow>
              take k (snd (foldr (\<lambda>(i, b). swap_block i b) (enumerate n bs) (m, s))) = take k s)"
  using assms
proof (induction bs arbitrary: n)
  case Nil
  then show ?case by simp
next
  case (Cons b bs)
  let ?mv = "foldr (\<lambda>(i, b). swap_block i b) (enumerate (Suc n) bs) (m, s)"
  from Cons.IH [of "Suc n"] Cons.prems have IH1: "angles (snd ?mv) \<le> angles s"
    and IH2: "bs \<noteq> [] \<Longrightarrow> angles (snd ?mv) < angles s"
    and IH3: "\<And>k. \<forall>b \<in> set bs. k \<le> b_start b \<Longrightarrow> k \<le> length s \<Longrightarrow> take k (snd ?mv) = take k s"
    by simp_all
  have b: "b \<in> set (findAllBlocks s)" using Cons.prems(1) by simp
  note B = block_angles [OF b]
  have front: "take (b_start b + 1) (snd ?mv) = take (b_start b + 1) s"
    by (rule IH3) (use Cons.prems B(1,2) in auto)
  then have "length (take (b_start b + 1) (snd ?mv)) = b_start b + 1" using B(1,2) by simp
  then have len: "b_start b + 1 \<le> length (snd ?mv)" by simp
  have le: "angles (snd (swap_block n b ?mv)) \<le> angles (snd ?mv)"
    using swap_angles [OF b front, of n "fst ?mv"] by simp
  have lt: "angles (snd (swap_block n b ?mv)) < angles s" if "bs = []"
    using that angles_split [of s "b_start b"] B(4) angles_placeholder [of "tagName b" n]
      tag_name_plain [OF block_tag [OF b]] by (simp add: snd_swap_block)
  have take: "take k (snd (swap_block n b ?mv)) = take k s"
    if "\<forall>b \<in> set (b # bs). k \<le> b_start b" "k \<le> length s" for k
  proof -
    have "take k (snd (swap_block n b ?mv)) = take k (snd ?mv)"
      by (rule swap_keeps_front) (use that len in auto)
    then show ?thesis using IH3 [of k] that by simp
  qed
  have "angles (snd (swap_block n b ?mv)) \<le> angles s" using le IH1 by linarith
  moreover have "angles (snd (swap_block n b ?mv)) < angles s"
    using lt le IH2 by (cases "bs = []") (auto intro: le_less_trans)
  ultimately show ?case using take by simp
qed

lemma pass_angles: "innermost s \<noteq> [] \<Longrightarrow> angles (snd (collapse_pass (m, s))) < angles s"
  unfolding collapse_pass_def Let_def prod.case
  using swaps_angles [of "innermost s" s "globalCounter m + 1" "m\<lparr>globalCounter := globalCounter m + length (innermost s)\<rparr>"]
    innermost_sub by blast

text \<open>The loop of \<open>collapseAll\<close>; a pass changes something exactly if there is a block.\<close>

function collapseAll :: "collapse_state \<Rightarrow> string \<Rightarrow> collapse_state \<times> string" where
  "collapseAll m s =
     (if innermost s = [] then (m, s)
      else (case collapse_pass (m, s) of (m', s') \<Rightarrow> collapseAll m' s'))"
  by pat_completeness auto
termination
proof (relation "measure (\<lambda>(m, s). angles s)")
  fix m s m' s'
  assume a: "innermost s \<noteq> []" and "(m', s') = collapse_pass (m, s)"
  then have "s' = snd (collapse_pass (m, s))" by (metis snd_conv)
  with pass_angles [OF a] show "((m', s'), (m, s)) \<in> measure (\<lambda>(m, s). angles s)" by simp
qed simp

declare collapseAll.simps [simp del]

end
