(* ===== verification/BlockCollapseFacts.thy ===== *)
theory BlockCollapseFacts
  imports BlockCollapse
begin

text \<open>
  What collapsing keeps: expanding the placeholder just made gives the text back, and whatever blocks are
  collapsed, what is submitted is the text as typed - when it holds no dollar sign and no placeholder and
  its tags nest. Without any of these conditions it is not; all three failures are shown.
\<close>

section \<open>Placeholders do not overlap\<close>

text \<open>A text in angle brackets with none inside.\<close>

definition bracketed :: "string \<Rightarrow> bool" where
  "bracketed p \<longleftrightarrow> (\<exists>t. p = ''<'' @ t @ ''>'' \<and> CHR ''<'' \<notin> set t \<and> CHR ''>'' \<notin> set t)"

lemma bracketed_nth:
  assumes "bracketed p"
  shows "2 \<le> length p" "p ! 0 = CHR ''<''" "p ! (length p - 1) = CHR ''>''"
    "\<And>i. 0 < i \<Longrightarrow> i < length p \<Longrightarrow> p ! i \<noteq> CHR ''<''"
    "\<And>i. i < length p - 1 \<Longrightarrow> p ! i \<noteq> CHR ''>''"
proof -
  from assms obtain t where p: "p = ''<'' @ t @ ''>''" and t: "CHR ''<'' \<notin> set t" "CHR ''>'' \<notin> set t"
    by (auto simp: bracketed_def)
  show "2 \<le> length p" "p ! 0 = CHR ''<''" "p ! (length p - 1) = CHR ''>''" by (simp_all add: p)
  have mid: "p ! i = t ! (i - 1)" "t ! (i - 1) \<in> set t" if "0 < i" "i < length p - 1" for i
    using that by (auto simp: p nth_Cons' nth_append)
  show "p ! i \<noteq> CHR ''<''" if "0 < i" "i < length p" for i
  proof (cases "i < length p - 1")
    case True
    with that mid t show ?thesis by metis
  next
    case False
    with that have "i = length p - 1" by simp
    then show ?thesis by (simp add: p)
  qed
  show "p ! i \<noteq> CHR ''>''" if "i < length p - 1" for i
  proof (cases "0 < i")
    case True
    with that mid t show ?thesis by metis
  next
    case False
    then show ?thesis by (simp add: p)
  qed
qed

lemma occurrence_nth: "a @ p @ b = s \<Longrightarrow> i < length p \<Longrightarrow> s ! (length a + i) = p ! i"
  by (auto simp: nth_append)

lemma bracketed_occurrence:
  assumes p: "bracketed p" and q: "bracketed q" and eq: "pre @ p @ post = a @ q @ b"
  shows "length a + length q \<le> length pre \<or> length pre + length p \<le> length a \<or> (a = pre \<and> q = p \<and> b = post)"
proof (rule ccontr)
  assume "\<not> ?thesis"
  then have ov: "length pre < length a + length q" "length a < length pre + length p"
    and ne: "\<not> (a = pre \<and> q = p \<and> b = post)" by auto
  let ?s = "pre @ p @ post"
  note P = occurrence_nth [of pre p post ?s, OF refl] and Q = occurrence_nth [of a q b ?s, OF eq [symmetric]]
  note Bp = bracketed_nth [OF p] and Bq = bracketed_nth [OF q]
  have ne0: "p \<noteq> []" "q \<noteq> []" using Bp(1) Bq(1) by auto
  consider "length a < length pre" | "length pre < length a" | "length a = length pre" by linarith
  then show False
  proof cases
    case 1
    then have "?s ! length pre = q ! (length pre - length a)" using Q [of "length pre - length a"] ov by simp
    moreover have "?s ! length pre = CHR ''<''" using P [of 0] Bp(2) ne0 by simp
    moreover have "0 < length pre - length a" "length pre - length a < length q" using 1 ov by linarith+
    ultimately show False using Bq(4) by metis
  next
    case 2
    then have "?s ! length a = p ! (length a - length pre)" using P [of "length a - length pre"] ov by simp
    moreover have "?s ! length a = CHR ''<''" using Q [of 0] Bq(2) ne0 by simp
    moreover have "0 < length a - length pre" "length a - length pre < length p" using 2 ov by linarith+
    ultimately show False using Bp(4) by metis
  next
    case 3
    with eq have ap: "a = pre" "p @ post = q @ b" by auto
    have "length p = length q"
    proof (rule ccontr)
      assume "length p \<noteq> length q"
      then consider "length p < length q" | "length q < length p" by linarith
      then show False
      proof cases
        case 1
        have "q ! (length p - 1) = p ! (length p - 1)"
          using P [of "length p - 1"] Q [of "length p - 1"] 1 Bp(1) ap(1) by simp
        with Bp(3) Bq(5) [of "length p - 1"] 1 Bp(1) show False by simp
      next
        case 2
        have "p ! (length q - 1) = q ! (length q - 1)"
          using P [of "length q - 1"] Q [of "length q - 1"] 2 Bq(1) ap(1) by simp
        with Bq(3) Bp(5) [of "length q - 1"] 2 Bq(1) show False by simp
      qed
    qed
    with ap ne show False by simp
  qed
qed

definition absent :: "string \<Rightarrow> string \<Rightarrow> bool" where
  "absent p s \<longleftrightarrow> \<not> str_includes p s"

lemma absent_iff: "absent p s \<longleftrightarrow> (\<forall>a b. s \<noteq> a @ p @ b)"
  by (auto simp: absent_def str_includes_iff)

lemma absent_parts: "absent p (a @ s @ b) \<Longrightarrow> absent p a \<and> absent p s \<and> absent p b"
  unfolding absent_iff by (metis append.assoc)

lemma occurrence_apart:
  assumes "pre @ p @ post = a @ q @ b"
  shows "length a + length q \<le> length pre \<Longrightarrow> \<not> absent q pre"
    and "length pre + length p \<le> length a \<Longrightarrow> \<not> absent q post"
proof -
  assume "length a + length q \<le> length pre"
  with arg_cong [OF assms, of "take (length a + length q)"] have "take (length a + length q) pre = a @ q" by simp
  then have "pre = a @ q @ drop (length a + length q) pre" by (metis append.assoc append_take_drop_id)
  then show "\<not> absent q pre" unfolding absent_iff by blast
next
  assume "length pre + length p \<le> length a"
  then have "post = drop (length pre + length p) a @ q @ b"
    using arg_cong [OF assms, of "drop (length pre + length p)"] by simp
  then show "\<not> absent q post" unfolding absent_iff by blast
qed

lemma absent_other:
  assumes "bracketed p" "bracketed q" "q \<noteq> p" "absent q (pre @ orig @ post)"
  shows "absent q (pre @ p @ post)"
  unfolding absent_iff
proof (intro allI notI)
  fix a b assume eq: "pre @ p @ post = a @ q @ b"
  from bracketed_occurrence [OF assms(1,2) eq] assms(3)
  have "length a + length q \<le> length pre \<or> length pre + length p \<le> length a" by blast
  with occurrence_apart [OF eq] absent_parts [OF assms(4)] show False by blast
qed

lemma split_on_only:
  assumes "bracketed p" "absent p pre" "absent p post"
  shows "split_on p (pre @ p @ post) = Some (pre, post)"
proof -
  obtain a b where s: "split_on p (pre @ p @ post) = Some (a, b)"
    using split_on_None [of p "pre @ p @ post" pre post] by (cases "split_on p (pre @ p @ post)") auto
  note eq = split_on_Some [OF s]
  from bracketed_occurrence [OF assms(1,1) eq] occurrence_apart [OF eq] assms(2,3) have "a = pre \<and> b = post" by blast
  with s show ?thesis by simp
qed

lemma subst_plain: "CHR ''$'' \<notin> set r \<Longrightarrow> subst_pattern p before after r = r"
  by (induction p before after r rule: subst_pattern.induct) auto

lemma replace_all_absent: "absent p s \<Longrightarrow> replace_all p r before s = s"
proof -
  assume "absent p s"
  then have "split_on p s = None" by (cases "split_on p s") (auto simp: absent_def str_includes_def)
  then show ?thesis by (subst replace_all.simps) simp
qed

lemma replace_all_one:
  assumes "bracketed p" "absent p pre" "absent p post"
  shows "replace_all p r [] (pre @ p @ post) = pre @ subst_pattern p pre post r @ post"
proof -
  have "p \<noteq> []" using bracketed_nth(1) [OF assms(1)] by auto
  then show ?thesis
    by (subst replace_all.simps) (simp add: split_on_only [OF assms] replace_all_absent [OF assms(3)])
qed

lemma replace_all_only:
  "bracketed p \<Longrightarrow> absent p pre \<Longrightarrow> absent p post \<Longrightarrow> CHR ''$'' \<notin> set r
     \<Longrightarrow> replace_all p r [] (pre @ p @ post) = pre @ r @ post"
  by (simp add: replace_all_one subst_plain)

lemma subst_Cons: "CHR ''$'' \<noteq> c \<Longrightarrow> subst_pattern p before after (c # r) = c # subst_pattern p before after r"
  by (cases r) simp_all

lemma subst_two_dollars:
  "CHR ''$'' \<notin> set u \<Longrightarrow> CHR ''$'' \<notin> set v \<Longrightarrow>
     subst_pattern p before after (u @ ''$$'' @ v) = u @ ''$'' @ v"
  by (induction u) (simp_all add: subst_plain subst_Cons)

section \<open>Placeholders of the manager\<close>

lemma placeholder_bracketed: "tag_name n \<Longrightarrow> bracketed (placeholder n (nat_digits k))"
  unfolding bracketed_def placeholder_def
  by (rule exI [of _ "n @ ''...'' @ nat_digits k"]) (auto dest: tag_name_plain simp: ascii_digits_plain)

lemma nat_digits_no_dollar: "CHR ''$'' \<notin> set (nat_digits k)"
proof -
  have "\<not> ascii_digit (CHR ''$'')" by (simp add: ascii_digit_def)
  with nat_digits_ascii [of k] show ?thesis by blast
qed

lemma placeholder_no_dollar: "tag_name n \<Longrightarrow> CHR ''$'' \<notin> set (placeholder n (nat_digits k))"
  by (auto simp: placeholder_def nat_digits_no_dollar dest: tag_name_plain)

lemma placeholder_number:
  assumes "tag_name n" "tag_name n'" "placeholder n (nat_digits k) = placeholder n' (nat_digits k')"
  shows "k = k'"
proof -
  have tw: "takeWhile (\<lambda>c. c \<noteq> CHR ''.'') (n @ ''...'' @ r) = n" if "tag_name n" for n r
    using that tag_chars_plain by (subst takeWhile_append2) (auto simp: tag_name_def)
  from assms(3) have eq: "n @ ''...'' @ nat_digits k = n' @ ''...'' @ nat_digits k'"
    by (simp add: placeholder_def)
  with tw [OF assms(1), of "nat_digits k"] tw [OF assms(2), of "nat_digits k'"] have "n = n'" by simp
  with eq have "nat_digits k = nat_digits k'" by simp
  then show ?thesis by (metis number_of_digits)
qed

lemma update_new: "p \<notin> fst ` set xs \<Longrightarrow> AList.update p v xs = xs @ [(p, v)]"
  by (induction xs) auto

lemma expandAll_snoc:
  "collapsed m' = collapsed m @ [(p, orig)] \<Longrightarrow> expandAll m' s = expandAll m (replace_all p orig [] s)"
  by (simp add: expandAll_def)

lemma swap_expand:
  assumes "tag_name (tagName b)" and p: "p = placeholder (tagName b) (nat_digits i)"
    and s: "take (b_end b) s = take (b_end b) s0" "slice (b_start b) (b_end b) s0 = fullMatch b"
      "b_start b \<le> b_end b" "b_end b \<le> length s0"
    and new: "p \<notin> fst ` set (collapsed m)" "absent p s" "CHR ''$'' \<notin> set s"
  shows "swap_block i b (m, s) = (m\<lparr>collapsed := collapsed m @ [(p, fullMatch b)]\<rparr>,
        take (b_start b) s @ p @ drop (b_end b) s)"
    and "s = take (b_start b) s @ fullMatch b @ drop (b_end b) s"
    and "expandAll (fst (swap_block i b (m, s))) (snd (swap_block i b (m, s))) = expandAll m s"
proof -
  show sw: "swap_block i b (m, s) = (m\<lparr>collapsed := collapsed m @ [(p, fullMatch b)]\<rparr>,
        take (b_start b) s @ p @ drop (b_end b) s)"
    using new(1) by (simp add: swap_block_def Let_def p update_new)
  have "slice (b_start b) (b_end b) s = drop (b_start b) (take (b_end b) s)" for s
    by (simp add: slice_def drop_take)
  with s(1,2) have "slice (b_start b) (b_end b) s = fullMatch b" by simp
  then show eq: "s = take (b_start b) s @ fullMatch b @ drop (b_end b) s"
    using s(3) unfolding slice_def by (metis append_take_drop_id drop_drop le_add_diff_inverse2)
  have d: "CHR ''$'' \<notin> set (fullMatch b)" using new(3) by (subst (asm) eq) simp
  have a: "absent p (take (b_start b) s)" "absent p (drop (b_end b) s)"
    using new(2) absent_parts by (metis eq)+
  have "replace_all p (fullMatch b) [] (take (b_start b) s @ p @ drop (b_end b) s) = s"
    using replace_all_only [OF placeholder_bracketed [OF assms(1), of i, folded p] a d] eq by simp
  then show "expandAll (fst (swap_block i b (m, s))) (snd (swap_block i b (m, s))) = expandAll m s"
    unfolding sw by (simp add: expandAll_snoc [of _ m p "fullMatch b"])
qed

section \<open>Runs of the manager\<close>

definition disjoint_blocks :: "xml_block list \<Rightarrow> bool" where
  "disjoint_blocks bs \<longleftrightarrow> sorted_wrt (\<lambda>a b. b_end a \<le> b_start b) bs"

definition keys_below :: "nat \<Rightarrow> collapse_state \<Rightarrow> bool" where
  "keys_below i m \<longleftrightarrow>
     (\<forall>q \<in> fst ` set (collapsed m). \<exists>n k. tag_name n \<and> k < i \<and> q = placeholder n (nat_digits k))"

definition numbers_free :: "nat \<Rightarrow> string \<Rightarrow> bool" where
  "numbers_free i s \<longleftrightarrow> (\<forall>n k. tag_name n \<longrightarrow> i \<le> k \<longrightarrow> absent (placeholder n (nat_digits k)) s)"

definition composer_inv :: "collapse_state \<times> string \<Rightarrow> bool" where
  "composer_inv mv \<longleftrightarrow> keys_below (globalCounter (fst mv) + 1) (fst mv)
     \<and> numbers_free (globalCounter (fst mv) + 1) (snd mv) \<and> CHR ''$'' \<notin> set (snd mv)"

lemma block_slice:
  assumes "b \<in> set (findAllBlocks s)"
  shows "slice (b_start b) (b_end b) s = fullMatch b" "b_start b \<le> b_end b" "b_end b \<le> length s"
proof -
  from findAllBlocks_sound [OF assms] obtain x y z where
    B: "s = x @ (openTag (tagName b) @ y @ closeTag (tagName b)) @ z"
      "b_start b = length x" "b_end b = length x + length (fullMatch b)"
      "fullMatch b = openTag (tagName b) @ y @ closeTag (tagName b)" by blast
  then have "s = x @ fullMatch b @ z" by simp
  with B(2,3) show "slice (b_start b) (b_end b) s = fullMatch b" by simp
qed (use block_angles [OF assms] in simp_all)

text \<open>Swapping one block keeps what the text expands to, and what is known of keys and numbers.\<close>

lemma swap_inv:
  assumes "tag_name (tagName b)" "take (b_end b) s = take (b_end b) s0" "b \<in> set (findAllBlocks s0)"
    and "\<forall>q \<in> fst ` set (collapsed m). \<exists>n k. tag_name n \<and> k \<noteq> i \<and> q = placeholder n (nat_digits k)"
    and "\<forall>n. tag_name n \<longrightarrow> absent (placeholder n (nat_digits i)) s" "CHR ''$'' \<notin> set s"
    and "swap_block i b (m, s) = (m', s')"
  shows "expandAll m' s' = expandAll m s" "CHR ''$'' \<notin> set s'"
    "fst ` set (collapsed m') = insert (placeholder (tagName b) (nat_digits i)) (fst ` set (collapsed m))"
    "\<And>n k. tag_name n \<Longrightarrow> k \<noteq> i \<Longrightarrow> absent (placeholder n (nat_digits k)) s
       \<Longrightarrow> absent (placeholder n (nat_digits k)) s'"
proof -
  let ?p = "placeholder (tagName b) (nat_digits i)"
  have new: "?p \<notin> fst ` set (collapsed m)" using assms(4) placeholder_number [OF assms(1)] by metis
  note S = swap_expand [OF assms(1) refl assms(2) block_slice [OF assms(3)] new assms(5) [rule_format, OF assms(1)] assms(6)]
  have m': "m' = m\<lparr>collapsed := collapsed m @ [(?p, fullMatch b)]\<rparr>"
    and s': "s' = take (b_start b) s @ ?p @ drop (b_end b) s" using S(1) assms(7) by auto
  show "expandAll m' s' = expandAll m s" using S(3) assms(7) by simp
  show "CHR ''$'' \<notin> set s'"
    using assms(6) placeholder_no_dollar [OF assms(1)] by (auto simp: s' dest: in_set_takeD in_set_dropD)
  show "fst ` set (collapsed m') = insert ?p (fst ` set (collapsed m))" by (simp add: m')
  fix n k assume nk: "tag_name n" "k \<noteq> i" "absent (placeholder n (nat_digits k)) s"
  have "placeholder n (nat_digits k) \<noteq> ?p" using placeholder_number [OF nk(1) assms(1)] nk(2) by metis
  from absent_other [OF placeholder_bracketed [OF assms(1)] placeholder_bracketed [OF nk(1)] this]
  show "absent (placeholder n (nat_digits k)) s'" unfolding s' using nk(3) by (metis S(2))
qed

lemma foldl_pick:
  assumes "\<And>best x. f best x = best \<or> f best x = Some x"
  shows "foldl f best xs = Some y \<Longrightarrow> y \<in> set xs \<or> best = Some y"
proof (induction xs arbitrary: best)
  case (Cons x xs)
  then show ?case using assms [of best x] by fastforce
qed simp

lemma enclosing_block: "findEnclosingBlock s c = Some b \<Longrightarrow> b \<in> set (findAllBlocks s)"
  unfolding findEnclosingBlock_def by (drule foldl_pick [rotated]) (auto split: option.splits)

lemma local_step:
  assumes "composer_inv (m, s)" and "collapseLocal m s c = Some (m', s', c')"
  shows "composer_inv (m', s') \<and> expandAll m' s' = expandAll m s"
proof -
  let ?i = "globalCounter m + 1"
  from assms(2) obtain b where b: "findEnclosingBlock s c = Some b"
    and sw: "swap_block ?i b (m\<lparr>globalCounter := ?i\<rparr>, s) = (m', s')"
    by (auto simp: collapseLocal_def Let_def split: option.splits prod.splits)
  have blk: "b \<in> set (findAllBlocks s)" using enclosing_block [OF b] .
  have g: "globalCounter m' = ?i" using sw by (auto simp: swap_block_def Let_def)
  note I = swap_inv [OF block_tag [OF blk] refl blk _ _ _ sw]
  have k: "\<exists>n k. tag_name n \<and> k \<noteq> ?i \<and> q = placeholder n (nat_digits k)"
    if "q \<in> fst ` set (collapsed (m\<lparr>globalCounter := ?i\<rparr>))" for q
  proof -
    from assms(1) that obtain n k where "tag_name n" "k < ?i" "q = placeholder n (nat_digits k)"
      unfolding composer_inv_def keys_below_def by auto
    then show ?thesis by (intro exI [of _ n] exI [of _ k]) simp
  qed
  have a: "absent (placeholder n (nat_digits ?i)) s" if "tag_name n" for n
    using assms(1) that by (auto simp: composer_inv_def numbers_free_def)
  have d: "CHR ''$'' \<notin> set s" using assms(1) by (simp add: composer_inv_def)
  have k': "\<forall>q \<in> fst ` set (collapsed (m\<lparr>globalCounter := ?i\<rparr>)). \<exists>n k. tag_name n \<and> k \<noteq> ?i \<and> q = placeholder n (nat_digits k)"
    and a': "\<forall>n. tag_name n \<longrightarrow> absent (placeholder n (nat_digits ?i)) s" using k a by blast+
  note I = I [OF k' a' d]
  have "collapsed (m\<lparr>globalCounter := ?i\<rparr>) = collapsed m" by simp
  note I3 = I(3) [unfolded this]
  have "keys_below (?i + 1) m'"
    unfolding keys_below_def
  proof
    fix q assume "q \<in> fst ` set (collapsed m')"
    then consider "q = placeholder (tagName b) (nat_digits ?i)" | "q \<in> fst ` set (collapsed m)"
      unfolding I3 by blast
    then show "\<exists>n k. tag_name n \<and> k < ?i + 1 \<and> q = placeholder n (nat_digits k)"
    proof cases
      case 1
      with block_tag [OF blk] show ?thesis by (intro exI [of _ "tagName b"] exI [of _ ?i]) simp
    next
      case 2
      with assms(1) obtain n k where "tag_name n" "k < ?i" "q = placeholder n (nat_digits k)"
        unfolding composer_inv_def keys_below_def by auto
      then show ?thesis by (intro exI [of _ n] exI [of _ k]) simp
    qed
  qed
  moreover have "numbers_free (?i + 1) s'"
    unfolding numbers_free_def using assms(1) by (auto simp: composer_inv_def numbers_free_def intro!: I(4))
  ultimately show ?thesis using I(1,2) by (simp add: composer_inv_def g expandAll_def)
qed

lemma pass_step:
  assumes "disjoint_blocks bs" "\<forall>b \<in> set bs. b \<in> set (findAllBlocks s)"
    and "\<forall>q \<in> fst ` set (collapsed m). \<exists>n k. tag_name n \<and> k < i \<and> q = placeholder n (nat_digits k)"
    and "\<forall>n k. tag_name n \<longrightarrow> i \<le> k \<longrightarrow> absent (placeholder n (nat_digits k)) s" and "CHR ''$'' \<notin> set s"
    and "foldr (\<lambda>(i, b). swap_block i b) (enumerate i bs) (m, s) = (m', s')"
  shows "expandAll m' s' = expandAll m s \<and> CHR ''$'' \<notin> set s'
     \<and> (\<forall>q \<in> fst ` set (collapsed m'). \<exists>n k. tag_name n \<and> (k < i \<or> i \<le> k \<and> k < i + length bs) \<and> q = placeholder n (nat_digits k))
     \<and> (\<forall>q \<in> fst ` set (collapsed m') - fst ` set (collapsed m). \<exists>n k. tag_name n \<and> i \<le> k \<and> k < i + length bs \<and> q = placeholder n (nat_digits k))
     \<and> (\<forall>n k. tag_name n \<longrightarrow> (k < i \<or> i + length bs \<le> k) \<longrightarrow> absent (placeholder n (nat_digits k)) s
          \<longrightarrow> absent (placeholder n (nat_digits k)) s')
     \<and> (\<forall>j. (\<forall>b \<in> set bs. j \<le> b_start b) \<longrightarrow> j \<le> length s \<longrightarrow> take j s' = take j s \<and> j \<le> length s')"
  using assms
proof (induction bs arbitrary: i m' s')
  case Nil
  then have "m' = m" "s' = s" by simp_all
  with Nil show ?case by simp blast
next
  case (Cons b bs)
  obtain m1 s1 where mv: "foldr (\<lambda>(i, b). swap_block i b) (enumerate (Suc i) bs) (m, s) = (m1, s1)"
    by fastforce
  have sw: "swap_block i b (m1, s1) = (m', s')" using Cons.prems(6) mv by simp
  have b: "b \<in> set (findAllBlocks s)" using Cons.prems(2) by simp
  have k: "\<forall>q \<in> fst ` set (collapsed m). \<exists>n k. tag_name n \<and> k < Suc i \<and> q = placeholder n (nat_digits k)"
    using Cons.prems(3) less_SucI by blast
  from Cons.IH [OF _ _ k _ Cons.prems(5) mv] Cons.prems(1,2,4)
  have E: "expandAll m1 s1 = expandAll m s" and D: "CHR ''$'' \<notin> set s1"
    and K: "\<forall>q \<in> fst ` set (collapsed m1) - fst ` set (collapsed m).
        \<exists>n k. tag_name n \<and> Suc i \<le> k \<and> k < Suc i + length bs \<and> q = placeholder n (nat_digits k)"
    and A: "\<And>n k. tag_name n \<Longrightarrow> k < Suc i \<or> Suc i + length bs \<le> k \<Longrightarrow> absent (placeholder n (nat_digits k)) s
          \<Longrightarrow> absent (placeholder n (nat_digits k)) s1"
    and F: "\<And>j. \<forall>b \<in> set bs. j \<le> b_start b \<Longrightarrow> j \<le> length s \<Longrightarrow> take j s1 = take j s \<and> j \<le> length s1"
    by (auto simp: disjoint_blocks_def)
  have sep: "\<forall>b' \<in> set bs. b_end b \<le> b_start b'" using Cons.prems(1) by (simp add: disjoint_blocks_def)
  note B = block_slice [OF b]
  have key: "\<forall>q \<in> fst ` set (collapsed m1). \<exists>n k. tag_name n \<and> k \<noteq> i \<and> q = placeholder n (nat_digits k)"
  proof
    fix q assume that: "q \<in> fst ` set (collapsed m1)"
    show "\<exists>n k. tag_name n \<and> k \<noteq> i \<and> q = placeholder n (nat_digits k)"
    proof (cases "q \<in> fst ` set (collapsed m)")
    case True
    from Cons.prems(3) True obtain n k where "tag_name n" "k < i" "q = placeholder n (nat_digits k)" by blast
    then show ?thesis by (intro exI [of _ n] exI [of _ k]) simp
  next
    case False
    with that have "q \<in> fst ` set (collapsed m1) - fst ` set (collapsed m)" by blast
    with K obtain n k where "tag_name n" "Suc i \<le> k" "q = placeholder n (nat_digits k)" by blast
    then show ?thesis by (intro exI [of _ n] exI [of _ k]) simp
    qed
  qed
  have free: "\<forall>n. tag_name n \<longrightarrow> absent (placeholder n (nat_digits i)) s1"
    using A [of _ i] Cons.prems(4) by auto
  note I = swap_inv [OF block_tag [OF b] conjunct1 [OF F [OF sep B(3)]] b key free D sw]
  have snew: "s' = take (b_start b) s1 @ placeholder (tagName b) (nat_digits i) @ drop (b_end b) s1"
    using snd_swap_block [of i b "(m1, s1)"] sw by simp
  have front: "take j s' = take j s \<and> j \<le> length s'" if "\<forall>b \<in> set (b # bs). j \<le> b_start b" "j \<le> length s" for j
  proof -
    have j: "take j s1 = take j s" "j \<le> length s1" "j \<le> b_start b" using F [of j] that by auto
    then have "take j s' = take j s1" by (simp add: snew min_def)
    moreover have "j \<le> length s'" using j by (simp add: snew)
    ultimately show ?thesis using j by simp
  qed
  have keys: "\<exists>n k. tag_name n \<and> i \<le> k \<and> k < i + length (b # bs) \<and> q = placeholder n (nat_digits k)"
    if "q \<in> fst ` set (collapsed m')" "q \<notin> fst ` set (collapsed m)" for q
  proof (cases "q = placeholder (tagName b) (nat_digits i)")
    case True
    with block_tag [OF b] show ?thesis by (intro exI [of _ "tagName b"] exI [of _ i]) simp
  next
    case False
    with that I(3) have "q \<in> fst ` set (collapsed m1) - fst ` set (collapsed m)" by blast
    with K obtain n k where "tag_name n" "Suc i \<le> k" "k < Suc i + length bs" "q = placeholder n (nat_digits k)" by blast
    then show ?thesis by (intro exI [of _ n] exI [of _ k]) simp
  qed
  have all: "\<exists>n k. tag_name n \<and> (k < i \<or> i \<le> k \<and> k < i + length (b # bs)) \<and> q = placeholder n (nat_digits k)"
    if "q \<in> fst ` set (collapsed m')" for q
    using keys [OF that] Cons.prems(3) by blast
  have abs: "absent (placeholder n (nat_digits k)) s'"
    if "tag_name n" "k < i \<or> i + length (b # bs) \<le> k" "absent (placeholder n (nat_digits k)) s" for n k
  proof -
    have "absent (placeholder n (nat_digits k)) s1" using A [OF that(1) _ that(3)] that(2) by auto
    from I(4) [OF that(1) _ this] that(2) show ?thesis by auto
  qed
  from I(1,2) E all keys abs front show ?case by simp
qed

lemma pass_inv:
  assumes "composer_inv (m, s)" and "disjoint_blocks (innermost s)"
  shows "composer_inv (collapse_pass (m, s))
     \<and> expandAll (fst (collapse_pass (m, s))) (snd (collapse_pass (m, s))) = expandAll m s"
proof -
  let ?bs = "innermost s" and ?n = "globalCounter m"
  let ?m0 = "m\<lparr>globalCounter := ?n + length ?bs\<rparr>"
  obtain m' s' where p: "foldr (\<lambda>(i, b). swap_block i b) (enumerate (?n + 1) ?bs) (?m0, s) = (m', s')" by fastforce
  have cp: "collapse_pass (m, s) = (m', s')" using p by (simp add: collapse_pass_def Let_def)
  have cnt: "globalCounter (fst (foldr (\<lambda>(i, b). swap_block i b) xs mv)) = globalCounter (fst mv)" for xs mv
    by (induction xs) (auto simp: swap_block_def Let_def split: prod.splits)
  have g: "globalCounter m' = ?n + length ?bs" using cnt [of "enumerate (?n + 1) ?bs" "(?m0, s)"] p by simp
  have blocks: "\<forall>b \<in> set ?bs. b \<in> set (findAllBlocks s)" using innermost_sub by blast
  have k: "\<forall>q \<in> fst ` set (collapsed ?m0). \<exists>n k. tag_name n \<and> k < ?n + 1 \<and> q = placeholder n (nat_digits k)"
    using assms(1) unfolding composer_inv_def keys_below_def by simp
  have a: "\<forall>n k. tag_name n \<longrightarrow> ?n + 1 \<le> k \<longrightarrow> absent (placeholder n (nat_digits k)) s"
    using assms(1) unfolding composer_inv_def numbers_free_def by simp
  have d: "CHR ''$'' \<notin> set s" using assms(1) by (simp add: composer_inv_def)
  note P = pass_step [OF assms(2) blocks k a d p]
  have "keys_below (globalCounter m' + 1) m'"
    unfolding keys_below_def g
  proof
    fix q assume "q \<in> fst ` set (collapsed m')"
    with P obtain n k where "tag_name n" "k < ?n + 1 \<or> ?n + 1 \<le> k \<and> k < ?n + 1 + length ?bs" "q = placeholder n (nat_digits k)"
      by blast
    then show "\<exists>n k. tag_name n \<and> k < ?n + length ?bs + 1 \<and> q = placeholder n (nat_digits k)"
      by (intro exI [of _ n] exI [of _ k]) auto
  qed
  moreover have "numbers_free (globalCounter m' + 1) s'"
    unfolding numbers_free_def g
  proof (intro allI impI)
    fix n k assume "tag_name n" "?n + length ?bs + 1 \<le> k"
    then show "absent (placeholder n (nat_digits k)) s'" using P a by auto
  qed
  ultimately show ?thesis using P by (simp add: composer_inv_def cp expandAll_def)
qed

text \<open>
  What a user can do with the keys: collapse the block at the caret, or all blocks. \<open>nests m s\<close> says that
  in every pass over \<open>s\<close> the innermost blocks lie side by side, as they do when tags nest.
\<close>

definition nests :: "collapse_state \<Rightarrow> string \<Rightarrow> bool" where
  "nests m s \<longleftrightarrow> (\<forall>k. disjoint_blocks (innermost (snd ((collapse_pass ^^ k) (m, s)))))"

inductive collapse_run :: "collapse_state \<times> string \<Rightarrow> collapse_state \<times> string \<Rightarrow> bool" for x where
  typed: "collapse_run x x"
| at_caret: "collapse_run x (m, s) \<Longrightarrow> collapseLocal m s c = Some (m', s', c') \<Longrightarrow> collapse_run x (m', s')"
| everything: "collapse_run x (m, s) \<Longrightarrow> nests m s \<Longrightarrow> collapse_run x (collapseAll m s)"

lemma collapseAll_inv:
  "composer_inv (m, s) \<Longrightarrow> nests m s \<Longrightarrow>
   composer_inv (collapseAll m s) \<and> expandAll (fst (collapseAll m s)) (snd (collapseAll m s)) = expandAll m s"
proof (induction m s rule: collapseAll.induct)
  case (1 m s)
  obtain m' s' where p: "collapse_pass (m, s) = (m', s')" by fastforce
  show ?case
  proof (cases "innermost s = []")
    case True
    with "1.prems" show ?thesis by (subst (1 2 3) collapseAll.simps) simp
  next
    case False
    have "disjoint_blocks (innermost s)" using "1.prems"(2) by (auto simp: nests_def dest: spec [of _ 0])
    from pass_inv [OF "1.prems"(1) this] p have P: "composer_inv (m', s')" "expandAll m' s' = expandAll m s" by auto
    have "nests m' s'"
      unfolding nests_def
    proof
      fix k
      have "(collapse_pass ^^ k) (m', s') = (collapse_pass ^^ Suc k) (m, s)" by (simp add: funpow_swap1 p)
      with "1.prems"(2) show "disjoint_blocks (innermost (snd ((collapse_pass ^^ k) (m', s'))))"
        unfolding nests_def by metis
    qed
    from "1.IH" [OF False p [symmetric] P(1) this] P(2) False p show ?thesis
      by (subst (1 2 3) collapseAll.simps) simp
  qed
qed

lemma run_inv:
  "collapse_run x y \<Longrightarrow> composer_inv x \<Longrightarrow> composer_inv y \<and> expandAll (fst y) (snd y) = expandAll (fst x) (snd x)"
proof (induction rule: collapse_run.induct)
  case (at_caret m s c m' s' c')
  then show ?case using local_step [of m s c m' s' c'] by simp
next
  case (everything m s)
  then show ?case using collapseAll_inv [of m s] by simp
qed simp

section \<open>Placeholders in a text\<close>

lemma tag_name_at_append:
  assumes "tag_name n" "r = [] \<or> \<not> tag_char (hd r)"
  shows "tag_name_at (n @ r) = Some n"
proof -
  from assms(1) obtain c t where n: "n = c # t" "ascii_letter c" "\<forall>x \<in> set t. tag_char x"
    by (cases n) (auto simp: tag_name_def)
  have "takeWhile tag_char (t @ r) = t" using n(3) assms(2) by (cases r) (auto simp: takeWhile_append2)
  with n show ?thesis by simp
qed

lemma COLLAPSED_at_placeholder:
  assumes "tag_name n"
  shows "COLLAPSED_at (placeholder n (nat_digits k) @ post) = Some (n, nat_digits k)"
proof -
  let ?r = "n @ ''...'' @ nat_digits k @ ''>'' @ post"
  have "\<not> tag_char (CHR ''.'')" "\<not> ascii_digit (CHR ''>'')"
    by (simp_all add: tag_char_def ascii_letter_def ascii_digit_def)
  then have "tag_name_at ?r = Some n" "takeWhile ascii_digit (drop (length n + 3) ?r) = nat_digits k"
    using tag_name_at_append [OF assms, of "''...'' @ nat_digits k @ ''>'' @ post"] nat_digits_ascii [of k]
    by (simp_all add: takeWhile_append2 numeral_3_eq_3)
  then show ?thesis
    using nat_digits_ascii [of k]
    by (auto simp: COLLAPSED_at_def placeholder_def starts_with_iff)
qed

lemma COLLAPSED_at_Some:
  "COLLAPSED_at s = Some (n, ds) \<Longrightarrow> bracketed (placeholder n ds) \<and> (\<exists>r. s = placeholder n ds @ r)"
proof -
  assume "COLLAPSED_at s = Some (n, ds)"
  then obtain c r where s: "s = c # r" "tag_name_at r = Some n" "starts_with (placeholder n ds) s"
    and ds: "ds = takeWhile ascii_digit (drop (length n + 3) r)"
    by (auto simp: COLLAPSED_at_def Let_def split: list.splits option.splits if_splits)
  have "\<forall>x \<in> set ds. ascii_digit x" unfolding ds by (auto dest: set_takeWhileD)
  moreover have "\<not> ascii_digit (CHR ''<'')" "\<not> ascii_digit (CHR ''>'')" by (simp_all add: ascii_digit_def)
  ultimately have "CHR ''<'' \<notin> set ds" "CHR ''>'' \<notin> set ds" by blast+
  then have "bracketed (placeholder n ds)"
    unfolding bracketed_def placeholder_def
    by (intro exI [of _ "n @ ''...'' @ ds"]) (use tag_name_plain [OF tag_name_at_Some [OF s(2)]] in auto)
  with s(3) show ?thesis by (auto simp: starts_with_iff)
qed

abbreviation collapsed_matches :: "nat \<Rightarrow> string \<Rightarrow> (nat \<times> string \<times> string) list" where
  "collapsed_matches i s \<equiv> matches_from i COLLAPSED_at (\<lambda>(n, ds). length (placeholder n ds)) s"

lemma matches_reach_placeholder:
  assumes "tag_name n"
  shows "\<exists>xs ys. collapsed_matches i (pre @ placeholder n (nat_digits k) @ post)
      = xs @ (i + length pre, n, nat_digits k) # ys
      \<and> (\<forall>(j, n', ds) \<in> set xs. j + length (placeholder n' ds) \<le> i + length pre)"
proof (induction "length pre" arbitrary: pre i rule: less_induct)
  case less
  let ?p = "placeholder n (nat_digits k)"
  show ?case
  proof (cases pre)
    case Nil
    have "?p \<noteq> []" by (simp add: placeholder_def)
    then obtain c t where ct: "?p @ post = c # t" by (cases ?p) auto
    have "COLLAPSED_at (c # t) = Some (n, nat_digits k)" using COLLAPSED_at_placeholder [OF assms, of k post] ct by simp
    then have step: "collapsed_matches i (c # t) = (i, n, nat_digits k)
        # collapsed_matches (i + max 1 (length ?p)) (drop (max 1 (length ?p)) (c # t))" (is "_ = _ # ?ys") by simp
    have "collapsed_matches i ([] @ ?p @ post) = [] @ (i + length ([] :: string), n, nat_digits k) # ?ys"
      unfolding append_Nil ct step by simp
    then show ?thesis unfolding Nil by (intro exI [of _ "[]"] exI [of _ ?ys]) simp
  next
    case (Cons c pre')
    show ?thesis
    proof (cases "COLLAPSED_at (pre @ ?p @ post)")
      case None
      from less.hyps [of pre' "i + 1"] Cons obtain xs ys where
        xs: "collapsed_matches (i + 1) (pre' @ ?p @ post) = xs @ (i + 1 + length pre', n, nat_digits k) # ys"
          "\<forall>(j, n', ds) \<in> set xs. j + length (placeholder n' ds) \<le> i + 1 + length pre'" by auto
      have "collapsed_matches i (pre @ ?p @ post) = collapsed_matches (i + 1) (pre' @ ?p @ post)"
        using None Cons by simp
      with xs Cons show ?thesis by (intro exI [of _ xs] exI [of _ ys]) simp
    next
      case (Some nd)
      obtain n' ds where nd: "nd = (n', ds)" by (cases nd)
      let ?q = "placeholder n' ds"
      from COLLAPSED_at_Some [OF Some [unfolded nd]] obtain r where
        q: "bracketed ?q" "pre @ ?p @ post = [] @ ?q @ r" by auto
      have "length ?q \<le> length pre"
        using bracketed_occurrence [OF placeholder_bracketed [OF assms] q] Cons bracketed_nth(1) [OF placeholder_bracketed [OF assms], of k]
        by auto
      then have d: "drop (length ?q) (pre @ ?p @ post) = drop (length ?q) pre @ ?p @ post" by simp
      have q1: "1 \<le> length ?q" by (simp add: placeholder_def)
      then have "length (drop (length ?q) pre) < length pre" using Cons by simp
      from less.hyps [OF this, of "i + length ?q"] obtain xs ys where
        xs: "collapsed_matches (i + length ?q) (drop (length ?q) pre @ ?p @ post)
            = xs @ (i + length ?q + length (drop (length ?q) pre), n, nat_digits k) # ys"
          "\<forall>(j, n', ds) \<in> set xs. j + length (placeholder n' ds) \<le> i + length ?q + length (drop (length ?q) pre)" by auto
      have step: "collapsed_matches i (pre @ ?p @ post)
          = (i, n', ds) # collapsed_matches (i + length ?q) (drop (length ?q) (pre @ ?p @ post))"
        using Some q1 by (simp add: nd Cons max_def)
      show ?thesis
        using \<open>length ?q \<le> length pre\<close> xs
        by (intro exI [of _ "(i, n', ds) # xs"] exI [of _ ys]) (auto simp only: step d, auto)
    qed
  qed
qed

text \<open>No match of the placeholder expression: no placeholder stands anywhere in the text.\<close>

lemma no_matches_absent: "collapsed_matches 0 s = [] \<Longrightarrow> tag_name n \<Longrightarrow> absent (placeholder n (nat_digits k)) s"
  unfolding absent_iff
proof (intro allI notI)
  fix a b assume none: "collapsed_matches 0 s = []" and tag: "tag_name n"
    and s: "s = a @ placeholder n (nat_digits k) @ b"
  from matches_reach_placeholder [OF tag, of 0 a k b] none show False unfolding s by fastforce
qed

lemma composer_inv_typed:
  "collapsed m = [] \<Longrightarrow> CHR ''$'' \<notin> set s \<Longrightarrow> collapsed_matches 0 s = [] \<Longrightarrow> composer_inv (m, s)"
  by (simp add: composer_inv_def keys_below_def numbers_free_def no_matches_absent)

text \<open>C20. Whatever blocks are collapsed one by one or all at once, submitting sends the text as it was
  typed: each number is used once, a block collapsed later may hold placeholders of earlier ones, and
  expanding in the reverse order of collapsing undoes them all. This holds of a text without a dollar sign
  and without a placeholder of its own, whose tags nest wherever all blocks are collapsed at once; without
  any one of the three it can fail (below).\<close>

theorem submit_sends_what_was_typed:
  assumes "collapse_run (m0, s) (m, t)" and "collapsed m0 = []"
    and "CHR ''$'' \<notin> set s"
    and "matches_from 0 COLLAPSED_at (\<lambda>(n, ds). length (placeholder n ds)) s = []"
  shows "expandBeforeSubmit m t = s"
proof -
  from composer_inv_typed [OF assms(2-4)] have "composer_inv (m0, s)" .
  from run_inv [OF assms(1) this] have "expandAll m t = expandAll m0 s" by simp
  moreover have "expandAll m0 s = s" "collapsed m = [] \<Longrightarrow> expandAll m t = t"
    using assms(2) by (simp_all add: expandAll_def)
  ultimately show ?thesis by (simp add: expandBeforeSubmit_def)
qed

section \<open>Collapsing and expanding one block\<close>

lemma first_hit:
  fixes d :: "'a \<Rightarrow> nat" and g :: "'a \<Rightarrow> 'b"
  assumes "\<forall>x \<in> set xs. 0 < d x" and "d y = 0"
  shows "foldl (\<lambda>best x. case best of None \<Rightarrow> Some (d x, g x)
      | Some (bd, _) \<Rightarrow> if d x < bd then Some (d x, g x) else best) None (xs @ y # ys) = Some (0, g y)"
proof -
  let ?f = "\<lambda>best x. case best of None \<Rightarrow> Some (d x, g x) | Some (bd, _) \<Rightarrow> if d x < bd then Some (d x, g x) else best"
  have stay: "foldl ?f (Some (0, z)) ys = Some (0, z)" for z
    by (induction ys) auto
  let ?P = "\<lambda>b :: (nat \<times> 'b) option. \<forall>v. b = Some v \<longrightarrow> 0 < fst v"
  have pos: "?P b \<Longrightarrow> ?P (foldl ?f b xs)" for b
    using assms(1)
  proof (induction xs arbitrary: b)
    case (Cons x xs)
    then have "?P (?f b x)" by (cases b) (auto split: if_splits)
    with Cons show ?case by simp
  qed simp
  have "?f (foldl ?f None xs) y = Some (0, g y)"
    using pos [of None] assms(2) by (auto split: option.splits)
  with stay show ?thesis by simp
qed

text \<open>Expanding right where a block was collapsed gives the text back, whatever the text holds.\<close>

lemma expand_undoes_collapse:
  assumes "collapseLocal m s c = Some (m', s', c')"
  shows "\<exists>b. findEnclosingBlock s c = Some b \<and> expandLocal m' s' c' = Some (s, b_end b)"
proof -
  let ?i = "globalCounter m + 1"
  from assms obtain b where b: "findEnclosingBlock s c = Some b"
    and sw: "swap_block ?i b (m\<lparr>globalCounter := ?i\<rparr>, s) = (m', s')"
    and c': "c' = b_start b + length (placeholder (tagName b) (nat_digits ?i))"
    by (auto simp: collapseLocal_def Let_def split: option.splits prod.splits)
  let ?p = "placeholder (tagName b) (nat_digits ?i)"
  note blk = enclosing_block [OF b]
  note B = block_slice [OF blk] and tag = block_tag [OF blk]
  let ?pre = "take (b_start b) s" and ?post = "drop (b_end b) s"
  have len: "length ?pre = b_start b" using B(2,3) by simp
  have s': "s' = ?pre @ ?p @ ?post" and m': "map_of (collapsed m') ?p = Some (fullMatch b)"
    using sw by (auto simp: swap_block_def Let_def update_conv')
  from matches_reach_placeholder [OF tag, of 0 ?pre ?i ?post, unfolded len s' [symmetric] add_0] obtain xs ys where
    M: "collapsed_matches 0 s' = xs @ (b_start b, tagName b, nat_digits ?i) # ys"
      "\<forall>(j, n', ds) \<in> set xs. j + length (placeholder n' ds) \<le> b_start b" by blast
  let ?d = "\<lambda>x. placeholder_dist c' (fst x) (fst x + length (placeholder (fst (snd x)) (snd (snd x))))"
  let ?g = "\<lambda>x. (fst x, placeholder (fst (snd x)) (snd (snd x)))"
  have p1: "1 \<le> length ?p" by (simp add: placeholder_def)
  have "\<forall>x \<in> set xs. 0 < ?d x" using M(2) p1 by (auto simp: placeholder_dist_def c')
  moreover have "?d (b_start b, tagName b, nat_digits ?i) = 0" by (simp add: placeholder_dist_def c')
  ultimately have "foldl (\<lambda>best x. case best of None \<Rightarrow> Some (?d x, ?g x)
      | Some (bd, _) \<Rightarrow> if ?d x < bd then Some (?d x, ?g x) else best) None (collapsed_matches 0 s')
      = Some (0, b_start b, ?p)" unfolding M(1) by (subst first_hit) auto
  then have "findEnclosingCollapsed s' c' = Some (b_start b, ?p)"
    unfolding findEnclosingCollapsed_def Let_def by (simp add: case_prod_unfold)
  moreover have "fullMatch b \<noteq> []" using findAllBlocks_sound [OF blk] by (auto simp: openTag_def)
  moreover have "?pre @ fullMatch b @ ?post = s"
    using B by (metis append_take_drop_id drop_drop le_add_diff_inverse2 slice_def)
  moreover have "b_start b + length (fullMatch b) = b_end b"
    using B by (metis findAllBlocks_sound [OF blk])
  moreover have "drop (b_start b + length ?p) s' = ?post" "take (b_start b) s' = ?pre"
    using len by (simp_all add: s')
  ultimately show ?thesis using b m' by (simp add: expandLocal_def)
qed

section \<open>Text that is lost\<close>

text \<open>C21. Expanding all reads the collapsed text as a replacement pattern, so text is lost: when the block at
  the caret holds two dollar signs in a row and no other one, and is collapsed and sent, one of the two is
  missing from what is sent; everything else of the text is sent as it was typed.\<close>

theorem collapse_can_lose_text:
  assumes "collapseLocal m0 s c = Some (m, t, c')" and "collapsed m0 = []"
    and "matches_from 0 COLLAPSED_at (\<lambda>(n, ds). length (placeholder n ds)) s = []"
    and "findEnclosingBlock s c = Some b" and "fullMatch b = u @ ''$$'' @ v"
    and "CHR ''$'' \<notin> set u" and "CHR ''$'' \<notin> set v"
  shows "s = take (b_start b) s @ u @ ''$$'' @ v @ drop (b_end b) s
    \<and> expandBeforeSubmit m t = take (b_start b) s @ u @ ''$'' @ v @ drop (b_end b) s"
proof -
  let ?p = "placeholder (tagName b) (nat_digits (globalCounter m0 + 1))"
  have blk: "b \<in> set (findAllBlocks s)" using enclosing_block [OF assms(4)] .
  note B = block_slice [OF blk] and tag = block_tag [OF blk]
  have s: "s = take (b_start b) s @ fullMatch b @ drop (b_end b) s"
    using B by (metis append_take_drop_id drop_drop le_add_diff_inverse2 slice_def)
  have m: "collapsed m = [(?p, fullMatch b)]" and t: "t = take (b_start b) s @ ?p @ drop (b_end b) s"
    using assms(1,2,4) by (auto simp: collapseLocal_def swap_block_def Let_def)
  have "absent ?p (take (b_start b) s) \<and> absent ?p (drop (b_end b) s)"
    using absent_parts no_matches_absent [OF assms(3) tag] by (metis s)
  then have "replace_all ?p (fullMatch b) [] t = take (b_start b) s @ u @ ''$'' @ v @ drop (b_end b) s"
    unfolding t using subst_two_dollars [OF assms(6,7)]
    by (simp add: replace_all_one [OF placeholder_bracketed [OF tag]] assms(5))
  with s m show ?thesis by (simp add: expandBeforeSubmit_def expandAll_def assms(5))
qed

lemma collapse_can_lose_text_witness:
  "expandBeforeSubmit \<lparr>collapsed = [(''<a...1>'', ''<a>$$</a>'')], globalCounter = 1\<rparr> ''pay <a...1>''
     = ''pay <a>$</a>''"
proof -
  let ?s = "''pay <a>$$</a>''" and ?m0 = "\<lparr>collapsed = [], globalCounter = 0\<rparr>"
  have local: "collapseLocal ?m0 ?s 8
      = Some (\<lparr>collapsed = [(''<a...1>'', ''<a>$$</a>'')], globalCounter = 1\<rparr>, ''pay <a...1>'', 11)"
    and none: "matches_from 0 COLLAPSED_at (\<lambda>(n, ds). length (placeholder n ds)) ?s = []"
    and block: "findEnclosingBlock ?s 8
      = Some \<lparr>b_start = 4, b_end = 13, tagName = ''a'', fullMatch = ''<a>$$</a>''\<rparr>" by code_simp+
  from collapse_can_lose_text [OF local _ none block, of "''<a>''" "''</a>''"] show ?thesis by simp
qed

text \<open>Of two blocks whose tags cross, the tail of the second is lost; and a placeholder that was typed takes
  the text of the block that gets its number.\<close>

lemma crossing_tags_lose_the_tail:
  "(case collapseAll \<lparr>collapsed = [], globalCounter = 0\<rparr> ''<a><b></a></b>'' of
      (m, t) \<Rightarrow> expandBeforeSubmit m t = ''<a><b></a>'')"
  by code_simp

lemma typed_placeholder_is_filled_in:
  "(case collapseAll \<lparr>collapsed = [], globalCounter = 0\<rparr> ''<a>x</a> <a...1>'' of
      (m, t) \<Rightarrow> expandBeforeSubmit m t = ''<a>x</a> <a>x</a>'')"
  by code_simp

text \<open>Small inputs.\<close>

lemma nests_step:
  "disjoint_blocks (innermost s) \<Longrightarrow> collapse_pass (m, s) = (m', s') \<Longrightarrow> nests m' s' \<Longrightarrow> nests m s"
  unfolding nests_def
proof
  fix k assume a: "disjoint_blocks (innermost s)" "collapse_pass (m, s) = (m', s')"
    "\<forall>k. disjoint_blocks (innermost (snd ((collapse_pass ^^ k) (m', s'))))"
  show "disjoint_blocks (innermost (snd ((collapse_pass ^^ k) (m, s))))"
  proof (cases k)
    case (Suc j)
    with a(2,3) show ?thesis by (simp add: funpow_swap1)
  qed (use a(1) in simp)
qed

lemma nests_done:
  assumes "innermost s = []" shows "nests m s"
proof -
  have "(collapse_pass ^^ k) (m, s) = (m, s)" for k
    by (induction k) (simp_all add: collapse_pass_def assms)
  then show ?thesis by (simp add: nests_def assms disjoint_blocks_def)
qed

theorem submit_sends_what_was_typed_witness:
  "expandBeforeSubmit \<lparr>collapsed = [(''<b...1>'', ''<b>y</b>''), (''<c...3>'', ''<c>z</c>''),
       (''<a...2>'', ''<a>x<b...1></a>'')], globalCounter = 3\<rparr> ''<a...2><c...3>''
   = ''<a>x<b>y</b></a><c>z</c>''"
proof (rule submit_sends_what_was_typed)
  let ?s = "''<a>x<b>y</b></a><c>z</c>''" and ?m0 = "\<lparr>collapsed = [], globalCounter = 0\<rparr>"
  let ?m1 = "\<lparr>collapsed = [(''<b...1>'', ''<b>y</b>'')], globalCounter = 1\<rparr>" and ?s1 = "''<a>x<b...1></a><c>z</c>''"
  let ?m2 = "\<lparr>collapsed = [(''<b...1>'', ''<b>y</b>''), (''<c...3>'', ''<c>z</c>''),
       (''<a...2>'', ''<a>x<b...1></a>'')], globalCounter = 3\<rparr>" and ?s2 = "''<a...2><c...3>''"
  have "collapseLocal ?m0 ?s 7 = Some (?m1, ?s1, 11)" by code_simp
  then have "collapse_run (?m0, ?s) (?m1, ?s1)" by (rule collapse_run.at_caret [OF collapse_run.typed])
  moreover have "nests ?m1 ?s1"
  proof (rule nests_step)
    show "disjoint_blocks (innermost ?s1)" by code_simp
    show "collapse_pass (?m1, ?s1) = (?m2, ?s2)" by code_simp
    have "innermost ?s2 = []" by code_simp
    then show "nests ?m2 ?s2" by (rule nests_done)
  qed
  moreover have "collapseAll ?m1 ?s1 = (?m2, ?s2)" by code_simp
  ultimately show "collapse_run (?m0, ?s) (?m2, ?s2)" by (metis collapse_run.everything)
  show "matches_from 0 COLLAPSED_at (\<lambda>(n, ds). length (placeholder n ds)) ?s = []" by code_simp
qed simp_all

end
