(* ===== verification/TextKeys.thy ===== *)
theory TextKeys
  imports BlockCollapseFacts
begin

text \<open>
  The key handler that the composer and the reply boxes share
  (\<open>chat-input/hooks/useTextEditingKeys.js\<close>): which key runs which transform on the text, the selection
  and the collapse manager. \<open>applyResult\<close> is the outcome's text with its selection, \<open>None\<close> where the
  handler leaves the selection to the browser.
\<close>

record key_event =
  key_name :: string
  shiftKey :: bool
  altKey :: bool
  ctrlKey :: bool
  metaKey :: bool

record key_outcome =
  handled :: bool
  applied :: "(string \<times> (nat \<times> nat) option) option"
  manager_after :: collapse_state
  interrupts :: bool

definition applied_edit :: "edit \<Rightarrow> (string \<times> (nat \<times> nat) option) option" where
  "applied_edit e = Some (ed_value e, Some (selStart e, selEnd e))"

definition mod_key :: "key_event \<Rightarrow> bool" where
  "mod_key ev \<longleftrightarrow> ctrlKey ev \<or> metaKey ev"

definition handleTextKey ::
  "collapse_state \<Rightarrow> string \<Rightarrow> nat \<Rightarrow> nat \<Rightarrow> bool \<Rightarrow> key_event \<Rightarrow> key_outcome" where
  "handleTextKey m s a b canInterrupt ev =
     (let out = (\<lambda>ap m'. \<lparr>handled = True, applied = ap, manager_after = m', interrupts = False\<rparr>)
      in if key_name ev = ''Tab'' then
           out (Option.bind (tabKey s a b (shiftKey ev)) applied_edit) m
         else if key_name ev = ''Enter'' \<and> shiftKey ev \<and> \<not> altKey ev then
           out (applied_edit (shiftEnter s a)) m
         else if key_name ev = ''.'' \<and> mod_key ev then
           (out None m)\<lparr>interrupts := canInterrupt\<rparr>
         else if key_name ev = '','' \<and> mod_key ev then
           out (applied_edit (wrapInTags s a b)) m
         else if (key_name ev = [CHR 0x27] \<or> key_name ev = [CHR 0x22]) \<and> mod_key ev then
           (if key_name ev = [CHR 0x22]
            then (case collapseAll m s of (m', s') \<Rightarrow> out (Some (s', None)) m')
            else (case collapseLocal m s a of
                    None \<Rightarrow> out None m
                  | Some (m', s', c) \<Rightarrow> out (Some (s', Some (c, c))) m'))
         else if (key_name ev = [CHR 0x5C] \<or> key_name ev = ''|'') \<and> mod_key ev then
           (if key_name ev = ''|'' then out (Some (expandAll m s, None)) m
            else (case expandLocal m s a of
                    None \<Rightarrow> out None m
                  | Some (s', c) \<Rightarrow> out (Some (s', Some (c, c))) m))
         else (case (case key_name ev of [k] \<Rightarrow> wrapPair s a b k | _ \<Rightarrow> None) of
                 Some e \<Rightarrow> out (applied_edit e) m
               | None \<Rightarrow> \<lparr>handled = False, applied = None, manager_after = m, interrupts = False\<rparr>))"

text \<open>The key that collapses the block at the caret and then, at the caret it leaves, the key that expands:
  both are handled, and the text is the one before, with the caret behind the block.\<close>

theorem collapse_key_then_expand_key:
  assumes "collapseLocal m s a \<noteq> None"
    and "key_name ev = [CHR 0x27]" "mod_key ev" and "key_name ev' = [CHR 0x5C]" "mod_key ev'"
  shows "\<exists>m' s' c b. handleTextKey m s a e ci ev
      = \<lparr>handled = True, applied = Some (s', Some (c, c)), manager_after = m', interrupts = False\<rparr>
    \<and> findEnclosingBlock s a = Some b
    \<and> handleTextKey m' s' c c ci ev'
      = \<lparr>handled = True, applied = Some (s, Some (b_end b, b_end b)), manager_after = m', interrupts = False\<rparr>"
proof -
  from assms(1) obtain m' s' c where c: "collapseLocal m s a = Some (m', s', c)" by auto
  from expand_undoes_collapse [OF this] obtain b where
    b: "findEnclosingBlock s a = Some b" "expandLocal m' s' c = Some (s, b_end b)" by blast
  have "handleTextKey m s a e ci ev
      = \<lparr>handled = True, applied = Some (s', Some (c, c)), manager_after = m', interrupts = False\<rparr>"
    using c assms(2,3) by (simp add: handleTextKey_def)
  moreover have "handleTextKey m' s' c c ci ev'
      = \<lparr>handled = True, applied = Some (s, Some (b_end b, b_end b)), manager_after = m', interrupts = False\<rparr>"
    using b(2) assms(4,5) by (simp add: handleTextKey_def)
  ultimately show ?thesis using b(1) by blast
qed

definition key_press :: "string \<Rightarrow> key_event" where
  "key_press k = \<lparr>key_name = k, shiftKey = False, altKey = False, ctrlKey = True, metaKey = False\<rparr>"

theorem collapse_key_then_expand_key_witness:
  "\<exists>m' s' c b. handleTextKey \<lparr>collapsed = [], globalCounter = 0\<rparr> ''<a>x<b>$$</b></a>'' 8 8 True (key_press [CHR 0x27])
      = \<lparr>handled = True, applied = Some (s', Some (c, c)), manager_after = m', interrupts = False\<rparr>
    \<and> findEnclosingBlock ''<a>x<b>$$</b></a>'' 8 = Some b
    \<and> handleTextKey m' s' c c True (key_press [CHR 0x5C])
      = \<lparr>handled = True, applied = Some (''<a>x<b>$$</b></a>'', Some (b_end b, b_end b)), manager_after = m',
         interrupts = False\<rparr>"
  by (rule collapse_key_then_expand_key) code_simp+

end
