(* ===== verification/UrlPaths.thy ===== *)
theory UrlPaths
  imports Prelude
begin

text \<open>
  Resolution of the links and images of a message (\<open>utils/relativeUrl.js\<close>): a relative URL is joined to
  a base directory and kept only while it stays inside it. A string of this theory is the UTF-8 encoding
  of the JavaScript string, so that the percent escapes can be followed byte by byte; every cut is at an
  ASCII character. An absent or null string is \<open>None\<close>.
\<close>

section \<open>Percent escapes\<close>

definition ascii_alpha :: "char \<Rightarrow> bool" where
  "ascii_alpha c = (let n = of_char c :: nat in (65 \<le> n \<and> n \<le> 90) \<or> (97 \<le> n \<and> n \<le> 122))"

definition ascii_alnum :: "char \<Rightarrow> bool" where
  "ascii_alnum c = (ascii_alpha c \<or> (let n = of_char c :: nat in 48 \<le> n \<and> n \<le> 57))"

definition hex_value :: "char \<Rightarrow> nat option" where
  "hex_value c = (let n = of_char c :: nat in
     if 48 \<le> n \<and> n \<le> 57 then Some (n - 48)
     else if 65 \<le> n \<and> n \<le> 70 then Some (n - 55)
     else if 97 \<le> n \<and> n \<le> 102 then Some (n - 87)
     else None)"

definition hex_digit :: "nat \<Rightarrow> char" where
  "hex_digit n = char_of (if n < 10 then 48 + n else 55 + n)"

text \<open>\<open>encodeURIComponent\<close>: all but the unreserved marks is escaped, byte by byte.\<close>

definition encode_char :: "char \<Rightarrow> string" where
  "encode_char c = (if ascii_alnum c \<or> c \<in> set ''-_.!~*()'' \<or> c = CHR 0x27 then [c]
     else let n = of_char c :: nat in [CHR ''%'', hex_digit (n div 16), hex_digit (n mod 16)])"

definition encodeURIComponent :: "string \<Rightarrow> string" where
  "encodeURIComponent s = concat (map encode_char s)"

text \<open>One \<open>%XX\<close> and the text after it.\<close>

fun escape :: "string \<Rightarrow> (nat \<times> string) option" where
  "escape (p # a # b # s) =
     (if p = CHR ''%''
      then case (hex_value a, hex_value b) of (Some x, Some y) \<Rightarrow> Some (16 * x + y, s) | _ \<Rightarrow> None
      else None)"
| "escape _ = None"

text \<open>
  The ranges the escapes after a first byte must lie in, for the byte sequences that are well-formed
  UTF-8; \<open>None\<close> for a byte that starts none.
\<close>

definition trailing :: "nat \<Rightarrow> (nat \<times> nat) list option" where
  "trailing b =
     (if b < 0x80 then Some []
      else if 0xC2 \<le> b \<and> b \<le> 0xDF then Some [(0x80, 0xBF)]
      else if b = 0xE0 then Some [(0xA0, 0xBF), (0x80, 0xBF)]
      else if b = 0xED then Some [(0x80, 0x9F), (0x80, 0xBF)]
      else if 0xE1 \<le> b \<and> b \<le> 0xEF then Some [(0x80, 0xBF), (0x80, 0xBF)]
      else if b = 0xF0 then Some [(0x90, 0xBF), (0x80, 0xBF), (0x80, 0xBF)]
      else if 0xF1 \<le> b \<and> b \<le> 0xF3 then Some [(0x80, 0xBF), (0x80, 0xBF), (0x80, 0xBF)]
      else if b = 0xF4 then Some [(0x80, 0x8F), (0x80, 0xBF), (0x80, 0xBF)]
      else None)"

fun octets :: "(nat \<times> nat) list \<Rightarrow> string \<Rightarrow> (string \<times> string) option" where
  "octets [] s = Some ([], s)"
| "octets ((lo, hi) # rs) s =
     (case escape s of
        Some (b, r) \<Rightarrow>
          if lo \<le> b \<and> b \<le> hi then map_option (\<lambda>(bs, r'). (char_of b # bs, r')) (octets rs r) else None
      | None \<Rightarrow> None)"

definition escaped_char :: "string \<Rightarrow> (string \<times> string) option" where
  "escaped_char s = (case escape s of
     None \<Rightarrow> None
   | Some (b, r) \<Rightarrow>
       (case trailing b of
          None \<Rightarrow> None
        | Some rs \<Rightarrow> map_option (\<lambda>(bs, r'). (char_of b # bs, r')) (octets rs r)))"

lemma escape_shorter: "escape s = Some (b, r) \<Longrightarrow> length r < length s"
  by (cases s rule: escape.cases) (auto split: if_splits option.splits)

lemma octets_shorter: "octets rs s = Some (bs, r) \<Longrightarrow> length r \<le> length s"
proof (induction rs s arbitrary: bs r rule: octets.induct)
  case (2 lo hi rs s)
  then show ?case
    by (auto split: option.splits if_splits dest!: escape_shorter) (use less_imp_le_nat order.trans in blast)
qed simp

lemma escaped_char_shorter: "escaped_char s = Some (bs, r) \<Longrightarrow> length r < length s"
  by (auto simp: escaped_char_def split: option.splits dest!: escape_shorter octets_shorter)

text \<open>\<open>decodeURIComponent\<close>; \<open>None\<close> where it throws.\<close>

function decodeURIComponent :: "string \<Rightarrow> string option" where
  "decodeURIComponent [] = Some []"
| "decodeURIComponent (c # cs) =
     (if c = CHR ''%''
      then case escaped_char (c # cs) of
             None \<Rightarrow> None
           | Some (bs, r) \<Rightarrow> map_option ((@) bs) (decodeURIComponent r)
      else map_option ((#) c) (decodeURIComponent cs))"
  by pat_completeness auto
termination
  by (relation "measure length") (auto dest: escaped_char_shorter)

section \<open>Paths\<close>

text \<open>\<open>normalize\<close>: the loop over the segments, with the parts kept so far as a stack.\<close>

fun norm_parts :: "string list \<Rightarrow> string list \<Rightarrow> string list option" where
  "norm_parts parts [] = Some parts"
| "norm_parts parts (seg # segs) =
     (if seg = ''..'' then (case parts of [] \<Rightarrow> None | _ # rest \<Rightarrow> norm_parts rest segs)
      else if seg \<noteq> [] \<and> seg \<noteq> ''.'' then norm_parts (seg # parts) segs
      else norm_parts parts segs)"

definition normalize_path :: "string \<Rightarrow> string option" where
  "normalize_path path =
     map_option (\<lambda>parts. ''/'' @ intercalate ''/'' (rev parts)) (norm_parts [] (split_char (CHR ''/'') path))"

text \<open>A possibly null value in a template string.\<close>

definition in_template :: "string option \<Rightarrow> string" where
  "in_template x = (case x of None \<Rightarrow> ''null'' | Some s \<Rightarrow> s)"

text \<open>\<open>/^[a-zA-Z][a-zA-Z0-9+.-]*:/\<close>\<close>

definition has_scheme :: "string \<Rightarrow> bool" where
  "has_scheme s = (case s of
     [] \<Rightarrow> False
   | c # cs \<Rightarrow> ascii_alpha c \<and>
       (case dropWhile (\<lambda>d. ascii_alnum d \<or> d \<in> set ''+.-'') cs of [] \<Rightarrow> False | d # _ \<Rightarrow> d = CHR '':''))"

text \<open>
  \<open>url.replace(/[?#].*$/, '')\<close>: the dot stops at a line break, so only a mark in the last line counts.
\<close>

fun strip_query :: "string \<Rightarrow> string" where
  "strip_query [] = []"
| "strip_query (c # cs) = (if (c = CHR ''?'' \<or> c = CHR ''#'') \<and> \<not> list_ex js_newline cs then [] else c # strip_query cs)"

definition decodePath :: "string \<Rightarrow> string option" where
  "decodePath url = (let path = strip_query url in if path = [] then None else decodeURIComponent path)"

definition isRelativeUrl :: "string option \<Rightarrow> bool" where
  "isRelativeUrl url = (case url of
     None \<Rightarrow> False
   | Some u \<Rightarrow> u \<noteq> [] \<and> \<not> has_scheme u \<and> \<not> starts_with ''/'' u \<and> \<not> starts_with ''#'' u)"

record resolved =
  absolute :: string
  relative :: string

definition resolveRelative :: "string option \<Rightarrow> string option \<Rightarrow> resolved option" where
  "resolveRelative url baseDir =
     (if \<not> nonempty url \<or> \<not> nonempty baseDir \<or> has_scheme (the url) \<or> starts_with ''/'' (the url)
         \<or> starts_with ''#'' (the url) then None
      else if \<not> nonempty (decodePath (the url)) then None
      else
        let decoded = the (decodePath (the url));
            base = in_template (normalize_path (the baseDir))
        in case normalize_path (base @ ''/'' @ decoded) of
             None \<Rightarrow> None
           | Some path \<Rightarrow>
               if \<not> starts_with (base @ ''/'') path then None
               else Some \<lparr>absolute = path, relative = drop (length base + 1) path\<rparr>)"

definition resolveTempImage :: "string option \<Rightarrow> string option" where
  "resolveTempImage url = (case url of
     None \<Rightarrow> None
   | Some u \<Rightarrow>
       if \<not> starts_with ''/tmp/'' u then None
       else case decodePath u of
              None \<Rightarrow> None
            | Some decoded \<Rightarrow>
                (case (if decoded = [] then None else normalize_path decoded) of
                   None \<Rightarrow> None
                 | Some path \<Rightarrow> if starts_with ''/tmp/'' path then Some path else None))"

definition pathBelow :: "string \<Rightarrow> string \<Rightarrow> string option" where
  "pathBelow path dir = (let base = in_template (normalize_path dir) in
     if starts_with (base @ ''/'') path then Some (drop (length base + 1) path) else None)"

text \<open>Text before the last slash; the path always has one.\<close>

definition before_last_slash :: "string \<Rightarrow> string" where
  "before_last_slash s = (case dropWhile (\<lambda>c. c \<noteq> CHR ''/'') (rev s) of [] \<Rightarrow> butlast s | _ # r \<Rightarrow> rev r)"

definition fileFolder :: "string \<Rightarrow> string option \<Rightarrow> string option" where
  "fileFolder filePath workspaceDir =
     (let start = (if starts_with ''/'' filePath then Some filePath
                   else if nonempty workspaceDir then Some (the workspaceDir @ ''/'' @ filePath) else None)
      in case start of
           None \<Rightarrow> None
         | Some a \<Rightarrow>
             map_option (\<lambda>path. let d = before_last_slash path in if d = [] then ''/'' else d) (normalize_path a))"

section \<open>What an image loads\<close>

record image_scope =
  baseDir :: "string option"
  workspaceDir :: "string option"
  sessionId :: "string option"

text \<open>The result: \<open>undefined\<close> loads the source as written, \<open>null\<close> must not load, a string is a query.\<close>

datatype image_load = AsWritten | NotLoaded | Query string

definition imageEndpointQuery :: "string option \<Rightarrow> image_scope \<Rightarrow> image_load" where
  "imageEndpointQuery src scope =
     (case resolveTempImage src of
        Some temp \<Rightarrow>
          if nonempty (sessionId scope) \<and> baseDir scope \<noteq> None
          then Query (''path='' @ encodeURIComponent temp @ ''&session='' @ encodeURIComponent (the (sessionId scope)))
          else AsWritten
      | None \<Rightarrow>
          if \<not> (nonempty (baseDir scope) \<and> nonempty (workspaceDir scope) \<and> isRelativeUrl src) then AsWritten
          else case resolveRelative src (baseDir scope) of
                 None \<Rightarrow> NotLoaded
               | Some r \<Rightarrow>
                   (case pathBelow (absolute r) (the (workspaceDir scope)) of
                      None \<Rightarrow> NotLoaded
                    | Some rel \<Rightarrow> if rel = [] then NotLoaded else Query (''path='' @ encodeURIComponent rel)))"

text \<open>
  \<open>webPageUrl\<close> and \<open>resolveWebUrl\<close>: \<open>parse\<close> is the browser's \<open>new URL(url, base)\<close>, the protocol and the
  serialised address, \<open>None\<close> where it throws.
\<close>

definition webPageUrl :: "(string \<Rightarrow> string option \<Rightarrow> (string \<times> string) option) \<Rightarrow> string \<Rightarrow> string option" where
  "webPageUrl parse url = (case parse url None of
     None \<Rightarrow> None
   | Some (protocol, _) \<Rightarrow> if protocol \<in> set [''http:'', ''https:''] then Some url else None)"

definition resolveWebUrl ::
  "(string \<Rightarrow> string option \<Rightarrow> (string \<times> string) option) \<Rightarrow> string \<Rightarrow> string \<Rightarrow> string option" where
  "resolveWebUrl parse url pageUrl = (case parse url (Some pageUrl) of
     None \<Rightarrow> None
   | Some (protocol, href) \<Rightarrow> if protocol = ''http:'' \<or> protocol = ''https:'' then Some href else None)"

end
