(* ===== verification/SessionRouting.thy ===== *)
theory SessionRouting
  imports UrlPaths Bookmarks
begin

text \<open>
  The route in the URL's hash: the parser and the segment builder of \<open>context/utils/sessionRouting.js\<close>,
  the links of \<open>utils/navigation.js\<close>, and the navigation of \<open>context/SessionRoutingContext.jsx\<close> as steps
  on the hash, the route state and the queued \<open>hashchange\<close> events. A string is a UTF-8 encoding, as in
  \<open>UrlPaths\<close>. The path patterns are matched segment by segment: none of their classes holds a slash.
\<close>

section \<open>Search parameters\<close>

text \<open>
  What the code uses of \<open>URLSearchParams\<close>: the form decoding of names and values (a byte sequence that is
  not UTF-8 is kept as it is), \<open>get\<close>, \<open>getAll\<close>, \<open>set\<close>, \<open>delete\<close> and \<open>toString\<close>.
\<close>

function form_decode :: "string \<Rightarrow> string" where
  "form_decode [] = []"
| "form_decode (c # cs) =
     (if c = CHR ''+'' then CHR '' '' # form_decode cs
      else case escape (c # cs) of
             Some (b, r) \<Rightarrow> char_of b # form_decode r
           | None \<Rightarrow> c # form_decode cs)"
  by pat_completeness auto
termination
  by (relation "measure length") (auto dest: escape_shorter)

definition form_encode_char :: "char \<Rightarrow> string" where
  "form_encode_char c = (if ascii_alnum c \<or> c \<in> set ''*-._'' then [c]
     else if c = CHR '' '' then ''+''
     else let n = of_char c :: nat in [CHR ''%'', hex_digit (n div 16), hex_digit (n mod 16)])"

definition form_encode :: "string \<Rightarrow> string" where
  "form_encode s = concat (map form_encode_char s)"

definition name_value :: "string \<Rightarrow> string \<times> string" where
  "name_value p = (let name = takeWhile (\<lambda>c. c \<noteq> CHR ''='') p
     in (form_decode name, form_decode (drop (length name + 1) p)))"

definition search_params :: "string \<Rightarrow> (string \<times> string) list" where
  "search_params s =
     map name_value (filter (\<lambda>p. p \<noteq> []) (split_char (CHR ''&'') (if starts_with ''?'' s then drop 1 s else s)))"

definition params_string :: "(string \<times> string) list \<Rightarrow> string" where
  "params_string ps = intercalate ''&'' (map (\<lambda>(n, v). form_encode n @ ''='' @ form_encode v) ps)"

definition params_getAll :: "(string \<times> string) list \<Rightarrow> string \<Rightarrow> string list" where
  "params_getAll ps k = map snd (filter (\<lambda>(n, _). n = k) ps)"

definition params_delete :: "(string \<times> string) list \<Rightarrow> string \<Rightarrow> (string \<times> string) list" where
  "params_delete ps k = filter (\<lambda>(n, _). n \<noteq> k) ps"

fun params_set :: "(string \<times> string) list \<Rightarrow> string \<Rightarrow> string \<Rightarrow> (string \<times> string) list" where
  "params_set [] k v = [(k, v)]"
| "params_set ((n, w) # ps) k v = (if n = k then (k, v) # params_delete ps k else (n, w) # params_set ps k v)"

section \<open>The parser\<close>

definition workspace_char :: "char \<Rightarrow> bool" where
  "workspace_char c \<longleftrightarrow> key_char c \<or> c = CHR ''.''"

definition is_workspace :: "string \<Rightarrow> bool" where
  "is_workspace s \<longleftrightarrow> s \<noteq> [] \<and> list_all workspace_char s"

definition is_id :: "string \<Rightarrow> bool" where
  "is_id s \<longleftrightarrow> s \<noteq> [] \<and> list_all key_char s"

text \<open>\<open>(?:p|tool)-[a-zA-Z0-9_-]+\<close>\<close>

definition is_part :: "string \<Rightarrow> bool" where
  "is_part s \<longleftrightarrow> (starts_with ''p-'' s \<and> is_id (drop 2 s)) \<or> (starts_with ''tool-'' s \<and> is_id (drop 5 s))"

record route =
  rt_workspaceId :: string
  rt_sessionId :: "string option"
  rt_boardId :: "string option"
  rt_turnId :: "string option"
  rt_messageType :: "string option"
  rt_target :: "string option"
  rt_density :: string
  rt_sendMessages :: "string list"

text \<open>The groups of the session pattern: workspace, session, role and turn, part.\<close>

datatype path_match =
    Board string string
  | Session string "string option" "(string \<times> string) option" "string option"

definition match_turn :: "string \<Rightarrow> (string \<times> string) option" where
  "match_turn s = (if (starts_with ''u-'' s \<or> starts_with ''a-'' s) \<and> is_id (drop 2 s)
     then Some (take 1 s, drop 2 s) else None)"

fun match_segments :: "string list \<Rightarrow> path_match option" where
  "match_segments [h, k, w] =
     (if h = ''#'' \<and> k = ''workspaces'' \<and> is_workspace w then Some (Session w None None None) else None)"
| "match_segments [h, k, w, k2, i] =
     (if h = ''#'' \<and> k = ''workspaces'' \<and> is_workspace w
      then if k2 = ''boards'' \<and> is_workspace i then Some (Board w i)
           else if k2 = ''sessions'' \<and> is_id i then Some (Session w (Some i) None None)
           else None
      else None)"
| "match_segments [h, k, w, k2, i, k3, t] =
     (if h = ''#'' \<and> k = ''workspaces'' \<and> is_workspace w \<and> k2 = ''sessions'' \<and> is_id i \<and> k3 = ''turns''
      then map_option (\<lambda>rt. Session w (Some i) (Some rt) None) (match_turn t) else None)"
| "match_segments [h, k, w, k2, i, k3, t, p] =
     (if h = ''#'' \<and> k = ''workspaces'' \<and> is_workspace w \<and> k2 = ''sessions'' \<and> is_id i \<and> k3 = ''turns'' \<and> is_part p
      then map_option (\<lambda>rt. Session w (Some i) (Some rt) (Some p)) (match_turn t) else None)"
| "match_segments _ = None"

definition hash_path :: "string \<Rightarrow> string" where
  "hash_path hash = takeWhile (\<lambda>c. c \<noteq> CHR ''?'') hash"

definition hash_query :: "string \<Rightarrow> string" where
  "hash_query hash = drop (length (hash_path hash) + 1) hash"

definition parseHash :: "string \<Rightarrow> route option" where
  "parseHash hash =
     (let params = search_params (hash_query hash);
          density = (case map_of params ''density'' of
                       Some d \<Rightarrow> if d = ''terse'' then ''terse'' else ''comfortable'' | None \<Rightarrow> ''comfortable'')
      in case match_segments (split_char (CHR ''/'') (hash_path hash)) of
           None \<Rightarrow> None
         | Some (Board w b) \<Rightarrow>
             Some \<lparr>rt_workspaceId = w, rt_sessionId = None, rt_boardId = Some b, rt_turnId = None,
               rt_messageType = None, rt_target = None, rt_density = density, rt_sendMessages = []\<rparr>
         | Some (Session w s turn part) \<Rightarrow>
             Some \<lparr>rt_workspaceId = w, rt_sessionId = s, rt_boardId = None, rt_turnId = map_option snd turn,
               rt_messageType = (case turn of
                  Some (r, _) \<Rightarrow> if r = ''u'' then Some ''user'' else Some ''assistant'' | None \<Rightarrow> None),
               rt_target = (case turn of Some (r, _) \<Rightarrow> if r = ''a'' then part else None | None \<Rightarrow> None),
               rt_density = density,
               rt_sendMessages = (if s \<noteq> None then [] else params_getAll params ''send'')\<rparr>)"

section \<open>Building links\<close>

definition buildTurnSegment :: "string option \<Rightarrow> string option \<Rightarrow> string option \<Rightarrow> string" where
  "buildTurnSegment turnId mt part =
     (if \<not> (nonempty turnId \<and> nonempty mt) then []
      else ''/turns/'' @ (if mt = Some ''user'' then ''u'' else ''a'') @ ''-'' @ the turnId
        @ (if nonempty part \<and> mt \<noteq> Some ''user'' then ''/'' @ the part else []))"

definition turn_segment :: "jump_options option \<Rightarrow> string" where
  "turn_segment options = (case options of
     None \<Rightarrow> buildTurnSegment None None None
   | Some jo \<Rightarrow> buildTurnSegment (Some (jo_turnId jo)) (Some (jo_messageType jo)) (jo_target jo))"

definition workspace_hash :: "string \<Rightarrow> string" where
  "workspace_hash w = ''#/workspaces/'' @ w"

definition session_hash :: "string \<Rightarrow> string \<Rightarrow> string \<Rightarrow> string" where
  "session_hash w s turnSegment = workspace_hash w @ ''/sessions/'' @ s @ turnSegment"

text \<open>\<open>page\<close> is \<open>location.pathname\<close> and \<open>location.search\<close>.\<close>

definition buildSessionHref :: "string \<Rightarrow> string \<Rightarrow> string \<Rightarrow> jump_options option \<Rightarrow> string" where
  "buildSessionHref page w s options = page @ session_hash w s (turn_segment options)"

section \<open>Navigation\<close>

text \<open>
  The browser's part of an assignment to the hash: a fragment drops tabs and line breaks and escapes what
  is not a printable ASCII character and five marks; a hash without a fragment reads as empty.
\<close>

definition fragment_char :: "char \<Rightarrow> string" where
  "fragment_char c = (let n = of_char c :: nat in
     if n = 9 \<or> n = 10 \<or> n = 13 then []
     else if n \<le> 32 \<or> n > 126 \<or> c = CHR 0x22 \<or> c = CHR 0x60 \<or> c = CHR ''<'' \<or> c = CHR ''>''
     then [CHR ''%'', hex_digit (n div 16), hex_digit (n mod 16)] else [c])"

definition as_hash :: "string \<Rightarrow> string" where
  "as_hash s = (if starts_with ''#'' s
     then let f = concat (map fragment_char (drop 1 s)) in if f = [] then [] else ''#'' @ f
     else [])"

record routing =
  loc_hash :: string
  route_state :: "route option"
  hash_events :: nat

definition openRouting :: "string \<Rightarrow> routing" where
  "openRouting h = \<lparr>loc_hash = h, route_state = parseHash h, hash_events = 0\<rparr>"

definition assign_hash :: "string \<Rightarrow> routing \<Rightarrow> routing" where
  "assign_hash h s = (if as_hash h = loc_hash s then s
     else s\<lparr>loc_hash := as_hash h, hash_events := Suc (hash_events s)\<rparr>)"

definition replace_hash :: "string \<Rightarrow> routing \<Rightarrow> routing" where
  "replace_hash h s = s\<lparr>loc_hash := as_hash h, route_state := parseHash h\<rparr>"

definition handleHashChange :: "routing \<Rightarrow> routing" where
  "handleHashChange s = s\<lparr>route_state := parseHash (loc_hash s)\<rparr>"

definition navigateToSession :: "string \<Rightarrow> string \<Rightarrow> jump_options option \<Rightarrow> routing \<Rightarrow> routing" where
  "navigateToSession w sid options s = assign_hash (session_hash w sid (turn_segment options)) s"

definition navigateToBoard :: "string \<Rightarrow> string \<Rightarrow> routing \<Rightarrow> routing" where
  "navigateToBoard w b s =
     (let terse = (case route_state s of Some r \<Rightarrow> rt_density r = ''terse'' | None \<Rightarrow> False)
      in assign_hash (workspace_hash w @ ''/boards/'' @ b @ (if terse then ''?density=terse'' else [])) s)"

definition navigateToWorkspace :: "string \<Rightarrow> routing \<Rightarrow> routing" where
  "navigateToWorkspace w s = assign_hash (workspace_hash w) s"

definition navigateHome :: "routing \<Rightarrow> routing" where
  "navigateHome s = s\<lparr>loc_hash := [], route_state := None\<rparr>"

text \<open>An empty workspace id would be falsy; the parser never gives one.\<close>

definition clearActiveSession :: "routing \<Rightarrow> routing" where
  "clearActiveSession s = (case route_state s of
     None \<Rightarrow> navigateHome s
   | Some r \<Rightarrow> if rt_workspaceId r = [] then navigateHome s else replace_hash (workspace_hash (rt_workspaceId r)) s)"

definition consumeSendMessages :: "routing \<Rightarrow> routing" where
  "consumeSendMessages s = (case route_state s of
     None \<Rightarrow> s
   | Some r \<Rightarrow> if rt_workspaceId r = [] then s else replace_hash (workspace_hash (rt_workspaceId r)) s)"

text \<open>\<open>hash.split('?')\<close>: the path, and the query up to a second question mark.\<close>

definition split_query :: "string \<Rightarrow> string" where
  "split_query hash = (case split_char (CHR ''?'') hash of _ # q # _ \<Rightarrow> q | _ \<Rightarrow> [])"

definition setDensity :: "string \<Rightarrow> routing \<Rightarrow> routing" where
  "setDensity density s =
     (let params = search_params (split_query (loc_hash s));
          params' = (if density = ''terse'' then params_set params ''density'' ''terse'' else params_delete params ''density'');
          qs = params_string params'
      in replace_hash (if qs = [] then hash_path (loc_hash s) else hash_path (loc_hash s) @ ''?'' @ qs) s)"

definition replaceTurnInUrl :: "string option \<Rightarrow> string option \<Rightarrow> routing \<Rightarrow> routing" where
  "replaceTurnInUrl turnId mt s =
     (case parseHash (loc_hash s) of
        None \<Rightarrow> s
      | Some r \<Rightarrow>
          (case rt_sessionId r of
             None \<Rightarrow> s
           | Some sid \<Rightarrow>
               let query = (if CHR ''?'' \<in> set (loc_hash s) then ''?'' @ split_query (loc_hash s) else []);
                   newHash = session_hash (rt_workspaceId r) sid (buildTurnSegment turnId mt None) @ query
               in if newHash = loc_hash s then s else replace_hash newHash s))"

text \<open>
  Runs: the calls in any order, hash edits by the user or the history (any hash, as the browser reads it
  back), and the delivery of a queued event.
\<close>

inductive routing_step :: "routing \<Rightarrow> routing \<Rightarrow> bool" where
  Edit: "routing_step s (s\<lparr>loc_hash := as_hash h, hash_events := Suc (hash_events s)\<rparr>)"
| HashChange: "0 < hash_events s \<Longrightarrow> routing_step s (handleHashChange (s\<lparr>hash_events := hash_events s - 1\<rparr>))"
| ToSession: "routing_step s (navigateToSession w sid options s)"
| ToBoard: "routing_step s (navigateToBoard w b s)"
| ToWorkspace: "routing_step s (navigateToWorkspace w s)"
| Home: "routing_step s (navigateHome s)"
| ClearActive: "routing_step s (clearActiveSession s)"
| ConsumeSend: "routing_step s (consumeSendMessages s)"
| Density: "routing_step s (setDensity d s)"
| ReplaceTurn: "turnId = None \<or> is_id (the turnId) \<Longrightarrow> routing_step s (replaceTurnInUrl turnId mt s)"

inductive routing_run :: "string \<Rightarrow> routing \<Rightarrow> bool" for h where
  Start: "routing_run h (openRouting (as_hash h))"
| More: "routing_run h s \<Longrightarrow> routing_step s s' \<Longrightarrow> routing_run h s'"

end
