(* ===== verification/UrlPathFacts.thy ===== *)
theory UrlPathFacts
  imports UrlPaths
begin

text \<open>
  Confinement of what a message can link to: whatever the escapes and dots in a URL, a resolved path lies
  below its directory; a path written with \<open>encodeURIComponent\<close> resolves to itself; and nothing resolves
  below the root directory.
\<close>

section \<open>Normalized paths\<close>

text \<open>A path that names something below a directory: no empty segment and no dots.\<close>

definition plain_segment :: "string \<Rightarrow> bool" where
  "plain_segment s \<longleftrightarrow> s \<noteq> [] \<and> s \<noteq> ''.'' \<and> s \<noteq> ''..'' \<and> CHR ''/'' \<notin> set s"

definition plain_path :: "string \<Rightarrow> bool" where
  "plain_path p \<longleftrightarrow> list_all plain_segment (split_char (CHR ''/'') p)"

lemma norm_parts_plain:
  "norm_parts ps segs = Some qs \<Longrightarrow> list_all plain_segment ps \<Longrightarrow> \<forall>s \<in> set segs. CHR ''/'' \<notin> set s \<Longrightarrow>
     list_all plain_segment qs"
  by (induction ps segs arbitrary: qs rule: norm_parts.induct)
    (auto simp: plain_segment_def split: if_splits list.splits)

lemma norm_parts_push: "list_all plain_segment segs \<Longrightarrow> norm_parts ps segs = Some (rev segs @ ps)"
  by (induction segs arbitrary: ps) (auto simp: plain_segment_def)

lemma norm_parts_append: "norm_parts ps (xs @ ys) = Option.bind (norm_parts ps xs) (\<lambda>qs. norm_parts qs ys)"
  by (induction ps xs rule: norm_parts.induct) (auto split: list.splits)

lemma normalize_parts:
  assumes "normalize_path p = Some q"
  shows "\<exists>parts. list_all plain_segment parts \<and> q = ''/'' @ intercalate ''/'' parts"
proof -
  obtain ps where ps: "norm_parts [] (split_char (CHR ''/'') p) = Some ps" "q = ''/'' @ intercalate ''/'' (rev ps)"
    using assms by (auto simp: normalize_path_def)
  have "list_all plain_segment ps"
    by (rule norm_parts_plain [OF ps(1)]) (auto dest: split_char_parts)
  with ps(2) show ?thesis by (intro exI [of _ "rev ps"]) (simp add: list_all_iff)
qed

lemma split_parts:
  "list_all plain_segment parts \<Longrightarrow>
     split_char (CHR ''/'') (''/'' @ intercalate ''/'' parts) = [] # (if parts = [] then [[]] else parts)"
  by (simp add: split_intercalate list_all_iff plain_segment_def)

lemma normalize_parts_id: "list_all plain_segment parts \<Longrightarrow>
    normalize_path (''/'' @ intercalate ''/'' parts) = Some (''/'' @ intercalate ''/'' parts)"
  by (simp only: normalize_path_def split_parts) (simp add: norm_parts_push)

text \<open>Whatever follows a directory in a normalized path is a plain path.\<close>

lemma below_normalized:
  assumes "normalize_path p = Some (base @ ''/'' @ rel)" and "base \<noteq> []"
  shows "plain_path rel"
proof -
  obtain parts where parts: "list_all plain_segment parts" "base @ ''/'' @ rel = ''/'' @ intercalate ''/'' parts"
    using normalize_parts [OF assms(1)] by auto
  have "split_char (CHR ''/'') (base @ ''/'' @ rel) = [] # (if parts = [] then [[]] else parts)"
    unfolding parts(2) by (rule split_parts [OF parts(1)])
  then have "split_char (CHR ''/'') base @ split_char (CHR ''/'') rel = [] # (if parts = [] then [[]] else parts)"
    by (simp add: split_char_append)
  moreover have "split_char (CHR ''/'') base \<noteq> [[]]"
    using intercalate_split [of "CHR ''/''" base] assms(2) by auto
  ultimately show ?thesis
    using parts(1) unfolding plain_path_def
    by (cases "split_char (CHR ''/'') base") (auto simp: append_eq_Cons_conv Cons_eq_append_conv split: if_splits)
qed

lemma in_template_not_Nil: "in_template (normalize_path dir) \<noteq> []"
  by (auto simp: in_template_def normalize_path_def split: option.splits)

lemma pathBelow_plain:
  assumes "pathBelow path dir = Some rel" and "normalize_path p = Some path"
  shows "plain_path rel \<and> (\<exists>base. normalize_path dir = Some base \<and> path = base @ ''/'' @ rel)"
proof -
  obtain r where r: "path = in_template (normalize_path dir) @ ''/'' @ r" "rel = r"
    using assms(1) by (auto simp: pathBelow_def Let_def starts_with_iff split: if_splits)
  moreover have "normalize_path dir \<noteq> None"
    using normalize_parts [OF assms(2)] r(1) by (auto simp: in_template_def split: option.splits)
  ultimately show ?thesis
    using below_normalized [of p _ rel] assms(2) in_template_not_Nil [of dir] by (auto simp: in_template_def)
qed

lemma resolveRelative_below:
  assumes "resolveRelative url dir = Some r"
  shows "\<exists>p. normalize_path p = Some (absolute r) \<and> pathBelow (absolute r) (the dir) = Some (relative r)"
  using assms unfolding resolveRelative_def pathBelow_def
  by (auto simp: Let_def split: if_splits option.splits)

lemma resolveTempImage_below:
  assumes "resolveTempImage url = Some path"
  shows "\<exists>rel. path = ''/tmp/'' @ rel \<and> plain_path rel"
proof -
  obtain p where p: "normalize_path p = Some path" "starts_with ''/tmp/'' path"
    using assms by (auto simp: resolveTempImage_def split: option.splits if_splits)
  then obtain rel where "path = ''/tmp'' @ ''/'' @ rel" by (auto simp: starts_with_iff)
  with below_normalized [of p "''/tmp''" rel] p(1) show ?thesis by auto
qed

section \<open>Escapes\<close>

lemma hex_value_digit: "n < 16 \<Longrightarrow> hex_value (hex_digit n) = Some n"
  by (auto simp: hex_value_def hex_digit_def Let_def)

lemma hex_digit_alnum: "n < 16 \<Longrightarrow> ascii_alnum (hex_digit n)"
  by (auto simp: hex_digit_def ascii_alnum_def ascii_alpha_def Let_def)

lemma byte_less: "(of_char c :: nat) < 256"
  by simp

lemma escape_encoded:
  "escape (CHR ''%'' # hex_digit (of_char c div 16) # hex_digit (of_char c mod 16) # s) = Some (of_char c, s)"
  using byte_less [of c] by (simp add: hex_value_digit div_less_iff_less_mult)

lemma alnum_ascii: "ascii_alnum c \<Longrightarrow> (of_char c :: nat) < 128 \<and> c \<noteq> CHR ''%''"
  by (auto simp: ascii_alnum_def ascii_alpha_def Let_def)

lemma unreserved_ascii: "ascii_alnum c \<or> c \<in> set ''-_.!~*()'' \<or> c = CHR 0x27 \<Longrightarrow> (of_char c :: nat) < 128 \<and> c \<noteq> CHR ''%''"
  using alnum_ascii [of c] by auto

lemma encode_high: "128 \<le> (of_char c :: nat) \<Longrightarrow>
    encode_char c = [CHR ''%'', hex_digit (of_char c div 16), hex_digit (of_char c mod 16)]"
  using unreserved_ascii [of c] by (auto simp: encode_char_def Let_def)

text \<open>Well-formed UTF-8.\<close>

fun utf8_tail :: "(nat \<times> nat) list \<Rightarrow> string \<Rightarrow> bool" where
  "utf8_tail [] s = (case s of
     [] \<Rightarrow> True
   | c # cs \<Rightarrow> (case trailing (of_char c) of None \<Rightarrow> False | Some rs \<Rightarrow> utf8_tail rs cs))"
| "utf8_tail ((lo, hi) # rs) s = (case s of
     [] \<Rightarrow> False
   | c # cs \<Rightarrow> lo \<le> of_char c \<and> of_char c \<le> hi \<and> utf8_tail rs cs)"

abbreviation utf8 :: "string \<Rightarrow> bool" where
  "utf8 \<equiv> utf8_tail []"

lemma octets_encoded:
  "utf8_tail rs s \<Longrightarrow> \<forall>(lo, hi) \<in> set rs. 128 \<le> lo \<Longrightarrow>
     octets rs (encodeURIComponent s) = Some (take (length rs) s, encodeURIComponent (drop (length rs) s))
     \<and> utf8 (drop (length rs) s)"
proof (induction rs arbitrary: s)
  case (Cons r rs)
  obtain lo hi c cs where r: "r = (lo, hi)" and s: "s = c # cs" "lo \<le> of_char c" "of_char c \<le> hi" "utf8_tail rs cs"
    using Cons.prems(1) by (cases r) (auto split: list.splits)
  have c: "128 \<le> (of_char c :: nat)" using Cons.prems(2) r s(2) by auto
  with Cons.IH [OF s(4)] Cons.prems(2) r s show ?case
    by (simp add: encodeURIComponent_def encode_high escape_encoded del: escape.simps)
qed simp

lemma trailing_high: "trailing b = Some rs \<Longrightarrow> \<forall>(lo, hi) \<in> set rs. 128 \<le> lo"
  by (auto simp: trailing_def split: if_splits)

lemma decode_encode: "utf8 s \<Longrightarrow> decodeURIComponent (encodeURIComponent s) = Some s"
proof (induction "length s" arbitrary: s rule: less_induct)
  case less
  show ?case
  proof (cases s)
    case Nil
    then show ?thesis by (simp add: encodeURIComponent_def)
  next
    case (Cons c cs)
    then obtain rs where rs: "trailing (of_char c) = Some rs" "utf8_tail rs cs"
      using less.prems by (auto split: option.splits)
    note oct = octets_encoded [OF rs(2) trailing_high [OF rs(1)]]
    show ?thesis
    proof (cases "ascii_alnum c \<or> c \<in> set ''-_.!~*()'' \<or> c = CHR 0x27")
      case True
      then have e: "encodeURIComponent s = c # encodeURIComponent cs" and "rs = []"
        using Cons rs(1) unreserved_ascii [OF True] by (auto simp: encodeURIComponent_def encode_char_def trailing_def)
      then have "utf8 cs" using rs(2) by simp
      with less.hyps [of cs] Cons e unreserved_ascii [OF True] show ?thesis by simp
    next
      case False
      let ?e = "CHR ''%'' # hex_digit (of_char c div 16) # hex_digit (of_char c mod 16) # encodeURIComponent cs"
      have e: "encodeURIComponent s = ?e"
        using False Cons by (simp add: encodeURIComponent_def encode_char_def Let_def)
      have "escaped_char ?e = Some (c # take (length rs) cs, encodeURIComponent (drop (length rs) cs))"
        using oct rs(1) by (simp add: escaped_char_def escape_encoded del: escape.simps)
      moreover have "decodeURIComponent (encodeURIComponent (drop (length rs) cs)) = Some (drop (length rs) cs)"
        using less.hyps [of "drop (length rs) cs"] oct Cons by simp
      ultimately show ?thesis using e Cons by simp
    qed
  qed
qed

lemma encoded_chars: "d \<in> set (encodeURIComponent s) \<Longrightarrow> ascii_alnum d \<or> d \<in> set ''-_.!~*()%'' \<or> d = CHR 0x27"
proof -
  assume "d \<in> set (encodeURIComponent s)"
  then obtain c where "d \<in> set (encode_char c)" by (auto simp: encodeURIComponent_def)
  with hex_digit_alnum [of "of_char c div 16"] hex_digit_alnum [of "of_char c mod 16"] byte_less [of c] show ?thesis
    by (auto simp: encode_char_def Let_def div_less_iff_less_mult split: if_splits)
qed

lemma encode_Nil_iff [simp]: "encodeURIComponent s = [] \<longleftrightarrow> s = []"
  by (cases s) (auto simp: encodeURIComponent_def encode_char_def Let_def)

lemma encoded_absent:
  "CHR ''/'' \<notin> set (encodeURIComponent s)" "CHR '':'' \<notin> set (encodeURIComponent s)"
  "CHR ''?'' \<notin> set (encodeURIComponent s)" "CHR ''#'' \<notin> set (encodeURIComponent s)"
  by (auto dest!: encoded_chars simp: ascii_alnum_def ascii_alpha_def)

lemma has_scheme_colon: "has_scheme s \<Longrightarrow> CHR '':'' \<in> set s"
  by (auto simp: has_scheme_def split: list.splits dest!: arg_cong [of "dropWhile _ _" _ set] dest: set_dropWhileD)

lemma strip_query_plain: "CHR ''?'' \<notin> set s \<Longrightarrow> CHR ''#'' \<notin> set s \<Longrightarrow> strip_query s = s"
  by (induction s) auto

lemma encoded_is_relative: "s \<noteq> [] \<Longrightarrow> isRelativeUrl (Some (encodeURIComponent s))"
  using encoded_absent [of s] has_scheme_colon [of "encodeURIComponent s"]
  by (auto simp: isRelativeUrl_def starts_with_iff)

lemma decodePath_encoded: "s \<noteq> [] \<Longrightarrow> utf8 s \<Longrightarrow> decodePath (encodeURIComponent s) = Some s"
  by (simp add: decodePath_def strip_query_plain encoded_absent decode_encode)

section \<open>What a message can load\<close>

text \<open>C22. The image endpoint is only ever asked for a path inside what it serves: a query names either
  a path below \<open>/tmp\<close> of the session, or the path of a resolved source below the workspace - with no
  empty segment, \<open>.\<close> or \<open>..\<close> in it, whatever dots and escapes the source was written with.\<close>

theorem image_query_is_confined:
  assumes "imageEndpointQuery src scope = Query q"
  shows "(\<exists>rel s. sessionId scope = Some s \<and> plain_path rel
            \<and> q = ''path='' @ encodeURIComponent (''/tmp/'' @ rel) @ ''&session='' @ encodeURIComponent s)
       \<or> (\<exists>rel root r. normalize_path (the (workspaceDir scope)) = Some root \<and> plain_path rel
            \<and> resolveRelative src (baseDir scope) = Some r \<and> absolute r = root @ ''/'' @ rel
            \<and> q = ''path='' @ encodeURIComponent rel)"
proof (cases "resolveTempImage src")
  case (Some temp)
  with assms resolveTempImage_below [OF Some] show ?thesis
    by (auto simp: imageEndpointQuery_def nonempty_iff split: if_splits)
next
  case None
  with assms obtain r rel where r: "resolveRelative src (baseDir scope) = Some r"
    "pathBelow (absolute r) (the (workspaceDir scope)) = Some rel" "q = ''path='' @ encodeURIComponent rel"
    by (auto simp: imageEndpointQuery_def split: if_splits option.splits)
  obtain p where "normalize_path p = Some (absolute r)" using resolveRelative_below [OF r(1)] by blast
  with pathBelow_plain [OF r(2)] r show ?thesis by metis
qed

lemma image_query_is_confined_witness:
  "imageEndpointQuery (Some ''img/%2e%2e/a%20b.png?v=1'')
     \<lparr>baseDir = Some ''/w/docs'', workspaceDir = Some ''/w'', sessionId = None\<rparr> = Query ''path=docs%2Fa%20b.png''
   \<and> plain_path ''docs/a b.png''"
proof -
  let ?scope = "\<lparr>baseDir = Some ''/w/docs'', workspaceDir = Some ''/w'', sessionId = None\<rparr>"
  have q: "imageEndpointQuery (Some ''img/%2e%2e/a%20b.png?v=1'') ?scope = Query ''path=docs%2Fa%20b.png''"
    by code_simp
  have r: "resolveRelative (Some ''img/%2e%2e/a%20b.png?v=1'') (Some ''/w/docs'')
      = Some \<lparr>absolute = ''/w/docs/a b.png'', relative = ''a b.png''\<rparr>"
    by code_simp
  have "normalize_path ''/w'' = Some ''/w''" by code_simp
  with image_query_is_confined [OF q] r q show ?thesis by auto
qed

text \<open>A link written as the percent-encoding of a path below a directory resolves to that path:
  every well-formed character of a file name survives, the reserved ones included.\<close>

theorem encoded_link_resolves:
  assumes "plain_path rel" and "utf8 rel" and "normalize_path dir = Some base" and "base \<noteq> ''/''"
  shows "resolveRelative (Some (encodeURIComponent rel)) (Some dir)
    = Some \<lparr>absolute = base @ ''/'' @ rel, relative = rel\<rparr>"
proof -
  have rel: "rel \<noteq> []" using assms(1) by (auto simp: plain_path_def plain_segment_def)
  have dir: "dir \<noteq> []" using assms(3,4) by (auto simp: normalize_path_def)
  obtain parts where parts: "list_all plain_segment parts" "base = ''/'' @ intercalate ''/'' parts"
    using normalize_parts [OF assms(3)] by auto
  let ?all = "parts @ split_char (CHR ''/'') rel"
  have "parts \<noteq> []" using parts(2) assms(4) by auto
  then have all: "base @ ''/'' @ rel = ''/'' @ intercalate ''/'' ?all"
    using parts(2) by (simp add: intercalate_append intercalate_split)
  have "list_all plain_segment ?all" using parts(1) assms(1) by (simp add: plain_path_def)
  then have "normalize_path (base @ ''/'' @ rel) = Some (base @ ''/'' @ rel)"
    unfolding all by (rule normalize_parts_id)
  then show ?thesis
    using encoded_is_relative [OF rel] decodePath_encoded [OF rel assms(2)] dir assms(3) rel
    by (simp add: resolveRelative_def isRelativeUrl_def in_template_def starts_with_iff)
qed

lemma encoded_link_resolves_witness:
  "resolveRelative (Some (encodeURIComponent ''img/50% #1?.png'')) (Some ''/w/./docs/'')
    = Some \<lparr>absolute = ''/w/docs/img/50% #1?.png'', relative = ''img/50% #1?.png''\<rparr>"
  using encoded_link_resolves [of "''img/50% #1?.png''" "''/w/./docs/''" "''/w/docs''"] by code_simp

text \<open>A file in the root directory has the folder \<open>/\<close>, and below it no relative link resolves and
  no image below the workspace is asked for: the prefix a path must have is then \<open>//\<close>.\<close>

theorem root_folder_resolves_nothing:
  assumes "plain_segment name"
  shows "fileFolder (''/'' @ name) ws = Some ''/'' \<and> resolveRelative url (Some ''/'') = None"
proof
  have "normalize_path (''/'' @ name) = Some (''/'' @ name)"
    using normalize_parts_id [of "[name]"] assms by simp
  moreover have "before_last_slash (''/'' @ name) = []"
    using assms by (simp add: before_last_slash_def plain_segment_def dropWhile_append2 dropWhile_append)
  ultimately show "fileFolder (''/'' @ name) ws = Some ''/''"
    by (simp add: fileFolder_def starts_with_iff Let_def)
next
  have root: "normalize_path ''/'' = Some ''/''" by code_simp
  show "resolveRelative url (Some ''/'') = None"
  proof (rule ccontr)
    assume "resolveRelative url (Some ''/'') \<noteq> None"
    then obtain r where r: "resolveRelative url (Some ''/'') = Some r" by blast
    obtain p where p: "normalize_path p = Some (absolute r)" "pathBelow (absolute r) ''/'' = Some (relative r)"
      using resolveRelative_below [OF r] by auto
    have "absolute r = ''/'' @ ''/'' @ relative r"
      using pathBelow_plain [OF p(2,1)] root by auto
    moreover obtain parts where "list_all plain_segment parts" "absolute r = ''/'' @ intercalate ''/'' parts"
      using normalize_parts [OF p(1)] by auto
    ultimately show False
      by (cases parts rule: list.exhaust) (auto simp: plain_segment_def Cons_eq_append_conv elim!: intercalate.elims)
  qed
qed

lemma root_folder_resolves_nothing_witness:
  "fileFolder ''/README.md'' None = Some ''/'' \<and> resolveRelative (Some ''LICENSE'') (Some ''/'') = None"
  using root_folder_resolves_nothing [of "''README.md''" None "Some ''LICENSE''"] by (simp add: plain_segment_def)

end
