(* ===== verification/SessionRoutingFacts.thy ===== *)
theory SessionRoutingFacts
  imports SessionRouting UrlPathFacts
begin

text \<open>
  The route shown is the route in the hash whenever no event is queued; a link to a bookmarked part leads
  to that part; changing the density changes nothing else of the route.
\<close>

section \<open>Characters\<close>

definition hash_safe :: "char \<Rightarrow> bool" where
  "hash_safe c \<longleftrightarrow> fragment_char c = [c]"

lemma alnum_safe: "ascii_alnum c \<Longrightarrow> hash_safe c"
  by (auto simp: ascii_alnum_def ascii_alpha_def hash_safe_def fragment_char_def Let_def)

lemmas hex_digit_safe = alnum_safe [OF hex_digit_alnum]

lemma fragment_chars_safe: "d \<in> set (fragment_char c) \<Longrightarrow> hash_safe d"
  using hex_digit_safe [of "of_char c div 16"] hex_digit_safe [of "of_char c mod 16"] byte_less [of c]
  by (auto simp: fragment_char_def Let_def div_less_iff_less_mult hash_safe_def split: if_splits)

definition hash_ok :: "string \<Rightarrow> bool" where
  "hash_ok s \<longleftrightarrow> s = [] \<or> (\<exists>f. s = ''#'' @ f \<and> f \<noteq> [] \<and> list_all hash_safe f)"

lemma as_hash_ok: "hash_ok (as_hash h)"
  by (auto simp: hash_ok_def as_hash_def Let_def list_all_iff dest: fragment_chars_safe)

lemma fragment_safe: "list_all hash_safe f \<Longrightarrow> concat (map fragment_char f) = f"
  by (induction f) (auto simp: hash_safe_def)

lemma as_hash_id: "hash_ok s \<Longrightarrow> as_hash s = s"
  unfolding hash_ok_def as_hash_def
  by (elim disjE exE conjE) (simp_all add: fragment_safe starts_with_iff Let_def del: concat_eq_Nil_conv)

lemma key_char_safe: "key_char c \<Longrightarrow> hash_safe c \<and> c \<noteq> CHR ''/'' \<and> c \<noteq> CHR ''?''"
  by (auto simp: key_char_def is_digit_def hash_safe_def fragment_char_def Let_def)

lemma workspace_char_safe: "workspace_char c \<Longrightarrow> hash_safe c \<and> c \<noteq> CHR ''/'' \<and> c \<noteq> CHR ''?''"
  using key_char_safe [of c] by (auto simp: workspace_char_def hash_safe_def fragment_char_def)

lemma is_id_chars: "is_id s \<Longrightarrow> s \<noteq> [] \<and> list_all hash_safe s \<and> CHR ''/'' \<notin> set s \<and> CHR ''?'' \<notin> set s"
  using key_char_safe by (auto simp: is_id_def list_all_iff)

lemma is_workspace_chars: "is_workspace s \<Longrightarrow> s \<noteq> [] \<and> list_all hash_safe s \<and> CHR ''/'' \<notin> set s \<and> CHR ''?'' \<notin> set s"
  using workspace_char_safe by (auto simp: is_workspace_def list_all_iff)

lemma is_part_chars: "is_part s \<Longrightarrow> s \<noteq> [] \<and> list_all hash_safe s \<and> CHR ''/'' \<notin> set s \<and> CHR ''?'' \<notin> set s"
  by (auto simp: is_part_def starts_with_iff hash_safe_def fragment_char_def dest!: is_id_chars)

section \<open>Parameters written and read back\<close>

lemma form_decode_encode: "form_decode (form_encode s) = s"
proof (induction s)
  case (Cons c s)
  have e: "escape (CHR ''%'' # hex_digit (of_char c div 16) # hex_digit (of_char c mod 16) # form_encode s)
      = Some (of_char c, form_encode s)"
    by (rule escape_encoded)
  have p: "escape (c # r) = None" if "c \<noteq> CHR ''%''" for r
    using that by (cases "c # r" rule: escape.cases) auto
  show ?case
  proof (cases "ascii_alnum c \<or> c \<in> set ''*-._''")
    case True
    then have "c \<noteq> CHR ''%'' \<and> c \<noteq> CHR ''+''" by (auto simp: ascii_alnum_def ascii_alpha_def)
    with True Cons p show ?thesis by (simp add: form_encode_def form_encode_char_def)
  next
    case False
    with Cons e show ?thesis by (auto simp: form_encode_def form_encode_char_def Let_def simp del: escape.simps)
  qed
qed (simp add: form_encode_def)

lemma form_encoded_chars: "d \<in> set (form_encode s) \<Longrightarrow> ascii_alnum d \<or> d \<in> set ''*-._+%''"
proof -
  assume "d \<in> set (form_encode s)"
  then obtain c where "d \<in> set (form_encode_char c)" by (auto simp: form_encode_def)
  with hex_digit_alnum [of "of_char c div 16"] hex_digit_alnum [of "of_char c mod 16"] byte_less [of c] show ?thesis
    by (auto simp: form_encode_char_def Let_def div_less_iff_less_mult split: if_splits)
qed

lemma form_encoded_absent:
  "CHR ''='' \<notin> set (form_encode s)" "CHR ''&'' \<notin> set (form_encode s)" "CHR ''?'' \<notin> set (form_encode s)"
  by (auto dest!: form_encoded_chars simp: ascii_alnum_def ascii_alpha_def)

lemma form_encoded_safe: "d \<in> set (form_encode s) \<Longrightarrow> hash_safe d"
  by (auto dest!: form_encoded_chars simp: ascii_alnum_def ascii_alpha_def hash_safe_def fragment_char_def Let_def)

lemma name_value_encoded: "name_value (form_encode n @ ''='' @ form_encode v) = (n, v)"
proof -
  have "takeWhile (\<lambda>c. c \<noteq> CHR ''='') (form_encode n @ ''='' @ form_encode v) = form_encode n"
    using form_encoded_absent(1) [of n] by (simp add: takeWhile_append2 takeWhile_tail) (metis takeWhile_eq_all_conv)
  then show ?thesis by (simp add: name_value_def form_decode_encode)
qed

lemma params_string_chars: "d \<in> set (params_string ps) \<Longrightarrow> hash_safe d \<and> d \<noteq> CHR ''?''"
proof -
  have "d \<in> set (intercalate ''&'' ws) \<Longrightarrow> d = CHR ''&'' \<or> (\<exists>w \<in> set ws. d \<in> set w)" for ws
    by (induction "''&''" ws rule: intercalate.induct) auto
  then show "d \<in> set (params_string ps) \<Longrightarrow> hash_safe d \<and> d \<noteq> CHR ''?''"
    using form_encoded_safe form_encoded_absent(3)
    by (fastforce simp: params_string_def hash_safe_def fragment_char_def)
qed

lemma params_roundtrip: "search_params (params_string ps) = ps"
proof (cases "ps = []")
  case True
  then show ?thesis by (simp add: search_params_def params_string_def starts_with_def)
next
  case False
  let ?w = "\<lambda>(n, v). form_encode n @ ''='' @ form_encode v"
  have split: "split_char (CHR ''&'') (intercalate ''&'' (map ?w ps)) = map ?w ps"
    using False form_encoded_absent(2) by (intro split_intercalate) auto
  have "\<not> starts_with ''?'' (params_string ps)"
    using params_string_chars [of "CHR ''?''" ps] by (auto simp: starts_with_iff)
  moreover have "filter (\<lambda>p. p \<noteq> []) (map ?w ps) = map ?w ps" by (induction ps) auto
  moreover have "map (name_value \<circ> ?w) ps = ps" by (induction ps) (auto simp: name_value_encoded [simplified])
  ultimately show ?thesis using split by (simp add: search_params_def params_string_def comp_def case_prod_unfold)
qed

lemma map_of_params_set: "map_of (params_set ps k v) k = Some v"
  by (induction ps k v rule: params_set.induct) auto

lemma map_of_params_delete: "map_of (params_delete ps k) k = None"
  by (auto simp: params_delete_def map_of_eq_None_iff)

lemma getAll_params_delete: "j \<noteq> k \<Longrightarrow> params_getAll (params_delete ps k) j = params_getAll ps j"
  by (induction ps) (auto simp: params_getAll_def params_delete_def)

lemma getAll_params_set: "j \<noteq> k \<Longrightarrow> params_getAll (params_set ps k v) j = params_getAll ps j"
  using getAll_params_delete [of j k]
  by (induction ps k v rule: params_set.induct) (auto simp: params_getAll_def)

section \<open>Routes\<close>

lemma takeWhile_absent: "c \<notin> set s \<Longrightarrow> takeWhile (\<lambda>d. d \<noteq> c) s = s"
  by (auto simp: takeWhile_eq_all_conv)

lemma hash_path_append: "CHR ''?'' \<notin> set p \<Longrightarrow> hash_path (p @ CHR ''?'' # q) = p \<and> hash_query (p @ CHR ''?'' # q) = q"
  by (simp add: hash_path_def hash_query_def takeWhile_tail takeWhile_absent)

lemma hash_path_plain: "CHR ''?'' \<notin> set p \<Longrightarrow> hash_path p = p \<and> hash_query p = []"
  by (simp add: hash_path_def hash_query_def takeWhile_absent)

lemma hash_parts: "h = hash_path h \<or> h = hash_path h @ ''?'' @ hash_query h"
proof (cases "CHR ''?'' \<in> set h")
  case True
  then obtain a b where "h = a @ CHR ''?'' # b" "CHR ''?'' \<notin> set a" using split_list_first by fast
  then show ?thesis using hash_path_append by auto
qed (simp add: hash_path_plain)

lemma hash_path_no_query [simp]: "CHR ''?'' \<notin> set (hash_path h)"
  by (auto simp: hash_path_def dest: set_takeWhileD)

text \<open>Without a leading \<open>#\<close> there is no route.\<close>

lemma match_segments_hash: "match_segments segs = Some m \<Longrightarrow> \<exists>rest. segs = ''#'' # ''workspaces'' # rest \<and> rest \<noteq> []"
  by (cases segs rule: match_segments.cases) (auto split: if_splits)

lemma match_segments_ids:
  "match_segments segs = Some m \<Longrightarrow>
     (case m of Board w b \<Rightarrow> is_workspace w | Session w s t p \<Rightarrow> is_workspace w \<and> (\<forall>i. s = Some i \<longrightarrow> is_id i))"
  by (cases segs rule: match_segments.cases) (auto split: if_splits)

lemma parse_Some_hash:
  assumes "parseHash h = Some r"
  shows "\<exists>f. h = ''#'' @ f"
proof -
  obtain m where "match_segments (split_char (CHR ''/'') (hash_path h)) = Some m"
    using assms by (auto simp: parseHash_def Let_def split: option.splits)
  from match_segments_hash [OF this] obtain rest
    where rest: "split_char (CHR ''/'') (hash_path h) = ''#'' # ''workspaces'' # rest" "rest \<noteq> []" by auto
  then have "hash_path h = ''#/workspaces/'' @ intercalate ''/'' rest"
    using intercalate_split [of "CHR ''/''" "hash_path h"] by (cases rest) simp_all
  with hash_parts [of h] show ?thesis by (metis append_Cons append_Nil)
qed

lemma parse_not_hash: "hash_ok n \<or> n = ''#'' \<or> \<not> starts_with ''#'' n \<Longrightarrow> parseHash (as_hash n) = parseHash n"
proof (elim disjE)
  assume "\<not> starts_with ''#'' n"
  then have "parseHash n = None" using parse_Some_hash [of n] by (cases "parseHash n") (auto simp: starts_with_iff)
  moreover have "parseHash [] = None" by code_simp
  ultimately show ?thesis using \<open>\<not> starts_with ''#'' n\<close> by (simp add: as_hash_def)
next
  assume "n = ''#''"
  moreover have "as_hash ''#'' = []" "parseHash [] = None" "parseHash ''#'' = None" by code_simp+
  ultimately show ?thesis by simp
qed (simp add: as_hash_id)

definition routing_inv :: "routing \<Rightarrow> bool" where
  "routing_inv s \<longleftrightarrow> hash_ok (loc_hash s) \<and> (hash_events s = 0 \<longrightarrow> route_state s = parseHash (loc_hash s))
     \<and> (\<exists>h. route_state s = parseHash h)"

lemma parse_ids:
  "parseHash h = Some r \<Longrightarrow> is_workspace (rt_workspaceId r) \<and> (\<forall>i. rt_sessionId r = Some i \<longrightarrow> is_id i)"
  by (auto simp: parseHash_def Let_def split: option.splits path_match.splits dest!: match_segments_ids)

lemma workspace_hash_ok: "is_workspace w \<Longrightarrow> hash_ok (workspace_hash w)"
  using is_workspace_chars [of w]
  by (auto simp: hash_ok_def workspace_hash_def hash_safe_def fragment_char_def Let_def)

lemma replace_hash_inv:
  "hash_ok n \<or> n = ''#'' \<or> \<not> starts_with ''#'' n \<Longrightarrow> routing_inv (replace_hash n s)"
  using parse_not_hash [of n] as_hash_ok [of n] by (auto simp: routing_inv_def replace_hash_def)

lemma assign_hash_inv: "routing_inv s \<Longrightarrow> routing_inv (assign_hash h s)"
  using as_hash_ok [of h] by (auto simp: routing_inv_def assign_hash_def)

lemma hash_ok_chars: "hash_ok s \<Longrightarrow> d \<in> set s \<Longrightarrow> d = CHR ''#'' \<or> hash_safe d"
  by (auto simp: hash_ok_def list_all_iff)

lemma hash_safe_mark: "hash_safe (CHR ''#'') \<and> hash_safe (CHR ''?'') \<and> hash_safe (CHR ''/'') \<and> hash_safe (CHR ''-'')"
  by (simp add: hash_safe_def fragment_char_def)

lemma setDensity_inv: "routing_inv s \<Longrightarrow> routing_inv (setDensity d s)"
proof -
  assume inv: "routing_inv s"
  obtain qs where qs: "setDensity d s = replace_hash (if qs = [] then hash_path (loc_hash s) else hash_path (loc_hash s) @ ''?'' @ qs) s"
    "\<forall>c \<in> set qs. hash_safe c"
    using params_string_chars unfolding setDensity_def Let_def by blast
  let ?n = "if qs = [] then hash_path (loc_hash s) else hash_path (loc_hash s) @ ''?'' @ qs"
  have ok: "\<forall>c \<in> set (loc_hash s). hash_safe c"
    using inv hash_ok_chars hash_safe_mark by (auto simp: routing_inv_def)
  have "\<forall>c \<in> set ?n. hash_safe c"
    using ok qs(2) hash_safe_mark by (auto simp: hash_path_def dest!: set_takeWhileD)
  then have "hash_ok ?n \<or> ?n = ''#'' \<or> \<not> starts_with ''#'' ?n"
    by (auto simp: hash_ok_def starts_with_iff list_all_iff)
  then show ?thesis unfolding qs(1) by (rule replace_hash_inv)
qed

lemma split_query_chars: "d \<in> set (split_query h) \<Longrightarrow> d \<in> set h"
proof -
  assume d: "d \<in> set (split_query h)"
  then obtain p q rest where q: "split_char (CHR ''?'') h = p # q # rest" "d \<in> set q"
    by (cases "split_char (CHR ''?'') h" rule: remdups_adj.cases) (auto simp: split_query_def)
  have "h = intercalate ''?'' (p # q # rest)"
    using intercalate_split [of "CHR ''?''" h] q(1) by simp
  then show ?thesis using q(2) by (cases rest) auto
qed

lemma buildTurnSegment_safe:
  "turnId = None \<or> is_id (the turnId) \<Longrightarrow> \<forall>c \<in> set (buildTurnSegment turnId mt None). hash_safe c"
  using is_id_chars [of "the turnId"]
  by (auto simp: buildTurnSegment_def list_all_iff hash_safe_def fragment_char_def nonempty_iff)

lemma session_hash_ok:
  assumes "is_workspace w" "is_id i" "\<forall>c \<in> set seg. hash_safe c"
  shows "hash_ok (session_hash w i seg)"
proof -
  have "list_all hash_safe ''/workspaces/''" "list_all hash_safe ''/sessions/''" by code_simp+
  then have "list_all hash_safe (''/workspaces/'' @ w @ ''/sessions/'' @ i @ seg)"
    using is_workspace_chars [OF assms(1)] is_id_chars [OF assms(2)] assms(3) by (auto simp: list_all_iff)
  then show ?thesis by (simp add: hash_ok_def session_hash_def workspace_hash_def)
qed

lemma replaceTurn_inv:
  assumes "routing_inv s" and "turnId = None \<or> is_id (the turnId)"
  shows "routing_inv (replaceTurnInUrl turnId mt s)"
proof (cases "parseHash (loc_hash s)")
  case (Some r)
  show ?thesis
  proof (cases "rt_sessionId r")
    case (Some i)
    have chars: "\<forall>c \<in> set (loc_hash s). hash_safe c"
      using assms(1) hash_ok_chars hash_safe_mark by (auto simp: routing_inv_def)
    let ?q = "if CHR ''?'' \<in> set (loc_hash s) then ''?'' @ split_query (loc_hash s) else []"
    have "hash_ok (session_hash (rt_workspaceId r) i (buildTurnSegment turnId mt None @ ?q))"
      using parse_ids [OF \<open>parseHash _ = Some r\<close>] Some buildTurnSegment_safe [OF assms(2)] chars split_query_chars hash_safe_mark
      by (intro session_hash_ok) auto
    then have "routing_inv (replace_hash (session_hash (rt_workspaceId r) i (buildTurnSegment turnId mt None @ ?q)) s)"
      by (intro replace_hash_inv) simp
    then show ?thesis
      using assms(1) Some \<open>parseHash _ = Some r\<close> by (simp add: replaceTurnInUrl_def session_hash_def Let_def)
  qed (use assms(1) Some in \<open>simp add: replaceTurnInUrl_def\<close>)
qed (use assms(1) in \<open>simp add: replaceTurnInUrl_def\<close>)

lemma navigateHome_inv: "routing_inv (navigateHome s)"
proof -
  have "parseHash [] = None" by code_simp
  then show ?thesis by (auto simp: routing_inv_def navigateHome_def hash_ok_def intro: sym)
qed

lemma to_workspace_inv:
  "routing_inv s \<Longrightarrow> route_state s = Some r \<Longrightarrow> routing_inv (replace_hash (workspace_hash (rt_workspaceId r)) s)"
  by (rule replace_hash_inv) (auto simp: routing_inv_def intro!: workspace_hash_ok dest: parse_ids [OF sym])

lemma handleHashChange_inv: "routing_inv s \<Longrightarrow> routing_inv (handleHashChange (s\<lparr>hash_events := n\<rparr>))"
  by (auto simp: routing_inv_def handleHashChange_def)

lemma routing_step_inv: "routing_step s s' \<Longrightarrow> routing_inv s \<Longrightarrow> routing_inv s'"
proof (induction rule: routing_step.induct)
  case (Edit s h)
  then show ?case using as_hash_ok [of h] by (auto simp: routing_inv_def)
next
  case (ClearActive s)
  then show ?case
    by (auto simp: clearActiveSession_def navigateHome_inv to_workspace_inv split: option.splits)
next
  case (ConsumeSend s)
  then show ?case by (auto simp: consumeSendMessages_def to_workspace_inv split: option.splits)
next
  case (ReplaceTurn turnId mt s)
  then show ?case by (blast intro: replaceTurn_inv)
qed (simp_all add: handleHashChange_inv assign_hash_inv navigateHome_inv setDensity_inv
  navigateToSession_def navigateToBoard_def navigateToWorkspace_def Let_def)

text \<open>C23. In every run - navigation, edits of the address bar, history, density, scrolling - the route shown
  is the route the hash says as soon as no \<open>hashchange\<close> event is queued, and it was always read from
  some hash.\<close>

theorem route_follows_hash:
  assumes "routing_run h s"
  shows "(hash_events s = 0 \<longrightarrow> route_state s = parseHash (loc_hash s)) \<and> (\<exists>g. route_state s = parseHash g)"
proof -
  have "routing_inv s"
    using assms
  proof induction
    case Start
    show ?case using as_hash_ok [of h] by (auto simp: routing_inv_def openRouting_def)
  qed (rule routing_step_inv)
  then show ?thesis by (auto simp: routing_inv_def)
qed

definition sample_route :: routing where
  "sample_route = setDensity ''terse'' (handleHashChange ((navigateToSession ''ws.1'' ''s-1'' None
     (openRouting (as_hash ''#/workspaces/ws.1'')))\<lparr>hash_events := 0\<rparr>))"

lemma route_follows_hash_witness:
  "hash_events sample_route = 0 \<and> loc_hash sample_route = ''#/workspaces/ws.1/sessions/s-1?density=terse''
   \<and> route_state sample_route = parseHash (loc_hash sample_route) \<and> route_state sample_route \<noteq> None"
proof -
  let ?a = "openRouting (as_hash ''#/workspaces/ws.1'')"
  let ?b = "navigateToSession ''ws.1'' ''s-1'' None ?a"
  have "hash_events ?b = 1" by code_simp
  have "routing_run ''#/workspaces/ws.1'' ?b" by (rule More [OF Start ToSession])
  moreover from \<open>hash_events ?b = 1\<close> have "routing_step ?b (handleHashChange (?b\<lparr>hash_events := 0\<rparr>))"
    using HashChange [of ?b] by simp
  ultimately have "routing_run ''#/workspaces/ws.1'' sample_route"
    unfolding sample_route_def by (blast intro: More Density)
  from route_follows_hash [OF this]
  have "hash_events sample_route = 0 \<longrightarrow> route_state sample_route = parseHash (loc_hash sample_route)" by blast
  moreover have "hash_events sample_route = 0 \<and> loc_hash sample_route = ''#/workspaces/ws.1/sessions/s-1?density=terse''
      \<and> map_option rt_density (route_state sample_route) = Some ''terse''"
    by code_simp
  ultimately show ?thesis by auto
qed

section \<open>Links to bookmarks\<close>

lemma key_is_part:
  assumes "paragraphBookmarkKey (Some e) sg b = Some tail \<or> toolBookmarkKey (Some e) = Some tail"
  shows "is_part tail \<and> parseTail (Some tail) \<noteq> None \<and> tail \<noteq> ''user''"
proof -
  have "is_part tail \<and> tail \<noteq> ''user''"
    using assms
    by (auto simp: paragraphBookmarkKey_def toolBookmarkKey_def is_key_def is_part_def is_id_def starts_with_def
        list_all_iff Let_def split: if_splits)
  moreover have "parseTail (Some tail) \<noteq> None"
    using assms parse_paragraph [of e sg b tail] parse_tool [of e tail] by auto
  ultimately show ?thesis by blast
qed

lemma plain_tails: "parseTail (Some ''user'') = None" "parseTail (Some ''assistant'') = None"
  by code_simp+

lemma parse_turn_hash:
  assumes "is_workspace w" "is_id s" "is_id turn" "r \<in> {''u'', ''a''}"
    and "part = None \<or> (\<exists>p. part = Some p \<and> is_part p)"
  shows "parseHash (session_hash w s (''/turns/'' @ r @ ''-'' @ turn @ (case part of None \<Rightarrow> [] | Some p \<Rightarrow> ''/'' @ p)))
    = Some \<lparr>rt_workspaceId = w, rt_sessionId = Some s, rt_boardId = None, rt_turnId = Some turn,
        rt_messageType = (if r = ''u'' then Some ''user'' else Some ''assistant''),
        rt_target = (if r = ''a'' then part else None), rt_density = ''comfortable'', rt_sendMessages = []\<rparr>"
proof -
  let ?segs = "[''#'', ''workspaces'', w, ''sessions'', s, ''turns'', r @ ''-'' @ turn] @ (case part of None \<Rightarrow> [] | Some p \<Rightarrow> [p])"
  let ?h = "session_hash w s (''/turns/'' @ r @ ''-'' @ turn @ (case part of None \<Rightarrow> [] | Some p \<Rightarrow> ''/'' @ p))"
  note chars = is_workspace_chars [OF assms(1)] is_id_chars [OF assms(2)] is_id_chars [OF assms(3)]
  have h: "?h = intercalate ''/'' ?segs"
    by (cases part) (simp_all add: session_hash_def workspace_hash_def)
  have "split_char (CHR ''/'') (intercalate ''/'' ?segs) = ?segs"
    using chars assms(4,5) by (intro split_intercalate) (auto dest: is_part_chars)
  moreover have "CHR ''?'' \<notin> set ?h"
    using chars assms(4,5) by (auto simp: session_hash_def workspace_hash_def dest: is_part_chars)
  moreover have "match_segments ?segs = Some (Session w (Some s) (Some (r, turn)) part)"
    using assms by (cases part) (auto simp: match_turn_def starts_with_def)
  moreover have "search_params [] = []" by code_simp
  ultimately show ?thesis
    using assms(4) h by (auto simp: parseHash_def hash_path_plain Let_def)
qed

text \<open>C24. The link of a bookmark leads to it: for the tail of a message, of a paragraph or of a tool
  call, the browser keeps the built hash as it is, and the parser reads back the workspace, the session,
  the turn, the role, and the part - for a part - as the very tail of the bookmark's id.\<close>

theorem bookmark_link_leads_there:
  assumes "is_workspace w" and "is_id s" and "is_id turn"
    and "tail = ''user'' \<or> tail = ''assistant'' \<or> paragraphBookmarkKey (Some e) sg b = Some tail
      \<or> toolBookmarkKey (Some e) = Some tail"
  shows "\<exists>h. buildSessionHref page w s (Some (bookmarkJumpOptions turn tail)) = page @ h \<and> as_hash h = h
    \<and> parseHash h = Some \<lparr>rt_workspaceId = w, rt_sessionId = Some s, rt_boardId = None, rt_turnId = Some turn,
        rt_messageType = Some (if tail = ''user'' then ''user'' else ''assistant''),
        rt_target = (if tail = ''user'' \<or> tail = ''assistant'' then None else Some tail),
        rt_density = ''comfortable'', rt_sendMessages = []\<rparr>"
proof -
  let ?r = "if tail = ''user'' then ''u'' else ''a''"
  let ?part = "if tail = ''user'' \<or> tail = ''assistant'' then None else Some tail"
  let ?seg = "''/turns/'' @ ?r @ ''-'' @ turn @ (case ?part of None \<Rightarrow> [] | Some p \<Rightarrow> ''/'' @ p)"
  have part: "?part = None \<or> (\<exists>p. ?part = Some p \<and> is_part p)"
    and tail: "tail = ''user'' \<or> tail = ''assistant'' \<or> (parseTail (Some tail) \<noteq> None \<and> is_part tail \<and> tail \<noteq> ''user'')"
    using assms(4) key_is_part [of e sg b tail] by auto
  have turn: "turn \<noteq> []" using assms(3) by (simp add: is_id_def)
  have "turn_segment (Some (bookmarkJumpOptions turn tail)) = ?seg"
    using tail turn is_part_chars [of tail]
    by (auto simp: turn_segment_def bookmarkJumpOptions_def plain_tails buildTurnSegment_def nonempty_iff)
  moreover have "\<forall>c \<in> set ?seg. hash_safe c"
  proof -
    have "list_all hash_safe ''/turns/'' \<and> list_all hash_safe ''ua-/''" by code_simp
    then show ?thesis
      using is_id_chars [OF assms(3)] part by (auto simp: list_all_iff dest!: is_part_chars split: if_splits)
  qed
  then have "as_hash (session_hash w s ?seg) = session_hash w s ?seg"
    by (intro as_hash_id session_hash_ok assms)
  ultimately show ?thesis
    using parse_turn_hash [OF assms(1-3) _ part, of ?r] by (intro exI [of _ "session_hash w s ?seg"]) (auto simp: buildSessionHref_def)
qed

lemma bookmark_link_leads_there_witness:
  "\<exists>h. buildSessionHref ''/app'' ''ws.1'' ''s-1'' (Some (bookmarkJumpOptions ''t_7'' ''p-ev-7-0-12'')) = ''/app'' @ h
    \<and> as_hash h = h \<and> map_option rt_target (parseHash h) = Some (Some ''p-ev-7-0-12'')"
proof -
  have "is_workspace ''ws.1''" "is_id ''s-1''" "is_id ''t_7''" by code_simp+
  moreover have "paragraphBookmarkKey (Some ''ev-7'') 0 12 = Some ''p-ev-7-0-12''" by code_simp
  ultimately show ?thesis
    using bookmark_link_leads_there [of "''ws.1''" "''s-1''" "''t_7''" "''p-ev-7-0-12''" "''ev-7''" 0 12 "''/app''"]
    by auto
qed

section \<open>Density\<close>

lemma split_query_single: "CHR ''?'' \<notin> set (hash_query h) \<Longrightarrow> split_query h = hash_query h"
proof -
  assume q: "CHR ''?'' \<notin> set (hash_query h)"
  consider "h = hash_path h" | "h = hash_path h @ ''?'' @ hash_query h" using hash_parts by blast
  then show ?thesis
  proof cases
    case 1
    then have "CHR ''?'' \<notin> set h" by (metis hash_path_no_query)
    then show ?thesis by (simp add: split_query_def split_char_plain hash_path_plain)
  next
    case 2
    then have "split_char (CHR ''?'') h = [hash_path h, hash_query h]"
      using split_char_append [of "CHR ''?''" "hash_path h" "hash_query h"] q by (simp add: split_char_plain)
    then show ?thesis by (simp add: split_query_def)
  qed
qed

lemma parse_same_path:
  assumes "hash_path n = hash_path h" and "search_params (hash_query n) = ps"
    and "params_getAll ps ''send'' = params_getAll (search_params (hash_query h)) ''send''"
    and "parseHash h = Some r"
  shows "parseHash n = Some (r\<lparr>rt_density := if map_of ps ''density'' = Some ''terse'' then ''terse'' else ''comfortable''\<rparr>)"
proof -
  obtain m where m: "match_segments (split_char (CHR ''/'') (hash_path h)) = Some m"
    using assms(4) by (auto simp: parseHash_def Let_def split: option.splits)
  show ?thesis
    using assms(4) unfolding parseHash_def Let_def assms(1-3) m
    by (cases m; cases "map_of ps ''density''") auto
qed

text \<open>Setting the density changes the density and nothing else: on a route whose query has no second
  question mark, the new hash parses to the same workspace, session, board, turn and carried messages, and
  the route shown is that one.\<close>

theorem density_changes_nothing_else:
  assumes "as_hash (loc_hash s) = loc_hash s" and "parseHash (loc_hash s) = Some r" and "CHR ''?'' \<notin> set (hash_query (loc_hash s))"
  shows "parseHash (loc_hash (setDensity d s))
      = Some (r\<lparr>rt_density := if d = ''terse'' then ''terse'' else ''comfortable''\<rparr>)
    \<and> route_state (setDensity d s) = parseHash (loc_hash (setDensity d s))"
proof -
  let ?p = "hash_path (loc_hash s)"
  let ?ps = "search_params (hash_query (loc_hash s))"
  let ?ps' = "if d = ''terse'' then params_set ?ps ''density'' ''terse'' else params_delete ?ps ''density''"
  let ?qs = "params_string ?ps'"
  let ?n = "if ?qs = [] then ?p else ?p @ ''?'' @ ?qs"
  have set: "setDensity d s = replace_hash ?n s"
    by (simp add: setDensity_def split_query_single [OF assms(3)] Let_def)
  have "hash_ok (loc_hash s)" using as_hash_ok [of "loc_hash s"] assms(1) by simp
  then have "routing_inv (setDensity d (s\<lparr>route_state := parseHash (loc_hash s), hash_events := 0\<rparr>))"
    by (intro setDensity_inv) (auto simp: routing_inv_def)
  then have as: "parseHash (as_hash ?n) = parseHash ?n"
    by (auto simp: setDensity_def split_query_single [OF assms(3)] Let_def replace_hash_def routing_inv_def)
  have n: "hash_path ?n = ?p \<and> search_params (hash_query ?n) = ?ps'"
  proof (cases "?qs = []")
    case True
    then have "?ps' = search_params []" using params_roundtrip [of ?ps'] by simp
    with True show ?thesis by (simp add: hash_path_plain)
  next
    case False
    then show ?thesis using hash_path_append [of ?p ?qs] params_roundtrip [of ?ps'] by simp
  qed
  have "map_of ?ps' ''density'' = (if d = ''terse'' then Some ''terse'' else None)"
    "params_getAll ?ps' ''send'' = params_getAll ?ps ''send''"
    by (auto simp: map_of_params_set map_of_params_delete getAll_params_set getAll_params_delete)
  then have "parseHash ?n = Some (r\<lparr>rt_density := if d = ''terse'' then ''terse'' else ''comfortable''\<rparr>)"
    using parse_same_path [of ?n "loc_hash s" ?ps' r] n assms(2) by simp
  then show ?thesis unfolding set replace_hash_def by (simp add: as)
qed

lemma density_changes_nothing_else_witness:
  "let s = openRouting ''#/workspaces/ws?send=/greet+ada&send=go'' in
     map_option rt_sendMessages (parseHash (loc_hash (setDensity ''terse'' s))) = Some [''/greet ada'', ''go'']"
proof -
  let ?s = "openRouting ''#/workspaces/ws?send=/greet+ada&send=go''"
  have "as_hash (loc_hash ?s) = loc_hash ?s" by code_simp
  moreover have "CHR ''?'' \<notin> set (hash_query (loc_hash ?s))" by code_simp
  moreover obtain r where "parseHash (loc_hash ?s) = Some r" "rt_sendMessages r = [''/greet ada'', ''go'']"
  proof -
    have "map_option rt_sendMessages (parseHash (loc_hash ?s)) = Some [''/greet ada'', ''go'']" by code_simp
    then show ?thesis using that by auto
  qed
  ultimately show ?thesis
    using density_changes_nothing_else [of ?s r "''terse''"] by (simp add: Let_def)
qed

end
