(* ===== verification/Anchor.thy ===== *)
theory Anchor
  imports Prelude
begin

text \<open>
  Text-quote anchors (\<open>features/chat/components/inline-replies/anchor.js\<close>): a selection in the rendered
  text of a turn is captured as quote, context and offset, and located again after the turn was rendered
  anew. The document is what the walker sees of it: the text nodes below the role element, in document
  order, each with its text and whether its parent lies in quotable text and in excluded chrome.
\<close>

section \<open>The quotable text\<close>

record text_node =
  tn_id :: nat
  tn_text :: string
  tn_included :: bool
  tn_excluded :: bool

record placed_node =
  pn_node :: text_node
  pn_start :: nat

definition accepted :: "text_node \<Rightarrow> bool" where
  "accepted n \<longleftrightarrow> tn_included n \<and> \<not> tn_excluded n"

definition walkStep :: "string \<times> placed_node list \<Rightarrow> text_node \<Rightarrow> string \<times> placed_node list" where
  "walkStep acc n = (case acc of (text, nodes) \<Rightarrow>
     (text @ tn_text n, nodes @ [\<lparr>pn_node = n, pn_start = length text\<rparr>]))"

definition canonicalTurnText :: "text_node list \<Rightarrow> string \<times> placed_node list" where
  "canonicalTurnText roleEl = foldl walkStep ([], []) (filter accepted roleEl)"

section \<open>Searching\<close>

text \<open>\<open>haystack.indexOf(needle, pos)\<close>; an empty needle is found at \<open>pos\<close>, or at the end.\<close>

definition occurs_at :: "string \<Rightarrow> string \<Rightarrow> nat \<Rightarrow> bool" where
  "occurs_at text needle i \<longleftrightarrow> i + length needle \<le> length text \<and> take (length needle) (drop i text) = needle"

definition index_from :: "string \<Rightarrow> string \<Rightarrow> nat \<Rightarrow> nat option" where
  "index_from haystack needle pos = find (occurs_at haystack needle) [min pos (length haystack)..<Suc (length haystack)]"

lemma find_upt: "find P [a..<b] = Some i \<longleftrightarrow> a \<le> i \<and> i < b \<and> P i \<and> (\<forall>j. a \<le> j \<longrightarrow> j < i \<longrightarrow> \<not> P j)"
proof (induction "b - a" arbitrary: a)
  case (Suc x)
  then have "[a..<b] = a # [Suc a..<b]" by (simp add: upt_conv_Cons)
  with Suc.hyps(1) [of "Suc a"] Suc.hyps(2) show ?case
    by (auto simp: Suc_le_eq) (metis le_neq_implies_less not_less)+
qed auto

lemma index_from_Some:
  "index_from h n pos = Some i \<longleftrightarrow>
     occurs_at h n i \<and> min pos (length h) \<le> i \<and> (\<forall>j. min pos (length h) \<le> j \<longrightarrow> j < i \<longrightarrow> \<not> occurs_at h n j)"
  unfolding index_from_def find_upt by (auto simp: occurs_at_def)

lemma index_from_None: "index_from h n pos = None \<longleftrightarrow> (\<forall>j. min pos (length h) \<le> j \<longrightarrow> \<not> occurs_at h n j)"
  by (auto simp: index_from_def find_None_iff occurs_at_def)

text \<open>The loop of \<open>_allIndexes\<close>: the next search starts one after the last hit.\<close>

function index_loop :: "string \<Rightarrow> string \<Rightarrow> nat \<Rightarrow> nat list" where
  "index_loop haystack needle pos =
     (if needle = [] then []
      else case index_from haystack needle pos of
             None \<Rightarrow> []
           | Some i \<Rightarrow> i # index_loop haystack needle (i + 1))"
  by pat_completeness auto
termination
proof (relation "measure (\<lambda>(h, n, pos). Suc (length h) - pos)")
  fix h n :: string and pos i :: nat
  assume "n \<noteq> []" "index_from h n pos = Some i"
  then have "pos \<le> i \<and> i < length h"
    by (cases n) (auto simp: index_from_Some occurs_at_def)
  then have "Suc (length h) - (i + 1) < Suc (length h) - pos" by arith
  then show "((h, n, i + 1), h, n, pos) \<in> measure (\<lambda>(h, n, pos). Suc (length h) - pos)" by simp
qed simp

declare index_loop.simps [simp del]

definition allIndexes :: "string \<Rightarrow> string \<Rightarrow> nat list" where
  "allIndexes haystack needle = (if needle = [] then [] else index_loop haystack needle 0)"

section \<open>Capturing\<close>

record anchor =
  a_quote :: string
  a_prefix :: string
  a_suffix :: string
  a_offset :: nat

text \<open>A selection: its text, and the node and offset it starts at.\<close>

record selection =
  sel_text :: string
  sel_startContainer :: nat
  sel_startOffset :: nat

definition CONTEXT_CHARS :: nat where
  "CONTEXT_CHARS = 32"

definition offsetOf :: "placed_node list \<Rightarrow> nat \<Rightarrow> nat \<Rightarrow> nat option" where
  "offsetOf nodes container containerOffset =
     map_option (\<lambda>e. pn_start e + containerOffset) (find (\<lambda>e. tn_id (pn_node e) = container) nodes)"

definition captureAnchor :: "selection \<Rightarrow> text_node list \<Rightarrow> anchor option" where
  "captureAnchor sel roleEl =
     (let q = sel_text sel
      in if trim q = [] then None
         else
           let (text, nodes) = canonicalTurnText roleEl;
               mapped = offsetOf nodes (sel_startContainer sel) (sel_startOffset sel)
           in case (case mapped of Some m \<Rightarrow> Some m | None \<Rightarrow> index_from text q 0) of
                None \<Rightarrow> None
              | Some i \<Rightarrow>
                  Some \<lparr>a_quote = q,
                    a_prefix = take (i - (i - CONTEXT_CHARS)) (drop (i - CONTEXT_CHARS) text),
                    a_suffix = take CONTEXT_CHARS (drop (i + length q) text),
                    a_offset = i\<rparr>)"

section \<open>Locating\<close>

definition candidateStarts :: "string \<Rightarrow> anchor \<Rightarrow> nat list" where
  "candidateStarts text a =
     (let withBoth = map (\<lambda>i. i + length (a_prefix a)) (allIndexes text (a_prefix a @ a_quote a @ a_suffix a))
      in if withBoth \<noteq> [] then withBoth
         else
           let withPrefix = map (\<lambda>i. i + length (a_prefix a)) (allIndexes text (a_prefix a @ a_quote a));
               withSuffix = allIndexes text (a_quote a @ a_suffix a);
               relaxed = withPrefix @ withSuffix
           in if relaxed \<noteq> [] then relaxed else allIndexes text (a_quote a))"

definition distance :: "nat \<Rightarrow> nat \<Rightarrow> nat" where
  "distance a b = (if a < b then b - a else a - b)"

text \<open>\<open>starts.reduce\<close> without an initial value; the list is not empty.\<close>

definition pickNearest :: "nat list \<Rightarrow> nat \<Rightarrow> nat" where
  "pickNearest starts off =
     foldl (\<lambda>best s. if distance s off < distance best off then s else best) (hd starts) (tl starts)"

definition positionAt :: "placed_node list \<Rightarrow> nat \<Rightarrow> (nat \<times> nat) option" where
  "positionAt nodes off =
     (case find (\<lambda>e. off \<le> pn_start e + length (tn_text (pn_node e))) nodes of
        Some e \<Rightarrow> Some (tn_id (pn_node e), off - pn_start e)
      | None \<Rightarrow>
          if nodes = [] then None
          else Some (tn_id (pn_node (last nodes)), length (tn_text (pn_node (last nodes)))))"

record dom_range =
  range_start :: "nat \<times> nat"
  range_end :: "nat \<times> nat"

definition rangeAt :: "placed_node list \<Rightarrow> nat \<Rightarrow> nat \<Rightarrow> dom_range option" where
  "rangeAt nodes start finish =
     (case (positionAt nodes start, positionAt nodes finish) of
        (Some s, Some e) \<Rightarrow> Some \<lparr>range_start = s, range_end = e\<rparr>
      | _ \<Rightarrow> None)"

definition resolveAnchor :: "anchor \<Rightarrow> text_node list \<Rightarrow> dom_range option" where
  "resolveAnchor a roleEl =
     (if a_quote a = [] then None
      else
        let (text, nodes) = canonicalTurnText roleEl;
            starts = candidateStarts text a
        in if starts = [] then None
           else let start = pickNearest starts (a_offset a) in rangeAt nodes start (start + length (a_quote a)))"

end
