(* ===== verification/AnchorFacts.thy ===== *)
theory AnchorFacts
  imports Anchor
begin

text \<open>
  What an anchor promises: on the text it was captured from it is located where it was; whatever the text
  has become, what it is located at reads as the quote, and it is lost only when the quote is gone; and a
  context that occurs once decides, wherever the offset points.
\<close>

section \<open>Placed nodes\<close>

fun place :: "nat \<Rightarrow> text_node list \<Rightarrow> placed_node list" where
  "place k [] = []"
| "place k (n # ns) = \<lparr>pn_node = n, pn_start = k\<rparr> # place (k + length (tn_text n)) ns"

lemma walk_place:
  "foldl walkStep (t, nodes) ns = (t @ concat (map tn_text ns), nodes @ place (length t) ns)"
  by (induction ns arbitrary: t nodes) (simp_all add: walkStep_def)

definition turn_text :: "text_node list \<Rightarrow> string" where
  "turn_text roleEl = concat (map tn_text (filter accepted roleEl))"

lemma canonicalTurnText_eq: "canonicalTurnText roleEl = (turn_text roleEl, place 0 (filter accepted roleEl))"
  by (simp add: canonicalTurnText_def walk_place turn_text_def)

text \<open>Where a position of the document lies in the canonical text.\<close>

abbreviation located_at :: "text_node list \<Rightarrow> nat \<times> nat \<Rightarrow> nat \<Rightarrow> bool" where
  "located_at roleEl p i \<equiv> offsetOf (place 0 (filter accepted roleEl)) (fst p) (snd p) = Some i"

lemma offsetOf_place:
  "distinct (map tn_id ns) \<Longrightarrow> e \<in> set (place k ns) \<Longrightarrow> offsetOf (place k ns) (tn_id (pn_node e)) off = Some (pn_start e + off)"
proof (induction ns arbitrary: k)
  case (Cons n ns)
  have ids: "x \<in> set (place j ns) \<Longrightarrow> pn_node x \<in> set ns" for x j
    by (induction ns arbitrary: j) auto
  show ?case
  proof (cases "e = \<lparr>pn_node = n, pn_start = k\<rparr>")
    case False
    then have e: "e \<in> set (place (k + length (tn_text n)) ns)" using Cons.prems(2) by simp
    moreover have "tn_id n \<noteq> tn_id (pn_node e)" using ids [OF e] Cons.prems(1) by force
    ultimately show ?thesis using Cons.IH [OF _ e] Cons.prems(1) by (simp add: offsetOf_def)
  qed (simp add: offsetOf_def)
qed simp

lemma positionAt_place:
  "ns \<noteq> [] \<Longrightarrow> k \<le> off \<Longrightarrow> off \<le> k + length (concat (map tn_text ns)) \<Longrightarrow>
     \<exists>e \<in> set (place k ns). positionAt (place k ns) off = Some (tn_id (pn_node e), off - pn_start e) \<and> pn_start e \<le> off"
proof (induction ns arbitrary: k)
  case (Cons n ns)
  show ?case
  proof (cases "off \<le> k + length (tn_text n)")
    case False
    then have "ns \<noteq> []" using Cons.prems by auto
    moreover have "place (k + length (tn_text n)) ns \<noteq> []" using \<open>ns \<noteq> []\<close> by (cases ns) simp_all
    then have "positionAt (place k (n # ns)) off = positionAt (place (k + length (tn_text n)) ns) off"
      using False by (auto simp: positionAt_def last_ConsR split: option.splits)
    ultimately show ?thesis
      using Cons.IH [of "k + length (tn_text n)"] Cons.prems False by auto
  qed (use Cons.prems in \<open>simp add: positionAt_def\<close>)
qed simp

lemma rangeAt_located:
  assumes "distinct (map tn_id (filter accepted el))" and "start \<le> finish" and "finish \<le> length (turn_text el)"
    and "turn_text el \<noteq> []"
  shows "\<exists>r. rangeAt (place 0 (filter accepted el)) start finish = Some r
    \<and> located_at el (range_start r) start \<and> located_at el (range_end r) finish"
proof -
  have ne: "filter accepted el \<noteq> []" using assms(4) by (cases "filter accepted el") (simp_all add: turn_text_def)
  have *: "\<exists>p. positionAt (place 0 (filter accepted el)) off = Some p \<and> located_at el p off"
    if "off \<le> length (turn_text el)" for off
    using positionAt_place [OF ne, of 0 off] that offsetOf_place [OF assms(1), of _ 0 "off - _"]
    by (force simp: turn_text_def)
  obtain p q where "positionAt (place 0 (filter accepted el)) start = Some p" "located_at el p start"
    "positionAt (place 0 (filter accepted el)) finish = Some q" "located_at el q finish"
    using * [of start] * [of finish] assms(2,3) by auto
  then show ?thesis by (simp add: rangeAt_def)
qed

section \<open>Occurrences\<close>

lemma index_loop_set: "n \<noteq> [] \<Longrightarrow> pos \<le> length h \<Longrightarrow> set (index_loop h n pos) = {i. pos \<le> i \<and> occurs_at h n i}"
proof (induction h n pos rule: index_loop.induct)
  case (1 h n pos)
  show ?case
  proof (cases "index_from h n pos")
    case None
    then have "index_loop h n pos = []" by (simp add: index_loop.simps [of h n pos])
    with None 1(3) show ?thesis by (auto simp: index_from_None min_def)
  next
    case (Some i)
    then have i: "occurs_at h n i" "pos \<le> i" "\<forall>j. pos \<le> j \<longrightarrow> j < i \<longrightarrow> \<not> occurs_at h n j"
      using 1(3) by (auto simp: index_from_Some min_def)
    then have "i + 1 \<le> length h" using 1(2) by (cases n) (auto simp: occurs_at_def)
    with 1 Some have "set (index_loop h n (i + 1)) = {j. i + 1 \<le> j \<and> occurs_at h n j}" by simp
    with Some 1(2) i show ?thesis
      by (auto simp: index_loop.simps [of h n pos] Suc_le_eq not_less dest: le_neq_implies_less)
  qed
qed

lemma allIndexes_set: "n \<noteq> [] \<Longrightarrow> set (allIndexes h n) = {i. occurs_at h n i}"
  by (simp add: allIndexes_def index_loop_set)

lemma occurs_at_iff: "occurs_at h n i \<longleftrightarrow> (\<exists>a b. h = a @ n @ b \<and> length a = i)"
proof
  assume o: "occurs_at h n i"
  have "h = take i h @ take (length n) (drop i h) @ drop (length n) (drop i h)"
    by (simp only: append_take_drop_id)
  with o have "h = take i h @ n @ drop (length n) (drop i h)" by (metis occurs_at_def)
  moreover have "length (take i h) = i" using o by (simp add: occurs_at_def)
  ultimately show "\<exists>a b. h = a @ n @ b \<and> length a = i" by blast
qed (auto simp: occurs_at_def)

lemma occurs_at_parts: "occurs_at h (p @ n @ s) i \<Longrightarrow> occurs_at h n (i + length p)"
  unfolding occurs_at_iff by (metis append.assoc length_append)

lemma candidates_occur:
  assumes "a_quote a \<noteq> []" and "s \<in> set (candidateStarts text a)"
  shows "occurs_at text (a_quote a) s"
  using assms occurs_at_parts [of "text" "a_prefix a" "a_quote a" "a_suffix a"]
    occurs_at_parts [of "text" "a_prefix a" "a_quote a" "[]"] occurs_at_parts [of "text" "[]" "a_quote a" "a_suffix a"]
  by (auto simp: candidateStarts_def Let_def allIndexes_set split: if_splits)

lemma candidates_none:
  assumes "a_quote a \<noteq> []"
  shows "candidateStarts text a = [] \<longleftrightarrow> (\<forall>i. \<not> occurs_at text (a_quote a) i)"
proof
  assume "candidateStarts text a = []"
  then have "allIndexes text (a_quote a) = []"
    by (auto simp: candidateStarts_def Let_def split: if_splits)
  then show "\<forall>i. \<not> occurs_at text (a_quote a) i" using allIndexes_set [OF assms, of "text"] by auto
next
  assume "\<forall>i. \<not> occurs_at text (a_quote a) i"
  then show "candidateStarts text a = []"
    using candidates_occur [OF assms, of _ "text"] by (cases "candidateStarts text a") auto
qed

lemma pickNearest_fold:
  "foldl (\<lambda>best s. if distance s off < distance best off then s else best) b ss \<in> insert b (set ss)
   \<and> (\<forall>s \<in> insert b (set ss). distance (foldl (\<lambda>best s. if distance s off < distance best off then s else best) b ss) off
        \<le> distance s off)"
proof (induction ss arbitrary: b)
  case (Cons x ss)
  from Cons.IH [of "if distance x off < distance b off then x else b"] show ?case
    by (auto split: if_splits dest: le_less_trans less_imp_le)
qed simp

lemma pickNearest_min:
  "starts \<noteq> [] \<Longrightarrow> pickNearest starts off \<in> set starts
     \<and> (\<forall>s \<in> set starts. distance (pickNearest starts off) off \<le> distance s off)"
  using pickNearest_fold [of off "hd starts" "tl starts"] by (cases starts) (auto simp: pickNearest_def)

lemma pickNearest_self: "off \<in> set starts \<Longrightarrow> pickNearest starts off = off"
proof -
  assume o: "off \<in> set starts"
  then have "starts \<noteq> []" by auto
  then have "distance (pickNearest starts off) off \<le> distance off off"
    using o pickNearest_min [of starts off] by blast
  then show ?thesis by (auto simp: distance_def split: if_splits)
qed

section \<open>What an anchor promises\<close>

text \<open>C25. An anchor is located where it was captured: on the text it was taken from, the range found
  starts at the captured offset and ends one quote later - whatever other occurrences of the quote and its
  context the text has. The selection's text is what the quotable text has at its start, and the text
  nodes are distinct.\<close>

theorem anchor_resolves_where_captured:
  assumes "captureAnchor sel el = Some a" and "distinct (map tn_id (filter accepted el))"
    and "\<forall>m. offsetOf (place 0 (filter accepted el)) (sel_startContainer sel) (sel_startOffset sel) = Some m
      \<longrightarrow> occurs_at (turn_text el) (sel_text sel) m"
  shows "\<exists>r. resolveAnchor a el = Some r \<and> located_at el (range_start r) (a_offset a)
    \<and> located_at el (range_end r) (a_offset a + length (sel_text sel))"
proof -
  let ?t = "turn_text el" and ?q = "sel_text sel" and ?i = "a_offset a"
  have q: "?q \<noteq> []" using assms(1) by (auto simp: captureAnchor_def Let_def)
  have a: "a_quote a = ?q" "a_prefix a = take (?i - (?i - CONTEXT_CHARS)) (drop (?i - CONTEXT_CHARS) ?t)"
    "a_suffix a = take CONTEXT_CHARS (drop (?i + length ?q) ?t)" "occurs_at ?t ?q ?i"
    using assms(1,3) by (auto simp: captureAnchor_def Let_def canonicalTurnText_eq index_from_Some split: if_splits option.splits)
  then obtain x y where xy: "?t = x @ ?q @ y" "length x = ?i" by (auto simp: occurs_at_iff)
  have pre: "x = take (?i - CONTEXT_CHARS) x @ a_prefix a" "length (a_prefix a) \<le> ?i"
    using a(2) xy by (simp_all add: min_def)
  have "?t = take (?i - CONTEXT_CHARS) x @ (a_prefix a @ ?q @ a_suffix a) @ drop CONTEXT_CHARS y"
    using xy pre(1) a(3) by (metis append.assoc append_take_drop_id append_eq_conv_conj length_append)
  then have occ: "occurs_at ?t (a_prefix a @ ?q @ a_suffix a) (?i - length (a_prefix a))"
    unfolding occurs_at_iff using pre xy(2) by (metis add_diff_cancel_right' length_append)
  have "?i \<in> set (candidateStarts ?t a)"
  proof -
    have "?i - length (a_prefix a) \<in> set (allIndexes ?t (a_prefix a @ ?q @ a_suffix a))"
      using occ q by (simp add: allIndexes_set)
    then have "?i \<in> (\<lambda>i. i + length (a_prefix a)) ` set (allIndexes ?t (a_prefix a @ ?q @ a_suffix a))"
      using pre(2) by force
    then show ?thesis by (auto simp: candidateStarts_def a(1) Let_def)
  qed
  then have "resolveAnchor a el = rangeAt (place 0 (filter accepted el)) ?i (?i + length ?q)"
    using q a(1) pickNearest_self [of ?i "candidateStarts ?t a"]
    by (auto simp: resolveAnchor_def canonicalTurnText_eq Let_def)
  moreover have "?i + length ?q \<le> length ?t" "?t \<noteq> []" using xy q by auto
  ultimately show ?thesis using rangeAt_located [OF assms(2), of ?i "?i + length ?q"] by simp
qed

text \<open>C26. Whatever the text has become, the range found reads as the quote: it spans an occurrence of it,
  the one nearest to the captured offset among those with the most context; and no range is found exactly
  if the quote is empty or occurs nowhere.\<close>

theorem anchor_resolves_to_the_quote:
  assumes "distinct (map tn_id (filter accepted el))"
  shows "case resolveAnchor a el of
      None \<Rightarrow> a_quote a = [] \<or> (\<forall>i. \<not> occurs_at (turn_text el) (a_quote a) i)
    | Some r \<Rightarrow> \<exists>i. occurs_at (turn_text el) (a_quote a) i \<and> located_at el (range_start r) i
        \<and> located_at el (range_end r) (i + length (a_quote a))
        \<and> (\<forall>j \<in> set (candidateStarts (turn_text el) a). distance i (a_offset a) \<le> distance j (a_offset a))"
proof (cases "a_quote a = [] \<or> candidateStarts (turn_text el) a = []")
  case True
  then have "resolveAnchor a el = None"
    by (auto simp: resolveAnchor_def canonicalTurnText_eq Let_def)
  with True candidates_none [of a "turn_text el"] show ?thesis by auto
next
  case False
  let ?i = "pickNearest (candidateStarts (turn_text el) a) (a_offset a)"
  have i: "?i \<in> set (candidateStarts (turn_text el) a)"
    "\<forall>j \<in> set (candidateStarts (turn_text el) a). distance ?i (a_offset a) \<le> distance j (a_offset a)"
    using False pickNearest_min by blast+
  then have occ: "occurs_at (turn_text el) (a_quote a) ?i" using False candidates_occur by blast
  then have "?i + length (a_quote a) \<le> length (turn_text el)" "turn_text el \<noteq> []"
    using False by (auto simp: occurs_at_def)
  with rangeAt_located [OF assms, of ?i "?i + length (a_quote a)"] obtain r
    where "resolveAnchor a el = Some r" "located_at el (range_start r) ?i"
      "located_at el (range_end r) (?i + length (a_quote a))"
    using False by (auto simp: resolveAnchor_def canonicalTurnText_eq Let_def)
  with occ i(2) show ?thesis by auto
qed

text \<open>Context decides over position: where quote and context together occur once, that occurrence is
  located, however far the text around it has moved it from the captured offset.\<close>

theorem anchor_follows_its_context:
  assumes "distinct (map tn_id (filter accepted el))" and "a_quote a \<noteq> []"
    and "\<forall>i. occurs_at (turn_text el) (a_prefix a @ a_quote a @ a_suffix a) i \<longleftrightarrow> i = k"
  shows "\<exists>r. resolveAnchor a el = Some r \<and> located_at el (range_start r) (k + length (a_prefix a))
    \<and> located_at el (range_end r) (k + length (a_prefix a) + length (a_quote a))"
proof -
  let ?s = "k + length (a_prefix a)"
  have "set (allIndexes (turn_text el) (a_prefix a @ a_quote a @ a_suffix a)) = {k}"
    using assms(2,3) by (simp add: allIndexes_set)
  then have c: "candidateStarts (turn_text el) a \<noteq> []" "set (candidateStarts (turn_text el) a) = {?s}"
    by (auto simp: candidateStarts_def Let_def)
  then have "pickNearest (candidateStarts (turn_text el) a) (a_offset a) = ?s"
    using pickNearest_min [OF c(1)] by blast
  moreover have "occurs_at (turn_text el) (a_quote a) ?s" using c(2) candidates_occur [OF assms(2)] by blast
  then have "?s + length (a_quote a) \<le> length (turn_text el)" "turn_text el \<noteq> []"
    using assms(2) by (auto simp: occurs_at_def)
  ultimately show ?thesis
    using rangeAt_located [OF assms(1), of ?s "?s + length (a_quote a)"] c(1) assms(2)
    by (auto simp: resolveAnchor_def canonicalTurnText_eq Let_def)
qed

definition sample_turn :: "text_node list" where
  "sample_turn =
    [\<lparr>tn_id = 1, tn_text = ''see the '', tn_included = True, tn_excluded = False\<rparr>,
     \<lparr>tn_id = 2, tn_text = ''copy'', tn_included = True, tn_excluded = True\<rparr>,
     \<lparr>tn_id = 3, tn_text = ''test, the test'', tn_included = True, tn_excluded = False\<rparr>]"

lemma anchor_resolves_where_captured_witness:
  "\<exists>a r. captureAnchor \<lparr>sel_text = ''test'', sel_startContainer = 3, sel_startOffset = 10\<rparr> sample_turn = Some a
    \<and> a_offset a = 18 \<and> resolveAnchor a sample_turn = Some r \<and> located_at sample_turn (range_start r) 18"
proof -
  let ?sel = "\<lparr>sel_text = ''test'', sel_startContainer = 3, sel_startOffset = 10\<rparr>"
  obtain a where a: "captureAnchor ?sel sample_turn = Some a" "a_offset a = 18"
  proof -
    have "map_option a_offset (captureAnchor ?sel sample_turn) = Some 18" by code_simp
    then show ?thesis using that by auto
  qed
  have m: "offsetOf (place 0 (filter accepted sample_turn)) (sel_startContainer ?sel) (sel_startOffset ?sel) = Some 18
      \<and> occurs_at (turn_text sample_turn) (sel_text ?sel) 18 \<and> distinct (map tn_id (filter accepted sample_turn))"
    by code_simp
  show ?thesis
    using anchor_resolves_where_captured [OF a(1)] m a by auto
qed

lemma anchor_resolves_to_the_quote_witness:
  "\<exists>r i. resolveAnchor \<lparr>a_quote = ''test'', a_prefix = ''a '', a_suffix = [], a_offset = 30\<rparr> sample_turn = Some r
    \<and> occurs_at (turn_text sample_turn) ''test'' i \<and> located_at sample_turn (range_start r) i"
proof -
  let ?a = "\<lparr>a_quote = ''test'', a_prefix = ''a '', a_suffix = [], a_offset = 30\<rparr>"
  have "distinct (map tn_id (filter accepted sample_turn)) \<and> resolveAnchor ?a sample_turn \<noteq> None" by code_simp
  then show ?thesis using anchor_resolves_to_the_quote [of sample_turn ?a] by auto
qed

lemma anchor_follows_its_context_witness:
  "\<exists>r. resolveAnchor \<lparr>a_quote = ''test'', a_prefix = ''e '', a_suffix = '','', a_offset = 900\<rparr> sample_turn = Some r
    \<and> located_at sample_turn (range_start r) 8"
proof -
  let ?a = "\<lparr>a_quote = ''test'', a_prefix = ''e '', a_suffix = '','', a_offset = 900\<rparr>"
  have d: "distinct (map tn_id (filter accepted sample_turn)) \<and> allIndexes (turn_text sample_turn) ''e test,'' = [6]"
    by code_simp
  then have "set (allIndexes (turn_text sample_turn) ''e test,'') = {6}" by simp
  then have "{i. occurs_at (turn_text sample_turn) ''e test,'' i} = {6}" by (simp add: allIndexes_set)
  then have "\<forall>i. occurs_at (turn_text sample_turn) (a_prefix ?a @ a_quote ?a @ a_suffix ?a) i \<longleftrightarrow> i = 6" by auto
  with anchor_follows_its_context [of sample_turn ?a 6] d show ?thesis by (auto simp: numeral_eq_Suc)
qed

end
