(* ===== verification/ThreadEvents.thy ===== *)
theory ThreadEvents
  imports EventsReducer
begin

text \<open>
  The events of a side thread, arranged for the turn builder
  (\<open>features/chat/components/inline-replies/threadEvents.js\<close>), and where the inherited history of a
  promoted thread ends (\<open>features/chat/utils/turnFold.js\<close>). The lists the code appends to are the
  segments of one record, addressed by number: \<open>current\<close> and the map by turn id hold references to them.
\<close>

section \<open>Where the fork is\<close>

definition isForkDivider :: "event \<Rightarrow> bool" where
  "isForkDivider e \<longleftrightarrow> ev_type e = Ty_SYSTEM \<and> ev_subtype e = Sub_CONTAINER_RESTARTED
     \<and> truthy (jget (message_data e) ''fork_parent_session_id'')"

definition findForkDivider :: "turn \<Rightarrow> event option" where
  "findForkDivider t = find isForkDivider (settingChanges t)"

definition computeFoldBoundary :: "turn list \<Rightarrow> bool \<Rightarrow> nat option" where
  "computeFoldBoundary trns isSideThread =
     (if \<not> isSideThread then None else last_index (\<lambda>t. findForkDivider t \<noteq> None) trns)"

definition resolveForkParentId :: "turn list \<Rightarrow> nat option \<Rightarrow> jval" where
  "resolveForkParentId trns boundary =
     (case boundary of
        None \<Rightarrow> JNull
      | Some i \<Rightarrow>
          (case findForkDivider (trns ! i) of
             None \<Rightarrow> JNull
           | Some e \<Rightarrow> jcoalesce (jget (message_data e) ''fork_parent_session_id'') JNull))"

definition threadOwnEvents :: "event list \<Rightarrow> event list" where
  "threadOwnEvents es = (case last_index isForkDivider es of None \<Rightarrow> es | Some seam \<Rightarrow> drop (Suc seam) es)"

section \<open>Questions\<close>

definition quoteBlock :: "string \<Rightarrow> string" where
  "quoteBlock q = intercalate [CHR 0x0A]
     (map (\<lambda>line. if line \<noteq> [] then ''> '' @ line else ''>'') (split_char (CHR 0x0A) q))"

definition opensExchange :: "event \<Rightarrow> bool" where
  "opensExchange e \<longleftrightarrow> isHumanEvent e \<and> \<not> nested e \<and> isVisibleEvent e"

definition pendingQuestion :: "string \<Rightarrow> event" where
  "pendingQuestion c = blank_event\<lparr>ev_type := Ty_USER, ev_subtype := Sub_TEXT, is_human := True, content := Some c\<rparr>"

record pending_question =
  pq_content :: string
  pq_at :: nat

definition countExchanges :: "event list \<Rightarrow> pending_question list \<Rightarrow> nat" where
  "countExchanges es pending = length (filter opensExchange es) + length pending"

section \<open>Arranging\<close>

record arranging =
  segments :: "event list list"
  by_turn :: "string \<rightharpoonup> nat"
  current :: nat
  waiting :: "pending_question list"

definition open_segment :: "event \<Rightarrow> arranging \<Rightarrow> arranging" where
  "open_segment head s = s\<lparr>segments := segments s @ [[head]], current := length (segments s)\<rparr>"

text \<open>\<open>None\<close> is the index \<open>Number.POSITIVE_INFINITY\<close>.\<close>

fun open_pending :: "nat option \<Rightarrow> pending_question list \<Rightarrow> arranging \<Rightarrow> arranging" where
  "open_pending index [] s = s\<lparr>waiting := []\<rparr>"
| "open_pending index (p # ps) s =
     (if (case index of None \<Rightarrow> True | Some i \<Rightarrow> pq_at p \<le> i)
      then open_pending index ps (open_segment (pendingQuestion (pq_content p)) s)
      else s\<lparr>waiting := p # ps\<rparr>)"

definition openPendingUpTo :: "nat option \<Rightarrow> arranging \<Rightarrow> arranging" where
  "openPendingUpTo index s = open_pending index (waiting s) s"

definition arrangeStep :: "arranging \<Rightarrow> nat \<times> event \<Rightarrow> arranging" where
  "arrangeStep s0 ie = (case ie of (i, e) \<Rightarrow>
     let s = openPendingUpTo (Some i) s0
     in if opensExchange e then
          (let s' = open_segment e s
           in case ev_turn_id e of
                Some t \<Rightarrow> if t \<noteq> [] then s'\<lparr>by_turn := (by_turn s')(t \<mapsto> current s')\<rparr> else s'
              | None \<Rightarrow> s')
        else
          (let owner = (case Option.bind (ev_turn_id e) (by_turn s) of Some k \<Rightarrow> k | None \<Rightarrow> current s)
           in s\<lparr>segments := update_at owner (\<lambda>seg. seg @ [e]) (segments s)\<rparr>))"

definition arrangeThreadEvents :: "event list \<Rightarrow> pending_question list \<Rightarrow> event list" where
  "arrangeThreadEvents es pending =
     concat (segments (openPendingUpTo None
       (foldl arrangeStep \<lparr>segments = [[]], by_turn = Map.empty, current = 0, waiting = pending\<rparr> (enumerate 0 es))))"

text \<open>\<open>None\<close> is the error that a question without text raises.\<close>

definition withoutQuoteBlock :: "event list \<Rightarrow> string option \<Rightarrow> event list option" where
  "withoutQuoteBlock es quote =
     (case quote of
        None \<Rightarrow> Some es
      | Some q \<Rightarrow>
          (case find_index opensExchange es of
             None \<Rightarrow> Some es
           | Some first \<Rightarrow>
               let prefix = quoteBlock q @ [CHR 0x0A, CHR 0x0A]
               in case content (es ! first) of
                    None \<Rightarrow> None
                  | Some c \<Rightarrow>
                      if \<not> starts_with prefix c then Some es
                      else Some (es[first := (es ! first)\<lparr>content := Some (drop (length prefix) c)\<rparr>])))"

definition deriveThreadTurns ::
  "int \<Rightarrow> event list \<Rightarrow> pending_question list \<Rightarrow> string option \<Rightarrow> events_state option" where
  "deriveThreadTurns now es pending quote =
     Option.bind (withoutQuoteBlock (arrangeThreadEvents es pending) quote) (flushBatch now initialState)"

definition openingExchange :: "event list \<Rightarrow> event list" where
  "openingExchange es =
     (let own = threadOwnEvents es;
          opens = filter (\<lambda>i. opensExchange (own ! i)) [0..<length own]
      in if length opens > 1 then take (opens ! 1) own else own)"

end
