(* ===== verification/ThreadEventFacts.thy ===== *)
theory ThreadEventFacts
  imports ThreadEvents
begin

text \<open>
  The arrangement of a thread against its reference: every item of the merged sequence of events and
  pending questions belongs to one exchange, and the arrangement is the exchanges one after the other. What
  the turn builder draws from it is one turn per question.
\<close>

section \<open>The merged sequence\<close>

text \<open>An item is an event and whether it opens a segment.\<close>

definition asked :: "pending_question \<Rightarrow> bool \<times> event" where
  "asked p = (True, pendingQuestion (pq_content p))"

fun merged :: "pending_question list \<Rightarrow> nat \<Rightarrow> event list \<Rightarrow> (bool \<times> event) list" where
  "merged ps i [] = map asked ps"
| "merged ps i (e # es) =
     map asked (takeWhile (\<lambda>p. pq_at p \<le> i) ps) @ (opensExchange e, e)
       # merged (dropWhile (\<lambda>p. pq_at p \<le> i) ps) (Suc i) es"

lemma merged_events: "mset (map snd (merged ps i es)) = mset es + mset (map (pendingQuestion \<circ> pq_content) ps)"
proof (induction es arbitrary: ps i)
  case Nil
  then show ?case by (simp add: asked_def comp_def)
next
  case (Cons e es)
  have "mset (map (pendingQuestion \<circ> pq_content) ps)
      = mset (map (pendingQuestion \<circ> pq_content) (takeWhile (\<lambda>p. pq_at p \<le> i) ps))
        + mset (map (pendingQuestion \<circ> pq_content) (dropWhile (\<lambda>p. pq_at p \<le> i) ps))"
    by (metis map_append mset_append takeWhile_dropWhile_id)
  with Cons show ?case by (simp add: asked_def comp_def)
qed

text \<open>One item on the segments, the queue of questions aside.\<close>

definition item_step :: "arranging \<Rightarrow> bool \<times> event \<Rightarrow> arranging" where
  "item_step s x = (case x of (opens, e) \<Rightarrow>
     if opens then
       (let s' = open_segment e s
        in case ev_turn_id e of
             Some t \<Rightarrow> if t \<noteq> [] then s'\<lparr>by_turn := (by_turn s')(t \<mapsto> current s')\<rparr> else s'
           | None \<Rightarrow> s')
     else
       (let owner = (case Option.bind (ev_turn_id e) (by_turn s) of Some k \<Rightarrow> k | None \<Rightarrow> current s)
        in s\<lparr>segments := update_at owner (\<lambda>seg. seg @ [e]) (segments s)\<rparr>))"

lemma item_step_asked: "item_step s (asked p) = open_segment (pendingQuestion (pq_content p)) s"
  by (simp add: item_step_def asked_def pendingQuestion_def blank_event_def Let_def)

lemma item_step_waiting: "item_step (s\<lparr>waiting := w\<rparr>) x = (item_step s x)\<lparr>waiting := w\<rparr>"
  by (auto simp: item_step_def open_segment_def Let_def split: prod.splits option.splits)

lemma items_waiting: "foldl item_step (s\<lparr>waiting := w\<rparr>) xs = (foldl item_step s xs)\<lparr>waiting := w\<rparr>"
  by (induction xs arbitrary: s) (simp_all add: item_step_waiting)

lemma open_pending_items:
  "open_pending ix ps s =
     (let up = (\<lambda>p. case ix of None \<Rightarrow> True | Some i \<Rightarrow> pq_at p \<le> i)
      in (foldl item_step s (map asked (takeWhile up ps)))\<lparr>waiting := dropWhile up ps\<rparr>)"
proof (induction ix ps s rule: open_pending.induct)
  case (2 ix p ps s)
  then show ?case by (auto simp: item_step_asked Let_def split: option.splits)
qed simp

lemma arrangeStep_items:
  "arrangeStep (s\<lparr>waiting := ps\<rparr>) (i, e) =
     (foldl item_step s (map asked (takeWhile (\<lambda>p. pq_at p \<le> i) ps) @ [(opensExchange e, e)]))
       \<lparr>waiting := dropWhile (\<lambda>p. pq_at p \<le> i) ps\<rparr>"
proof -
  have step: "arrangeStep s0 (i, e) = item_step (openPendingUpTo (Some i) s0) (opensExchange e, e)" for s0
    by (simp add: arrangeStep_def item_step_def Let_def)
  show ?thesis
    by (simp add: step openPendingUpTo_def open_pending_items Let_def item_step_waiting items_waiting)
qed

lemma arrange_items:
  "openPendingUpTo None (foldl arrangeStep (s\<lparr>waiting := ps\<rparr>) (enumerate i es)) =
     (foldl item_step s (merged ps i es))\<lparr>waiting := []\<rparr>"
proof (induction es arbitrary: s ps i)
  case Nil
  have all: "takeWhile (\<lambda>p. True) xs = xs" "dropWhile (\<lambda>p. True) xs = []" for xs :: "'x list"
    by (induction xs) simp_all
  show ?case by (simp add: openPendingUpTo_def open_pending_items Let_def items_waiting all)
next
  case (Cons e es)
  show ?case
    by (simp add: arrangeStep_items del: foldl_append) (simp add: Cons)
qed

section \<open>Exchanges\<close>

definition head_with :: "string \<Rightarrow> bool \<times> event \<Rightarrow> bool" where
  "head_with t x \<longleftrightarrow> fst x \<and> ev_turn_id (snd x) = Some t"

definition heads :: "(bool \<times> event) list \<Rightarrow> nat" where
  "heads xs = length (filter fst xs)"

text \<open>
  The number of the exchange an item belongs to: a question opens its own; an event with the turn id of an
  earlier question joins the latest such question; any other joins the question before it, and exchange 0
  is what comes before the first one.
\<close>

definition latest_head :: "(bool \<times> event) list \<Rightarrow> string option \<Rightarrow> nat option" where
  "latest_head xs tid = (case tid of
     None \<Rightarrow> None
   | Some t \<Rightarrow> if t = [] then None else map_option (\<lambda>j. heads (take (Suc j) xs)) (last_index (head_with t) xs))"

definition exchange_of :: "(bool \<times> event) list \<Rightarrow> nat \<Rightarrow> nat" where
  "exchange_of xs k =
     (if fst (xs ! k) then heads (take (Suc k) xs)
      else case latest_head (take k xs) (ev_turn_id (snd (xs ! k))) of Some n \<Rightarrow> n | None \<Rightarrow> heads (take k xs))"

definition exchange :: "(bool \<times> event) list \<Rightarrow> nat \<Rightarrow> event list" where
  "exchange xs n = map (\<lambda>k. snd (xs ! k)) (filter (\<lambda>k. exchange_of xs k = n) [0..<length xs])"

lemma latest_head_None [simp]: "latest_head xs None = None"
  by (simp add: latest_head_def)

lemma heads_simps [simp]:
  "heads [] = 0" "heads (xs @ ys) = heads xs + heads ys" "heads (x # xs) = (if fst x then 1 else 0) + heads xs"
  by (simp_all add: heads_def)

lemma heads_take: "heads (take k xs) \<le> heads xs"
proof -
  have "heads (take k xs @ drop k xs) = heads (take k xs) + heads (drop k xs)" by (rule heads_simps)
  then show ?thesis by simp
qed

lemma exchange_of_snoc:
  "k < length xs \<Longrightarrow> exchange_of (xs @ [x]) k = exchange_of xs k"
  by (simp add: exchange_of_def nth_append del: take_append) (simp split: option.splits)

lemma latest_head_bound: "latest_head xs t = Some n \<Longrightarrow> n \<le> heads xs"
  by (auto simp: latest_head_def heads_take split: option.splits if_splits)

lemma exchange_snoc:
  "exchange (xs @ [x]) n = exchange xs n @ (if exchange_of (xs @ [x]) (length xs) = n then [snd x] else [])"
proof -
  have "filter (\<lambda>k. exchange_of (xs @ [x]) k = n) [0..<length xs] = filter (\<lambda>k. exchange_of xs k = n) [0..<length xs]"
    by (rule filter_cong) (simp_all add: exchange_of_snoc)
  moreover have "map (\<lambda>k. snd ((xs @ [x]) ! k)) (filter P [0..<length xs]) = map (\<lambda>k. snd (xs ! k)) (filter P [0..<length xs])" for P
    by (simp add: nth_append)
  ultimately show ?thesis by (simp add: exchange_def)
qed

lemma exchange_beyond: "heads xs < n \<Longrightarrow> exchange xs n = []"
proof -
  assume n: "heads xs < n"
  have "exchange_of xs k \<noteq> n" if "k < length xs" for k
  proof -
    have "heads (take (Suc k) xs) \<le> heads xs" "heads (take k xs) \<le> heads xs" by (rule heads_take)+
    moreover have "latest_head (take k xs) t = Some m \<Longrightarrow> m \<le> heads xs" for t m
      using latest_head_bound heads_take le_trans by blast
    ultimately show ?thesis using n by (auto simp: exchange_of_def split: option.splits if_splits) (metis leD)+
  qed
  then show ?thesis by (simp add: exchange_def filter_empty_conv)
qed

definition start_arranging :: arranging where
  "start_arranging = \<lparr>segments = [[]], by_turn = Map.empty, current = 0, waiting = []\<rparr>"

lemma latest_head_snoc:
  "latest_head (xs @ [x]) (Some t) =
     (if t \<noteq> [] \<and> head_with t x then Some (heads (xs @ [x])) else latest_head xs (Some t))"
proof -
  have "map_option (\<lambda>j. heads (take (Suc j) (xs @ [x]))) (last_index (head_with t) xs)
      = map_option (\<lambda>j. heads (take (Suc j) xs)) (last_index (head_with t) xs)"
    by (cases "last_index (head_with t) xs") (auto dest: last_index_Some)
  then show ?thesis by (simp add: latest_head_def last_index_append)
qed

lemma segments_are_exchanges:
  defines "st xs \<equiv> foldl item_step start_arranging xs"
  shows "segments (st xs) = map (exchange xs) [0..<Suc (heads xs)] \<and> current (st xs) = heads xs
    \<and> (\<forall>t. by_turn (st xs) t = latest_head xs (Some t))"
proof (induction xs rule: rev_induct)
  case Nil
  then show ?case by (simp add: st_def start_arranging_def exchange_def latest_head_def)
next
  case (snoc x xs)
  obtain opens e where x: "x = (opens, e)" by force
  have st: "st (xs @ [x]) = item_step (st xs) x" by (simp add: st_def)
  show ?case
  proof (cases opens)
    case True
    have own: "exchange_of (xs @ [x]) (length xs) = Suc (heads xs)"
      using True x by (simp add: exchange_of_def)
    have "map (exchange (xs @ [x])) [0..<Suc (heads xs)] = map (exchange xs) [0..<Suc (heads xs)]"
      by (rule map_cong) (auto simp: exchange_snoc own)
    moreover have "exchange (xs @ [x]) (Suc (heads xs)) = [e]"
      by (simp add: exchange_snoc own exchange_beyond) (simp add: x)
    ultimately show ?thesis
      using snoc True x unfolding st
      by (auto simp: item_step_def open_segment_def Let_def latest_head_snoc head_with_def split: option.splits)
  next
    case False
    let ?o = "case Option.bind (ev_turn_id e) (by_turn (st xs)) of Some k \<Rightarrow> k | None \<Rightarrow> current (st xs)"
    have own: "exchange_of (xs @ [x]) (length xs) = ?o"
    proof -
      have "exchange_of (xs @ [x]) (length xs)
          = (case latest_head xs (ev_turn_id e) of Some n \<Rightarrow> n | None \<Rightarrow> heads xs)"
        using False x by (auto simp: exchange_of_def split: option.splits)
      with snoc show ?thesis by (cases "ev_turn_id e") (simp_all split: option.splits)
    qed
    have "?o \<le> heads xs"
      using snoc latest_head_bound [of xs] by (auto split: option.splits simp: bind_eq_Some_conv)
    then have "update_at ?o (\<lambda>seg. seg @ [e]) (map (exchange xs) [0..<Suc (heads xs)])
        = map (exchange (xs @ [x])) [0..<Suc (heads xs)]"
      using x own by (intro nth_equalityI) (auto simp: nth_update_at exchange_snoc simp del: upt_Suc)
    with snoc False x show ?thesis unfolding st
      by (auto simp: item_step_def Let_def latest_head_snoc head_with_def simp del: upt_Suc)
  qed
qed

text \<open>C27. The arrangement is the thread's exchanges one after the other. Each is opened by a question -
  an echoed one where it arrived, a pending one where it was asked - and holds, in order of arrival, the
  events of its turn id, however late they came, and the events without an earlier question of their own
  that came before the next question.\<close>

theorem arrangement_is_exchange_by_exchange:
  "arrangeThreadEvents es pending =
     (let xs = merged pending 0 es in concat (map (exchange xs) [0..<Suc (heads xs)]))"
proof -
  have "arrangeThreadEvents es pending = concat (segments (foldl item_step start_arranging (merged pending 0 es)))"
    using arrange_items [where s = start_arranging and ps = pending and i = 0 and es = es] by (simp add: arrangeThreadEvents_def start_arranging_def)
  with segments_are_exchanges [of "merged pending 0 es"] show ?thesis by (simp only: Let_def)
qed

lemma arranged_events: "mset (arrangeThreadEvents es pending) = mset es + mset (map (pendingQuestion \<circ> pq_content) pending)"
proof -
  let ?st = "\<lambda>xs. foldl item_step start_arranging xs"
  have "mset (concat (segments (?st xs))) = mset (map snd xs)" for xs
  proof (induction xs rule: rev_induct)
    case (snoc x xs)
    obtain opens e where x: "x = (opens, e)" by force
    have upd: "mset (concat (update_at k (\<lambda>seg. seg @ [e]) ss)) = mset (concat ss) + {#e#}" if "k < length ss" for k ss
      using that by (induction ss arbitrary: k) (auto simp: update_at_def split: nat.splits)
    let ?o = "case Option.bind (ev_turn_id e) (by_turn (?st xs)) of Some k \<Rightarrow> k | None \<Rightarrow> current (?st xs)"
    have "?o \<le> heads xs"
      using segments_are_exchanges [of xs] latest_head_bound [of xs] by (auto split: option.splits simp: bind_eq_Some_conv)
    then have "?o < length (segments (?st xs))" using segments_are_exchanges [of xs] by simp
    then have step: "mset (concat (segments (item_step (?st xs) (opens, e)))) = mset (concat (segments (?st xs))) + {#e#}"
      using upd [of ?o "segments (?st xs)"]
      by (auto simp: item_step_def [of "?st xs"] open_segment_def Let_def split: option.splits)
    have "?st (xs @ [x]) = item_step (?st xs) (opens, e)" by (simp add: x)
    with snoc x step show ?case by (simp del: foldl_append)
  qed (simp add: start_arranging_def)
  with merged_events [of pending 0 es] show ?thesis
    using arrange_items [where s = start_arranging and ps = pending and i = 0 and es = es]
    by (simp add: arrangeThreadEvents_def start_arranging_def)
qed

section \<open>What is drawn\<close>

text \<open>The questions of the turns: every event that opens an exchange starts one turn.\<close>

definition turn_questions :: "turn list \<Rightarrow> string list" where
  "turn_questions trns = List.map_filter userMessage trns"

definition questions :: "event list \<Rightarrow> string list" where
  "questions es = List.map_filter content (filter opensExchange es)"

lemma turn_questions_append [simp]: "turn_questions (xs @ ys) = turn_questions xs @ turn_questions ys"
  by (simp add: turn_questions_def map_filter_def)

lemma turn_questions_Nil [simp]: "turn_questions [] = []"
  by (simp add: turn_questions_def map_filter_def)

lemma run_turns_start: "run_turns (startRun trns st) = trns"
  by (simp add: startRun_def)

lemma turn_questions_update:
  "(\<And>t. userMessage (f t) = userMessage t) \<Longrightarrow> turn_questions (update_at i f trns) = turn_questions trns"
proof -
  assume "\<And>t. userMessage (f t) = userMessage t"
  then have "map userMessage (update_at i f trns) = map userMessage trns" by (rule map_update_at)
  moreover have "turn_questions ts' = map the (filter (\<lambda>m. m \<noteq> None) (map userMessage ts'))" for ts'
    by (induction ts') (auto simp: turn_questions_def map_filter_def)
  ultimately show ?thesis by simp
qed

lemma turn_questions_flush [simp]: "turn_questions (run_turns (flushPending g)) = turn_questions (run_turns g)"
  by (auto simp: flushPending_def flushCompaction_def turn_questions_update Let_def split: option.splits)

lemma turn_questions_group:
  "isVisibleEvent e \<Longrightarrow> turn_questions (run_turns (groupEvent results g e)) = turn_questions (run_turns g) @ questions [e]"
  by (auto simp: groupEvent_def placeEvent_def updateCurrent_def markInterrupted_def pushSetting_def pushEvent_def
      createTurn_def turn_questions_update questions_def opensExchange_def turn_questions_def [of "[_]"] map_filter_def
      Let_def split: option.splits)

lemma questions_append [simp]: "questions (xs @ ys) = questions xs @ questions ys"
  by (simp add: questions_def map_filter_def)

lemma turn_questions_fold:
  "\<forall>e \<in> set es. isVisibleEvent e \<Longrightarrow>
     turn_questions (run_turns (foldl (groupEvent results) g es)) = turn_questions (run_turns g) @ questions es"
proof (induction es arbitrary: g)
  case (Cons e es)
  then have "questions (e # es) = questions [e] @ questions es" using questions_append [of "[e]" es] by simp
  with Cons turn_questions_group [of e results g] show ?case by simp
qed (simp add: questions_def map_filter_def)

lemma questions_visible: "questions (filter isVisibleEvent es) = questions es"
proof -
  have "filter (\<lambda>x. isVisibleEvent x \<and> opensExchange x) es = filter opensExchange es"
    by (rule filter_cong) (auto simp: opensExchange_def)
  then show ?thesis by (simp add: questions_def)
qed

lemma flushBatch_questions:
  assumes "flushBatch now initialState es = Some s"
  shows "turn_questions (turns s) = questions es"
proof (cases "filter isVisibleEvent es = []")
  case True
  then have "questions es = []" using questions_visible [of es] by (simp add: questions_def map_filter_def)
  moreover have "turns s = []"
    using assms True by (auto simp: flushBatch_def appendTurns_def initialState_def Let_def split: prod.splits if_splits)
  ultimately show ?thesis by (simp add: turn_questions_def map_filter_def)
next
  case False
  let ?r = "appendTurnResults (turnResults initialState) es"
  let ?g = "foldl (groupEvent ?r) (startRun [] INITIAL_TURN_GROUPING_STATE) (filter isVisibleEvent es)"
  have "turns s = run_turns (flushPending ?g)"
    using assms False
    by (auto simp: flushBatch_def appendTurns_def initialState_def finishRun_def Let_def split: prod.splits if_splits)
  then show ?thesis
    using turn_questions_fold [of "filter isVisibleEvent es" ?r "startRun [] INITIAL_TURN_GROUPING_STATE"]
    by (simp add: questions_visible run_turns_start)
qed

lemma mset_questions:
  "\<forall>e \<in> set es. opensExchange e \<longrightarrow> content e \<noteq> None \<Longrightarrow>
     mset (questions es) = image_mset (\<lambda>e. the (content e)) (filter_mset opensExchange (mset es))"
  by (induction es) (auto simp: questions_def map_filter_def comp_def)

lemma pendingQuestion_opens: "\<not> matches_task_notification c \<Longrightarrow> opensExchange (pendingQuestion c)"
  by (simp add: opensExchange_def pendingQuestion_def blank_event_def isHumanEvent_def isVisibleEvent_def)

text \<open>A thread draws each question once: the turns it derives carry the texts of its echoed questions
  and of its pending ones, each as often as it was asked, and they are as many as \<open>countExchanges\<close> says.
  Every question of the log has a text, and no pending one looks like a task notification.\<close>

theorem thread_draws_each_question_once:
  assumes "deriveThreadTurns now es pending None = Some s"
    and "\<forall>e \<in> set es. opensExchange e \<longrightarrow> content e \<noteq> None"
    and "\<forall>p \<in> set pending. \<not> matches_task_notification (pq_content p)"
  shows "mset (turn_questions (turns s)) = mset (questions es) + mset (map pq_content pending)
    \<and> length (turn_questions (turns s)) = countExchanges es pending"
proof -
  let ?a = "arrangeThreadEvents es pending"
  have q: "turn_questions (turns s) = questions ?a"
    using assms(1) flushBatch_questions by (simp add: deriveThreadTurns_def withoutQuoteBlock_def)
  have a: "mset ?a = mset es + mset (map (pendingQuestion \<circ> pq_content) pending)" by (rule arranged_events)
  have texts: "\<forall>e \<in> set ?a. opensExchange e \<longrightarrow> content e \<noteq> None"
  proof -
    have "set ?a = set es \<union> (pendingQuestion \<circ> pq_content) ` set pending"
      using arg_cong [OF a, of set_mset] by simp
    with assms(2) show ?thesis by (auto simp: pendingQuestion_def)
  qed
  have p: "image_mset (\<lambda>e. the (content e)) (filter_mset opensExchange (mset (map (pendingQuestion \<circ> pq_content) pending)))
      = mset (map pq_content pending)"
    using assms(3)
    by (induction pending) (simp_all add: pendingQuestion_opens, simp_all add: pendingQuestion_def)
  have "mset (turn_questions (turns s)) = mset (questions es) + mset (map pq_content pending)"
    unfolding q mset_questions [OF texts] a filter_union_mset image_mset_union p mset_questions [OF assms(2)] by simp
  moreover from arg_cong [OF this, of size]
  have "length (turn_questions (turns s)) = length (questions es) + length pending"
    by (simp flip: size_mset del: size_mset)
  moreover have "length (questions es) = length (filter opensExchange es)"
    using arg_cong [OF mset_questions [OF assms(2)], of size] by (simp flip: mset_filter)
  ultimately show ?thesis by (simp add: countExchanges_def)
qed

definition echo :: "string \<Rightarrow> string \<Rightarrow> event" where
  "echo t c = (pendingQuestion c)\<lparr>ev_turn_id := Some t\<rparr>"

definition answer :: "string \<Rightarrow> string \<Rightarrow> event" where
  "answer t c = blank_event\<lparr>content := Some c, ev_turn_id := Some t\<rparr>"

definition sample_thread_events :: "event list" where
  "sample_thread_events = [echo ''a'' ''first?'', echo ''b'' ''second?'', answer ''a'' ''late'', answer ''b'' ''fresh'']"

lemma thread_draws_each_question_once_witness:
  "\<exists>s. deriveThreadTurns 0 sample_thread_events [\<lparr>pq_content = ''third?'', pq_at = 4\<rparr>] None = Some s
    \<and> mset (turn_questions (turns s)) = {#''first?'', ''second?'', ''third?''#}"
proof -
  let ?ps = "[\<lparr>pq_content = ''third?'', pq_at = 4\<rparr>]"
  have "deriveThreadTurns 0 sample_thread_events ?ps None \<noteq> None" by code_simp
  then obtain s where s: "deriveThreadTurns 0 sample_thread_events ?ps None = Some s" by blast
  have t: "\<forall>e \<in> set sample_thread_events. opensExchange e \<longrightarrow> content e \<noteq> None"
    "\<not> matches_task_notification ''third?''" "questions sample_thread_events = [''first?'', ''second?'']"
    by code_simp+
  with thread_draws_each_question_once [OF s] s show ?thesis by auto
qed

lemma flushBatch_defined: "flushTodos (todos s) b \<noteq> None \<Longrightarrow> \<exists>s'. flushBatch now s b = Some s'"
  by (cases "flushBatch now s b") (auto simp: flushBatch_def Let_def split: prod.splits if_splits)

section \<open>The quote above the first question\<close>

text \<open>A question sent beneath its quote is drawn without it: whatever lines the quote and the question
  have, the first turn of a thread that only waits for this question shows what was typed.\<close>

theorem quote_is_not_drawn:
  assumes "\<not> matches_task_notification typed"
  shows "\<exists>s. deriveThreadTurns now []
      [\<lparr>pq_content = quoteBlock q @ [CHR 0x0A, CHR 0x0A] @ typed, pq_at = 0\<rparr>] (Some q) = Some s
    \<and> turn_questions (turns s) = [typed]"
proof -
  let ?c = "quoteBlock q @ [CHR 0x0A, CHR 0x0A] @ typed"
  obtain l ls where l: "split_char (CHR 0x0A) q = l # ls" by (cases "split_char (CHR 0x0A) q") auto
  have "\<exists>r. quoteBlock q = CHR ''>'' # r"
    unfolding quoteBlock_def l by (cases ls) auto
  then have "\<not> matches_task_notification ?c"
    by (auto simp: matches_task_notification_def trim_start_def js_space_def starts_with_def Let_def)
  then have o: "opensExchange (pendingQuestion ?c)" by (rule pendingQuestion_opens)
  have "arrangeThreadEvents [] [\<lparr>pq_content = ?c, pq_at = 0\<rparr>] = [pendingQuestion ?c]"
    by (simp add: arrangeThreadEvents_def openPendingUpTo_def open_segment_def)
  moreover have "withoutQuoteBlock [pendingQuestion ?c] (Some q) = Some [pendingQuestion typed]"
  proof -
    have "starts_with (quoteBlock q @ [CHR 0x0A, CHR 0x0A]) ?c" by (simp add: starts_with_iff)
    then show ?thesis using o by (simp add: withoutQuoteBlock_def Let_def) (simp add: pendingQuestion_def)
  qed
  ultimately have d: "deriveThreadTurns now [] [\<lparr>pq_content = ?c, pq_at = 0\<rparr>] (Some q)
      = flushBatch now initialState [pendingQuestion typed]"
    by (simp add: deriveThreadTurns_def)
  have "flushTodos (todos initialState) [pendingQuestion typed] \<noteq> None"
    by (simp add: flushTodos_def appendTodoDiffs_def todoStep_def todoWrite_def pendingQuestion_def blank_event_def)
  then obtain s where s: "flushBatch now initialState [pendingQuestion typed] = Some s"
    using flushBatch_defined by blast
  have "questions [pendingQuestion typed] = [typed]"
    using pendingQuestion_opens [OF assms] by (simp add: questions_def map_filter_def) (simp add: pendingQuestion_def)
  with flushBatch_questions [OF s] d s show ?thesis by auto
qed

lemma quote_is_not_drawn_witness:
  "\<exists>s. deriveThreadTurns 0 [] [\<lparr>pq_content = ''> a'' @ [CHR 0x0A] @ ''>'' @ [CHR 0x0A, CHR 0x0A] @ ''why?'', pq_at = 0\<rparr>]
      (Some (''a'' @ [CHR 0x0A])) = Some s \<and> turn_questions (turns s) = [''why?'']"
proof -
  have "quoteBlock (''a'' @ [CHR 0x0A]) = ''> a'' @ [CHR 0x0A] @ ''>''" "\<not> matches_task_notification ''why?''"
    by code_simp+
  then show ?thesis using quote_is_not_drawn [of "''why?''" 0 "''a'' @ [CHR 0x0A]"] by simp
qed

end
