(* ===== verification/ThreadSessions.thy ===== *)
theory ThreadSessions
  imports ThreadEventFacts
begin

text \<open>
  The side threads of the inline replies
  (\<open>features/chat/components/inline-replies/hooks/useInlineThreadSessions.js\<close>): per reply a thread of
  events and pending questions, a subscription, a buffer of events that a timer flushes, and the fork its
  first question made. An asynchronous call is cut at its awaits: what it waits for is its stage, and every
  settlement of a promise is a step, taken in any order. \<open>patch\<close> on an entry that does not exist starts
  from \<open>blank_thread\<close>: the code reads absent fields as empty.
\<close>

section \<open>State\<close>

record thread =
  th_sessionId :: "string option"
  th_events :: "event list"
  th_pending :: "pending_question list"
  th_running :: bool
  th_error :: "string option"

definition blank_thread :: thread where
  "blank_thread = \<lparr>th_sessionId = None, th_events = [], th_pending = [], th_running = False, th_error = None\<rparr>"

record reply =
  rp_id :: string
  rp_quote :: string
  rp_threadSessionId :: "string option"

text \<open>What a call of \<open>submit\<close> awaits: its own fork, the fork of an earlier call, \<open>resumeSession\<close>, the send.\<close>

datatype stage = AwaitFork nat | AwaitJoin nat | AwaitResume string | AwaitSend

record ask =
  ask_reply :: string
  ask_prompt :: string
  ask_stage :: stage

text \<open>
  \<open>forks\<close> is \<open>forksRef\<close>, a promise per reply; a promise is a number, settled with a session id or rejected.
  \<open>sent\<close> lists the calls of \<open>sendSideMessage\<close>.
\<close>

record thread_sessions =
  threads :: "string \<rightharpoonup> thread"
  cleanups :: "string \<rightharpoonup> string"
  th_buffers :: "string \<rightharpoonup> event list"
  flush_timer :: bool
  forks :: "string \<rightharpoonup> nat"
  promises :: "nat \<rightharpoonup> string option"
  asks :: "nat \<rightharpoonup> ask"
  next_id :: nat
  sent :: "(string \<times> string) list"

definition initial_threads :: thread_sessions where
  "initial_threads = \<lparr>threads = Map.empty, cleanups = Map.empty, th_buffers = Map.empty, flush_timer = False,
     forks = Map.empty, promises = Map.empty, asks = Map.empty, next_id = 0, sent = []\<rparr>"

definition entry_of :: "thread_sessions \<Rightarrow> string \<Rightarrow> thread" where
  "entry_of s r = (case threads s r of Some t \<Rightarrow> t | None \<Rightarrow> blank_thread)"

section \<open>Operations\<close>

definition patch :: "string \<Rightarrow> (thread \<Rightarrow> thread) \<Rightarrow> thread_sessions \<Rightarrow> thread_sessions" where
  "patch r f s = s\<lparr>threads := (threads s)(r \<mapsto> f (entry_of s r))\<rparr>"

definition detach :: "string \<Rightarrow> thread_sessions \<Rightarrow> thread_sessions" where
  "detach r s = s\<lparr>cleanups := (cleanups s)(r := None), th_buffers := (th_buffers s)(r := None)\<rparr>"

definition endsAnswer :: "event \<Rightarrow> bool" where
  "endsAnswer e \<longleftrightarrow> ev_type e = Ty_RESULT \<or> (ev_type e = Ty_SYSTEM \<and> ev_subtype e = Sub_ERROR)"

definition endingError :: "event \<Rightarrow> string option" where
  "endingError e = (if ev_type e = Ty_SYSTEM \<and> trim (str_or (content e) []) = []
     then Some ''The answer failed to arrive'' else None)"

text \<open>The batch of one reply, folded into its thread.\<close>

definition flush_batch :: "event list \<Rightarrow> thread \<Rightarrow> thread" where
  "flush_batch es t =
     (let t' = t\<lparr>th_events := th_events t @ es, th_pending := drop (countExchanges es []) (th_pending t)\<rparr>
      in case find endsAnswer es of
           Some ending \<Rightarrow> t'\<lparr>th_running := False, th_error := endingError ending\<rparr>
         | None \<Rightarrow> t')"

definition flush_buffers :: "thread_sessions \<Rightarrow> thread_sessions" where
  "flush_buffers s = s
     \<lparr>flush_timer := False,
      threads := (\<lambda>r. case th_buffers s r of Some es \<Rightarrow> Some (flush_batch es (entry_of s r)) | None \<Rightarrow> threads s r),
      cleanups := (\<lambda>r. case th_buffers s r of
         Some es \<Rightarrow> if find endsAnswer es \<noteq> None then None else cleanups s r | None \<Rightarrow> cleanups s r),
      th_buffers := Map.empty\<rparr>"

definition appendQuestion :: "string \<Rightarrow> string \<Rightarrow> thread_sessions \<Rightarrow> thread_sessions" where
  "appendQuestion r question s0 =
     (let s = flush_buffers s0
      in patch r (\<lambda>t. t\<lparr>th_pending := th_pending t @ [\<lparr>pq_content = question, pq_at = length (th_events t)\<rparr>],
           th_running := True, th_error := None\<rparr>) s)"

text \<open>\<open>None\<close> is a frame that is no JSON.\<close>

definition handleEvent :: "string \<Rightarrow> int \<Rightarrow> event option \<Rightarrow> thread_sessions \<Rightarrow> thread_sessions" where
  "handleEvent r now raw s =
     (case raw of
        None \<Rightarrow> s
      | Some e \<Rightarrow> s\<lparr>th_buffers := (th_buffers s)(r \<mapsto> (case th_buffers s r of Some es \<Rightarrow> es | None \<Rightarrow> []) @ [e\<lparr>timestamp := Some now\<rparr>]),
           flush_timer := True\<rparr>)"

definition attach :: "string \<Rightarrow> string \<Rightarrow> thread_sessions \<Rightarrow> thread_sessions" where
  "attach r sid s0 = (let s = detach r s0 in s\<lparr>cleanups := (cleanups s)(r \<mapsto> sid)\<rparr>)"

definition connectionLost :: "string \<Rightarrow> thread_sessions \<Rightarrow> thread_sessions" where
  "connectionLost r s = detach r (patch r (\<lambda>t. t\<lparr>th_running := False,
     th_error := Some ''Lost the connection to this thread''\<rparr>) s)"

definition set_stage :: "nat \<Rightarrow> stage \<Rightarrow> thread_sessions \<Rightarrow> thread_sessions" where
  "set_stage a st s = s\<lparr>asks := (asks s)(a := map_option (\<lambda>k. k\<lparr>ask_stage := st\<rparr>) (asks s a))\<rparr>"

definition submit :: "reply \<Rightarrow> string \<Rightarrow> thread_sessions \<Rightarrow> thread_sessions" where
  "submit rp input s0 =
     (let typed = trim input
      in if typed = [] then s0
         else
           let linked = nonempty (rp_threadSessionId rp);
               forking = (if linked then None else forks s0 (rp_id rp));
               forks_now = \<not> linked \<and> forking = None;
               p = next_id s0; a = Suc (next_id s0);
               s1 = s0\<lparr>next_id := Suc (Suc (next_id s0)),
                 forks := (if forks_now then (forks s0)(rp_id rp \<mapsto> p) else forks s0)\<rparr>;
               prompt = (if forks_now then quoteBlock (rp_quote rp) @ [CHR 0x0A, CHR 0x0A] @ typed else typed);
               st = (if forks_now then AwaitFork p
                     else case rp_threadSessionId rp of Some sid \<Rightarrow> AwaitResume sid | None \<Rightarrow> AwaitJoin (the forking));
               s2 = appendQuestion (rp_id rp) prompt s1
           in s2\<lparr>asks := (asks s2)(a \<mapsto> \<lparr>ask_reply = rp_id rp, ask_prompt = prompt, ask_stage = st\<rparr>)\<rparr>)"

text \<open>The rest of \<open>submit\<close> after an await: sending, and the catch block.\<close>

definition attach_and_send :: "nat \<Rightarrow> ask \<Rightarrow> string \<Rightarrow> thread_sessions \<Rightarrow> thread_sessions" where
  "attach_and_send a k sid s0 =
     (let s = attach (ask_reply k) sid s0 in set_stage a AwaitSend (s\<lparr>sent := sent s @ [(sid, ask_prompt k)]\<rparr>))"

definition sendFailed :: "nat \<Rightarrow> ask \<Rightarrow> thread_sessions \<Rightarrow> thread_sessions" where
  "sendFailed a k s0 =
     (let r = ask_reply k;
          s = s0\<lparr>forks := (forks s0)(r := None), asks := (asks s0)(a := None)\<rparr>
      in detach r (patch r (\<lambda>t. t\<lparr>th_running := False, th_error := Some ''Failed to send''\<rparr>) s))"

definition continueFork :: "nat \<Rightarrow> ask \<Rightarrow> string option \<Rightarrow> thread_sessions \<Rightarrow> thread_sessions" where
  "continueFork a k outcome s =
     (case outcome of
        None \<Rightarrow> sendFailed a k s
      | Some sid \<Rightarrow> attach_and_send a k sid (patch (ask_reply k) (\<lambda>t. t\<lparr>th_sessionId := Some sid\<rparr>) s))"

definition continueJoin :: "nat \<Rightarrow> ask \<Rightarrow> string option \<Rightarrow> thread_sessions \<Rightarrow> thread_sessions" where
  "continueJoin a k outcome s =
     (case outcome of None \<Rightarrow> sendFailed a k s | Some sid \<Rightarrow> set_stage a (AwaitResume sid) s)"

definition continueResume :: "nat \<Rightarrow> ask \<Rightarrow> string \<Rightarrow> bool \<Rightarrow> thread_sessions \<Rightarrow> thread_sessions" where
  "continueResume a k sid ok s = (if ok then attach_and_send a k sid s else sendFailed a k s)"

definition continueSend :: "nat \<Rightarrow> ask \<Rightarrow> bool \<Rightarrow> thread_sessions \<Rightarrow> thread_sessions" where
  "continueSend a k ok s = (if ok then s\<lparr>asks := (asks s)(a := None)\<rparr> else sendFailed a k s)"

text \<open>\<open>load\<close> once \<open>getSessionEvents\<close> has answered, with the log and whether the session runs.\<close>

definition load :: "string \<Rightarrow> string \<Rightarrow> (event list \<times> bool) option \<Rightarrow> thread_sessions \<Rightarrow> thread_sessions" where
  "load r sid response s =
     (case response of
        None \<Rightarrow> patch r (\<lambda>t. t\<lparr>th_sessionId := Some sid, th_events := [], th_pending := [], th_running := False\<rparr>) s
      | Some (es, running) \<Rightarrow>
          (let s' = patch r (\<lambda>t. t\<lparr>th_sessionId := Some sid, th_events := threadOwnEvents es, th_pending := [],
                 th_running := running\<rparr>) s
           in if running then attach r sid s' else s'))"

definition interruptSettled :: "string \<Rightarrow> thread_sessions \<Rightarrow> thread_sessions" where
  "interruptSettled r s = detach r (patch r (\<lambda>t. t\<lparr>th_running := False\<rparr>) s)"

definition releaseAll :: "thread_sessions \<Rightarrow> thread_sessions" where
  "releaseAll s = s\<lparr>cleanups := Map.empty, flush_timer := False, th_buffers := Map.empty\<rparr>"

section \<open>Runs\<close>

inductive thread_step :: "thread_sessions \<Rightarrow> thread_sessions \<Rightarrow> bool" where
  Submit: "thread_step s (submit rp t s)"
| ForkSettled: "promises s p = None \<Longrightarrow> thread_step s (s\<lparr>promises := (promises s)(p \<mapsto> res)\<rparr>)"
| AfterFork: "asks s a = Some k \<Longrightarrow> ask_stage k = AwaitFork p \<Longrightarrow> promises s p = Some res \<Longrightarrow>
    thread_step s (continueFork a k res s)"
| AfterJoin: "asks s a = Some k \<Longrightarrow> ask_stage k = AwaitJoin p \<Longrightarrow> promises s p = Some res \<Longrightarrow>
    thread_step s (continueJoin a k res s)"
| AfterResume: "asks s a = Some k \<Longrightarrow> ask_stage k = AwaitResume sid \<Longrightarrow> thread_step s (continueResume a k sid ok s)"
| AfterSend: "asks s a = Some k \<Longrightarrow> ask_stage k = AwaitSend \<Longrightarrow> thread_step s (continueSend a k ok s)"
| Event: "cleanups s r \<noteq> None \<Longrightarrow> thread_step s (handleEvent r now raw s)"
| Lost: "cleanups s r \<noteq> None \<Longrightarrow> thread_step s (connectionLost r s)"
| Timer: "flush_timer s \<Longrightarrow> thread_step s (flush_buffers s)"
| Load: "thread_step s (load r sid response s)"
| Interrupted: "nonempty (th_sessionId (entry_of s r)) \<Longrightarrow> thread_step s (interruptSettled r s)"
| Detach: "thread_step s (detach r s)"
| Release: "thread_step s (releaseAll s)"

inductive thread_run :: "thread_sessions \<Rightarrow> bool" where
  Start: "thread_run initial_threads"
| More: "thread_run s \<Longrightarrow> thread_step s s' \<Longrightarrow> thread_run s'"

section \<open>What every run keeps\<close>

text \<open>
  Pending questions are in the order they were asked, none after events that have not come; whatever is
  buffered belongs to an open subscription and has a timer that will flush it.
\<close>

definition thread_ok :: "thread \<Rightarrow> bool" where
  "thread_ok t \<longleftrightarrow> sorted (map pq_at (th_pending t)) \<and> (\<forall>p \<in> set (th_pending t). pq_at p \<le> length (th_events t))"

definition threads_inv :: "thread_sessions \<Rightarrow> bool" where
  "threads_inv s \<longleftrightarrow> (\<forall>r t. threads s r = Some t \<longrightarrow> thread_ok t)
     \<and> (\<forall>r. th_buffers s r \<noteq> None \<longrightarrow> flush_timer s \<and> cleanups s r \<noteq> None)"

lemma blank_ok [simp]: "thread_ok blank_thread"
  by (simp add: thread_ok_def blank_thread_def)

lemma entry_ok: "threads_inv s \<Longrightarrow> thread_ok (entry_of s r)"
  by (auto simp: threads_inv_def entry_of_def split: option.splits)

lemma patch_inv: "threads_inv s \<Longrightarrow> thread_ok (f (entry_of s r)) \<Longrightarrow> threads_inv (patch r f s)"
  by (auto simp: threads_inv_def patch_def)

lemma detach_inv: "threads_inv s \<Longrightarrow> threads_inv (detach r s)"
  by (auto simp: threads_inv_def detach_def)

lemma attach_inv: "threads_inv s \<Longrightarrow> threads_inv (attach r sid s)"
  by (auto simp: threads_inv_def attach_def detach_def Let_def)

lemma flush_batch_ok: "thread_ok t \<Longrightarrow> thread_ok (flush_batch es t)"
  by (auto simp: thread_ok_def flush_batch_def Let_def drop_map [symmetric] sorted_wrt_drop trans_le_add1
      dest!: in_set_dropD split: option.splits)

lemma flush_buffers_inv: "threads_inv s \<Longrightarrow> threads_inv (flush_buffers s)"
proof -
  assume inv: "threads_inv s"
  have "thread_ok t" if "threads (flush_buffers s) r = Some t" for r t
    using that inv flush_batch_ok [OF entry_ok [OF inv, of r]]
    by (cases "th_buffers s r") (auto simp: flush_buffers_def threads_inv_def)
  then show ?thesis by (simp add: threads_inv_def flush_buffers_def)
qed

lemma untouched_inv:
  "threads s' = threads s \<Longrightarrow> cleanups s' = cleanups s \<Longrightarrow> th_buffers s' = th_buffers s \<Longrightarrow> flush_timer s' = flush_timer s \<Longrightarrow>
     threads_inv s \<Longrightarrow> threads_inv s'"
  by (simp add: threads_inv_def)

lemma appendQuestion_inv: "threads_inv s \<Longrightarrow> threads_inv (appendQuestion r q s)"
  unfolding appendQuestion_def Let_def
  by (rule patch_inv [OF flush_buffers_inv]) (use entry_ok [OF flush_buffers_inv, of s r] in
    \<open>auto simp: thread_ok_def sorted_append\<close>)

lemma submit_inv: "threads_inv s \<Longrightarrow> threads_inv (submit rp t s)"
proof -
  assume inv: "threads_inv s"
  have "threads_inv (appendQuestion r q (s\<lparr>next_id := n, forks := f\<rparr>))" for r q n f
    by (rule appendQuestion_inv, rule untouched_inv [of _ s]) (simp_all add: inv)
  then have "threads_inv ((appendQuestion r q (s\<lparr>next_id := n, forks := f\<rparr>))\<lparr>asks := x\<rparr>)" for r q n f x
    by (rule untouched_inv [rotated 4]) simp_all
  then show ?thesis using inv unfolding submit_def Let_def by simp
qed

lemma sendFailed_inv: "threads_inv s \<Longrightarrow> threads_inv (sendFailed a k s)"
  unfolding sendFailed_def Let_def
  by (rule detach_inv, rule patch_inv, rule untouched_inv [of _ s])
    (use entry_ok [of s] in \<open>simp_all add: thread_ok_def entry_of_def\<close>)

lemma attach_and_send_inv: "threads_inv s \<Longrightarrow> threads_inv (attach_and_send a k sid s)"
  unfolding attach_and_send_def set_stage_def Let_def
  by (rule untouched_inv [of _ "attach (ask_reply k) sid s"]) (simp_all add: attach_inv)

lemma set_stage_inv: "threads_inv s \<Longrightarrow> threads_inv (set_stage a st s)"
  by (rule untouched_inv [of _ s]) (simp_all add: set_stage_def)

lemma patch_flags_inv:
  "threads_inv s \<Longrightarrow> (\<And>t. th_events (f t) = th_events t \<and> th_pending (f t) = th_pending t) \<Longrightarrow> threads_inv (patch r f s)"
  by (rule patch_inv) (use entry_ok [of s r] in \<open>simp_all add: thread_ok_def\<close>)

lemmas thread_op_invs =
  detach_inv attach_inv flush_buffers_inv submit_inv sendFailed_inv attach_and_send_inv set_stage_inv

lemma thread_step_inv: "thread_step s s' \<Longrightarrow> threads_inv s \<Longrightarrow> threads_inv s'"
proof (induction rule: thread_step.induct)
  case (ForkSettled s p res)
  then show ?case by (elim untouched_inv [rotated 4]) simp_all
next
  case (AfterFork s a k p res)
  then show ?case
    by (auto simp: continueFork_def thread_op_invs patch_flags_inv split: option.splits)
next
  case (AfterSend s a k ok)
  then have "threads_inv (s\<lparr>asks := (asks s)(a := None)\<rparr>)" by (elim untouched_inv [rotated 4]) simp_all
  with AfterSend show ?case by (simp add: continueSend_def sendFailed_inv)
next
  case (Event s r now raw)
  then show ?case by (auto simp: threads_inv_def handleEvent_def split: option.splits)
next
  case (Load s r sid response)
  then have "threads_inv (patch r f s)" if "\<And>t. th_pending (f t) = []" for f
    using that by (intro patch_inv) (simp_all add: thread_ok_def)
  then show ?case by (auto simp: load_def attach_inv Let_def split: option.splits)
next
  case (Release s)
  then show ?case by (auto simp: threads_inv_def releaseAll_def)
qed (auto simp: continueJoin_def continueResume_def connectionLost_def interruptSettled_def thread_op_invs patch_flags_inv
  split: option.splits)

text \<open>C28. In every run of the side threads - questions, follow-ups, forks and sends that fail, events,
  reloads, interrupts - the pending questions of a thread are in the order they were asked, none waits at
  a place the log has not reached, and every buffered event has a subscription and an armed timer.\<close>

theorem pending_questions_in_place:
  assumes "thread_run s"
  shows "(\<forall>r t. threads s r = Some t \<longrightarrow> sorted (map pq_at (th_pending t))
            \<and> (\<forall>p \<in> set (th_pending t). pq_at p \<le> length (th_events t)))
    \<and> (\<forall>r. th_buffers s r \<noteq> None \<longrightarrow> flush_timer s \<and> cleanups s r \<noteq> None)"
proof -
  have "threads_inv s"
    using assms
  proof induction
    case Start
    show ?case by (simp add: threads_inv_def initial_threads_def)
  qed (rule thread_step_inv)
  then show ?thesis by (simp add: threads_inv_def thread_ok_def)
qed

lemma pending_questions_in_place_witness:
  "sorted (map pq_at (th_pending (the
      (threads (submit \<lparr>rp_id = ''r'', rp_quote = ''q'', rp_threadSessionId = None\<rparr> ''why'' initial_threads) ''r''))))
   \<and> map_option th_running
      (threads (submit \<lparr>rp_id = ''r'', rp_quote = ''q'', rp_threadSessionId = None\<rparr> ''why'' initial_threads) ''r'') = Some True"
proof -
  let ?s = "submit \<lparr>rp_id = ''r'', rp_quote = ''q'', rp_threadSessionId = None\<rparr> ''why'' initial_threads"
  have "thread_run ?s" by (rule More [OF Start Submit])
  moreover have running: "map_option th_running (threads ?s ''r'') = Some True" by code_simp
  moreover from running obtain t where "threads ?s ''r'' = Some t" by auto
  ultimately show ?thesis using pending_questions_in_place [of ?s] by auto
qed

end
