(* ===== verification/ThreadSessionFacts.thy ===== *)
theory ThreadSessionFacts
  imports ThreadSessions
begin

text \<open>
  Runs of the side threads that end badly: a question whose send failed, and a follow-up asked while the
  answer before it still arrives.
\<close>

lemmas thread_op_defs =
  submit_def appendQuestion_def flush_buffers_def patch_def entry_of_def blank_thread_def initial_threads_def
  continueFork_def continueResume_def continueSend_def attach_and_send_def attach_def detach_def set_stage_def
  sendFailed_def handleEvent_def flush_batch_def countExchanges_def Let_def

definition prompt_of :: "reply \<Rightarrow> string \<Rightarrow> string" where
  "prompt_of rp typed = quoteBlock (rp_quote rp) @ [CHR 0x0A, CHR 0x0A] @ typed"



section \<open>A question that could not be sent\<close>







definition sample_reply :: reply where
  "sample_reply = \<lparr>rp_id = ''r'', rp_quote = ''context'', rp_threadSessionId = None\<rparr>"


section \<open>A follow-up while the answer arrives\<close>

definition first_asked :: "reply \<Rightarrow> string \<Rightarrow> string \<Rightarrow> thread_sessions" where
  "first_asked rp q sid =
     (let s = submit rp q initial_threads; s = s\<lparr>promises := (promises s)(0 \<mapsto> Some sid)\<rparr>
      in continueFork 1 (the (asks s 1)) (Some sid) s)"

definition followed_up :: "reply \<Rightarrow> string \<Rightarrow> string \<Rightarrow> string \<Rightarrow> thread_sessions" where
  "followed_up rp q1 q2 sid = submit (rp\<lparr>rp_threadSessionId := Some sid\<rparr>) q2 (first_asked rp q1 sid)"

lemma first_asked_state:
  assumes "trim q = q" and "q \<noteq> []" and "rp_threadSessionId rp = None"
  shows "threads (first_asked rp q sid) (rp_id rp)
      = Some \<lparr>th_sessionId = Some sid, th_events = [], th_pending = [\<lparr>pq_content = prompt_of rp q, pq_at = 0\<rparr>],
          th_running = True, th_error = None\<rparr>
    \<and> th_buffers (first_asked rp q sid) = Map.empty \<and> cleanups (first_asked rp q sid) = [rp_id rp \<mapsto> sid]
    \<and> next_id (first_asked rp q sid) = 2
    \<and> sent (first_asked rp q sid) = [(sid, prompt_of rp q)] \<and> thread_run (first_asked rp q sid)"
proof -
  let ?s = "submit rp q initial_threads"
  let ?s' = "?s\<lparr>promises := (promises ?s)(0 \<mapsto> Some sid)\<rparr>"
  have a: "asks ?s' 1 = Some \<lparr>ask_reply = rp_id rp, ask_prompt = prompt_of rp q, ask_stage = AwaitFork 0\<rparr>" "promises ?s 0 = None"
    using assms by (simp_all add: thread_op_defs prompt_of_def)
  have "thread_run ?s'" by (rule More [OF More [OF Start Submit] ForkSettled]) (use a in simp)
  moreover have "thread_step ?s' (continueFork 1 (the (asks ?s' 1)) (Some sid) ?s')"
    by (rule AfterFork [where p = 0]) (use a in simp_all)
  ultimately have "thread_run (first_asked rp q sid)"
    unfolding first_asked_def Let_def using More by auto
  with assms show ?thesis
    by (simp add: first_asked_def thread_op_defs prompt_of_def fun_eq_iff)
qed

lemma followed_up_state:
  assumes "trim q1 = q1" "q1 \<noteq> []" "trim q2 = q2" "q2 \<noteq> []" "sid \<noteq> []" and "rp_threadSessionId rp = None"
  shows "threads (followed_up rp q1 q2 sid) (rp_id rp)
      = Some \<lparr>th_sessionId = Some sid, th_events = [],
          th_pending = [\<lparr>pq_content = prompt_of rp q1, pq_at = 0\<rparr>, \<lparr>pq_content = q2, pq_at = 0\<rparr>],
          th_running = True, th_error = None\<rparr>
    \<and> th_buffers (followed_up rp q1 q2 sid) (rp_id rp) = None \<and> cleanups (followed_up rp q1 q2 sid) (rp_id rp) = Some sid
    \<and> sent (followed_up rp q1 q2 sid) = [(sid, prompt_of rp q1)] \<and> thread_run (followed_up rp q1 q2 sid)
    \<and> asks (followed_up rp q1 q2 sid) 3 = Some \<lparr>ask_reply = rp_id rp, ask_prompt = q2, ask_stage = AwaitResume sid\<rparr>"
proof -
  note f = first_asked_state [OF assms(1,2,6), of sid]
  then have "thread_run (followed_up rp q1 q2 sid)" unfolding followed_up_def using More [OF _ Submit] by blast
  with assms f show ?thesis
    by (simp add: followed_up_def submit_def appendQuestion_def flush_buffers_def patch_def entry_of_def nonempty_iff Let_def)
qed

text \<open>A follow-up asked while an answer arrives loses part of it: an event received on the open
  subscription and still buffered when the resumed session is attached is dropped, it is in no thread and
  the subscription that replaces the old one replays nothing.\<close>

theorem follow_up_drops_what_is_buffered:
  assumes "trim q1 = q1" "q1 \<noteq> []" "trim q2 = q2" "q2 \<noteq> []" "sid \<noteq> []" and "rp_threadSessionId rp = None"
  shows "\<exists>s s'. thread_run s \<and> th_buffers s (rp_id rp) = Some [e\<lparr>timestamp := Some 0\<rparr>]
    \<and> thread_step s s' \<and> sent s' = [(sid, prompt_of rp q1), (sid, q2)] \<and> cleanups s' (rp_id rp) = Some sid
    \<and> th_buffers s' (rp_id rp) = None \<and> th_events (entry_of s' (rp_id rp)) = []"
proof -
  note f = followed_up_state [OF assms]
  let ?s = "handleEvent (rp_id rp) 0 (Some e) (followed_up rp q1 q2 sid)"
  let ?k = "\<lparr>ask_reply = rp_id rp, ask_prompt = q2, ask_stage = AwaitResume sid\<rparr>"
  let ?s' = "continueResume 3 ?k sid True ?s"
  have "thread_run ?s" using f by (intro More [OF _ Event]) auto
  moreover have "thread_step ?s ?s'"
    by (rule AfterResume) (use f in \<open>simp_all add: handleEvent_def\<close>)
  moreover have "th_buffers ?s (rp_id rp) = Some [e\<lparr>timestamp := Some 0\<rparr>]" using f by (simp add: handleEvent_def)
  moreover have "sent ?s' = [(sid, prompt_of rp q1), (sid, q2)] \<and> cleanups ?s' (rp_id rp) = Some sid
      \<and> th_buffers ?s' (rp_id rp) = None \<and> th_events (entry_of ?s' (rp_id rp)) = []"
    using f by (simp add: continueResume_def attach_and_send_def attach_def detach_def set_stage_def handleEvent_def
        entry_of_def Let_def)
  ultimately show ?thesis by blast
qed

lemma follow_up_drops_what_is_buffered_witness:
  "\<exists>s s'. thread_run s \<and> th_buffers s ''r'' = Some [(answer ''t'' ''because'')\<lparr>timestamp := Some 0\<rparr>]
    \<and> thread_step s s' \<and> th_buffers s' ''r'' = None \<and> th_events (entry_of s' ''r'') = []"
proof -
  have "trim ''why'' = ''why''" "trim ''and'' = ''and''" by code_simp+
  then show ?thesis
    using follow_up_drops_what_is_buffered [of "''why''" "''and''" "''side''" sample_reply "answer ''t'' ''because''"]
    by (auto simp: sample_reply_def)
qed

text \<open>The result of the first question ends the thread although a follow-up waits: once both were
  sent and the first is echoed and answered, the thread is marked as not running and its subscription is
  closed, so no event of the second answer can arrive; the second question stays pending.\<close>

theorem first_result_cuts_off_the_follow_up:
  assumes "trim q1 = q1" "q1 \<noteq> []" "trim q2 = q2" "q2 \<noteq> []" "sid \<noteq> []" and "rp_threadSessionId rp = None"
    and "opensExchange e" and "ev_type (r :: event) = Ty_RESULT"
  shows "\<exists>s. thread_run s \<and> sent s = [(sid, prompt_of rp q1), (sid, q2)]
    \<and> map pq_content (th_pending (entry_of s (rp_id rp))) = [q2]
    \<and> \<not> th_running (entry_of s (rp_id rp)) \<and> cleanups s (rp_id rp) = None"
proof -
  note f = followed_up_state [OF assms(1-6)]
  let ?k = "\<lparr>ask_reply = rp_id rp, ask_prompt = q2, ask_stage = AwaitResume sid\<rparr>"
  let ?s = "continueResume 3 ?k sid True (followed_up rp q1 q2 sid)"
  have step: "thread_step (followed_up rp q1 q2 sid) ?s" by (rule AfterResume) (use f in simp_all)
  have s: "threads ?s (rp_id rp) = threads (followed_up rp q1 q2 sid) (rp_id rp) \<and> th_buffers ?s (rp_id rp) = None
      \<and> cleanups ?s (rp_id rp) = Some sid \<and> sent ?s = [(sid, prompt_of rp q1), (sid, q2)]"
    using f by (simp add: continueResume_def attach_and_send_def attach_def detach_def set_stage_def Let_def)
  let ?a = "handleEvent (rp_id rp) 0 (Some e) ?s"
  let ?b = "handleEvent (rp_id rp) 0 (Some r) ?a"
  have "thread_run ?a" using f s by (intro More [OF More [OF _ step] Event]) auto
  moreover have "thread_step ?a ?b" by (rule Event) (use s in \<open>simp add: handleEvent_def\<close>)
  ultimately have "thread_run ?b" by (rule More)
  then have run: "thread_run (flush_buffers ?b)" by (rule More [OF _ Timer]) (simp add: handleEvent_def)
  have e: "opensExchange (e\<lparr>timestamp := Some 0\<rparr>)" "\<not> opensExchange (r\<lparr>timestamp := Some 0\<rparr>)"
      "endsAnswer (r\<lparr>timestamp := Some 0\<rparr>)" "\<not> endsAnswer (e\<lparr>timestamp := Some 0\<rparr>)"
    using assms(7,8)
    by (auto simp: opensExchange_def isHumanEvent_def isVisibleEvent_def endsAnswer_def split: option.splits)
  have buf: "th_buffers ?b (rp_id rp) = Some [e\<lparr>timestamp := Some 0\<rparr>, r\<lparr>timestamp := Some 0\<rparr>]"
    using s by (simp add: handleEvent_def)
  have "entry_of ?b (rp_id rp) = \<lparr>th_sessionId = Some sid, th_events = [],
      th_pending = [\<lparr>pq_content = prompt_of rp q1, pq_at = 0\<rparr>, \<lparr>pq_content = q2, pq_at = 0\<rparr>],
      th_running = True, th_error = None\<rparr>"
    using f s by (simp add: handleEvent_def entry_of_def)
  then have "map pq_content (th_pending (entry_of (flush_buffers ?b) (rp_id rp))) = [q2]
      \<and> \<not> th_running (entry_of (flush_buffers ?b) (rp_id rp)) \<and> cleanups (flush_buffers ?b) (rp_id rp) = None"
    using e buf by (simp add: flush_buffers_def entry_of_def [of "_\<lparr>flush_timer := _, threads := _, cleanups := _, th_buffers := _\<rparr>"]
        flush_batch_def countExchanges_def Let_def)
  moreover have "sent (flush_buffers ?b) = [(sid, prompt_of rp q1), (sid, q2)]"
    using s by (simp add: flush_buffers_def handleEvent_def)
  ultimately show ?thesis using run by auto
qed

lemma first_result_cuts_off_the_follow_up_witness:
  "\<exists>s. thread_run s \<and> map pq_content (th_pending (entry_of s ''r'')) = [''and'']
    \<and> \<not> th_running (entry_of s ''r'') \<and> cleanups s ''r'' = None"
proof -
  have "trim ''why'' = ''why''" "trim ''and'' = ''and''" "opensExchange (echo ''t'' ''why'')" by code_simp+
  then show ?thesis
    using first_result_cuts_off_the_follow_up [of "''why''" "''and''" "''side''" sample_reply "echo ''t'' ''why''"
        "blank_event\<lparr>ev_type := Ty_RESULT\<rparr>"]
    by (auto simp: sample_reply_def)
qed

end
