(* ===== verification/StorageGc.thy ===== *)
theory StorageGc
  imports Prelude
begin

text \<open>
  Clearing the local storage of sessions that no longer exist (\<open>utils/sessionStorageGc.js\<close>), and when
  \<open>context/SessionsContext.jsx\<close> does so. Storage is the list of its entries in the order \<open>key(i)\<close> has
  them; \<open>removable\<close> says which removals do not throw.
\<close>

section \<open>Sweeping\<close>

text \<open>The prefixes of \<open>config/storage.js\<close>, in the order the sweep tries them.\<close>

definition SESSION_SCOPED_PREFIXES :: "string list" where
  "SESSION_SCOPED_PREFIXES = [''draft:'', ''inputHistory:'', ''inline-replies:'', ''queue:'']"

type_synonym storage = "(string \<times> string) list"

definition dead_key :: "string list \<Rightarrow> string \<Rightarrow> bool" where
  "dead_key live key =
     (case find (\<lambda>p. starts_with p key) SESSION_SCOPED_PREFIXES of
        None \<Rightarrow> False
      | Some p \<Rightarrow> drop (length p) key \<notin> set live)"

fun removeItem :: "(string \<Rightarrow> bool) \<Rightarrow> storage \<Rightarrow> string \<Rightarrow> storage" where
  "removeItem removable st key = (if removable key then filter (\<lambda>(k, _). k \<noteq> key) st else st)"

definition sweepDeadSessionStorage :: "string list \<Rightarrow> (string \<Rightarrow> bool) \<Rightarrow> storage \<Rightarrow> string list \<times> storage" where
  "sweepDeadSessionStorage live removable st =
     (let keysToRemove = filter (dead_key live) (map fst st)
      in (keysToRemove, foldl (removeItem removable) st keysToRemove))"

section \<open>Which sessions are live\<close>

text \<open>
  \<open>workspaces\<close> is the answer of \<open>listWorkspaces\<close> (the ids) and \<open>listing w\<close> that of a workspace's
  sessions (\<open>Some None\<close> for an answer without a list); \<open>None\<close> is a rejection.
\<close>

definition collectLiveSessionIdsAcrossWorkspaces ::
  "string list option \<Rightarrow> (string \<Rightarrow> string list option option) \<Rightarrow> string \<Rightarrow> string list \<Rightarrow> string list option" where
  "collectLiveSessionIdsAcrossWorkspaces workspaces listing currentWorkspaceId currentLiveIds =
     (case workspaces of
        None \<Rightarrow> None
      | Some ws \<Rightarrow>
          map_option (\<lambda>ls. currentLiveIds @ concat (map (\<lambda>l. case l of Some ids \<Rightarrow> ids | None \<Rightarrow> []) ls))
            (those (map listing (filter (\<lambda>w. w \<noteq> currentWorkspaceId) ws))))"

definition sweep ::
  "string list option \<Rightarrow> (string \<Rightarrow> string list option option) \<Rightarrow> (string \<Rightarrow> bool) \<Rightarrow> string \<Rightarrow> string list \<Rightarrow> storage \<Rightarrow> storage" where
  "sweep workspaces listing removable workspaceId liveIds st =
     (case collectLiveSessionIdsAcrossWorkspaces workspaces listing workspaceId liveIds of
        None \<Rightarrow> st
      | Some live \<Rightarrow> snd (sweepDeadSessionStorage live removable st))"

text \<open>
  The gate of \<open>sweepWhenIdle\<close>: \<open>stored\<close> is the shared time as a number, \<open>None\<close> where storage is
  unavailable or holds none. The result is whether a sweep is scheduled, and the time the ref keeps.
\<close>

definition SESSION_STORAGE_SWEEP_INTERVAL_MS :: int where
  "SESSION_STORAGE_SWEEP_INTERVAL_MS = 300000"

definition sweepWhenIdle :: "int \<Rightarrow> int option \<Rightarrow> int \<Rightarrow> bool \<times> int" where
  "sweepWhenIdle now stored lastRunAtRef =
     (let lastRunAt = (case stored of Some t \<Rightarrow> max lastRunAtRef t | None \<Rightarrow> lastRunAtRef)
      in if now - lastRunAt < SESSION_STORAGE_SWEEP_INTERVAL_MS then (False, lastRunAtRef) else (True, now))"

section \<open>What a sweep keeps\<close>

lemma removeItem_fold:
  "foldl (removeItem removable) st ks = filter (\<lambda>(k, _). \<not> (k \<in> set ks \<and> removable k)) st"
proof (induction ks arbitrary: st)
  case (Cons key ks)
  have "filter (\<lambda>(k, _). \<not> (k \<in> set ks \<and> removable k)) (removeItem removable st key)
      = filter (\<lambda>(k, _). \<not> (k \<in> set (key # ks) \<and> removable k)) st"
    by (auto simp: case_prod_beta intro!: filter_cong)
  with Cons show ?case by (simp del: removeItem.simps)
qed simp

lemma swept: "snd (sweepDeadSessionStorage live removable st) = filter (\<lambda>(k, _). \<not> (dead_key live k \<and> removable k)) st"
  unfolding sweepDeadSessionStorage_def Let_def snd_conv removeItem_fold
  by (rule filter_cong) (force simp: case_prod_beta)+

text \<open>C32. A sweep removes what belongs to dead sessions and nothing else: if every listing succeeds it
  keeps, in order, exactly the entries outside the session prefixes, those of a session that some
  workspace lists, and those whose removal throws; if any listing fails it removes nothing.\<close>

theorem sweep_spares_live_sessions:
  assumes "st' = sweep workspaces listing removable w liveIds st"
  shows "(workspaces = None \<or> (\<exists>v \<in> set (the workspaces). v \<noteq> w \<and> listing v = None) \<longrightarrow> st' = st)
    \<and> (\<forall>ws. workspaces = Some ws \<and> (\<forall>v \<in> set ws. v \<noteq> w \<longrightarrow> listing v \<noteq> None) \<longrightarrow>
        st' = filter (\<lambda>(k, _). \<not> (removable k \<and> (\<exists>p \<in> set SESSION_SCOPED_PREFIXES. \<exists>sid.
            k = p @ sid \<and> sid \<notin> set liveIds
            \<and> (\<forall>v \<in> set ws. \<forall>ids. v \<noteq> w \<longrightarrow> listing v = Some (Some ids) \<longrightarrow> sid \<notin> set ids)))) st)"
proof -
  have dead: "dead_key live k \<longleftrightarrow> (\<exists>p \<in> set SESSION_SCOPED_PREFIXES. \<exists>sid. k = p @ sid \<and> sid \<notin> set live)" for live k
    by (auto simp: dead_key_def SESSION_SCOPED_PREFIXES_def starts_with_iff)
  have fails: "st' = st" if bad: "workspaces = None \<or> (\<exists>v \<in> set (the workspaces). v \<noteq> w \<and> listing v = None)"
  proof (cases workspaces)
    case (Some ws)
    with bad have "those (map listing (filter (\<lambda>v. v \<noteq> w) ws)) = None" by (auto simp: those_map_None)
    with Some assms show ?thesis by (simp add: sweep_def collectLiveSessionIdsAcrossWorkspaces_def)
  qed (use assms in \<open>simp add: sweep_def collectLiveSessionIdsAcrossWorkspaces_def\<close>)
  have works: "st' = filter (\<lambda>(k, _). \<not> (removable k \<and> (\<exists>p \<in> set SESSION_SCOPED_PREFIXES. \<exists>sid.
            k = p @ sid \<and> sid \<notin> set liveIds
            \<and> (\<forall>v \<in> set ws. \<forall>ids. v \<noteq> w \<longrightarrow> listing v = Some (Some ids) \<longrightarrow> sid \<notin> set ids)))) st"
    if ws: "workspaces = Some ws" "\<forall>v \<in> set ws. v \<noteq> w \<longrightarrow> listing v \<noteq> None" for ws
  proof -
    let ?vs = "filter (\<lambda>v. v \<noteq> w) ws"
    obtain ls where ls: "those (map listing ?vs) = Some ls"
      using ws(2) by (cases "those (map listing ?vs)") (auto simp: those_map_None)
    let ?live = "liveIds @ concat (map (\<lambda>l. case l of Some ids \<Rightarrow> ids | None \<Rightarrow> []) ls)"
    have maps: "map listing ?vs = map Some ls" using ls by (simp add: those_Some)
    have mem: "Some ids \<in> set ls \<longleftrightarrow> (\<exists>v \<in> set ws. v \<noteq> w \<and> listing v = Some (Some ids))" for ids
    proof -
      have "Some ids \<in> set ls \<longleftrightarrow> Some (Some ids) \<in> set (map listing ?vs)" unfolding maps by auto
      also have "\<dots> \<longleftrightarrow> (\<exists>v \<in> set ws. v \<noteq> w \<and> listing v = Some (Some ids))" by (auto simp: image_iff)
      finally show ?thesis .
    qed
    have live: "sid \<notin> set ?live \<longleftrightarrow> sid \<notin> set liveIds
        \<and> (\<forall>v \<in> set ws. \<forall>ids. v \<noteq> w \<longrightarrow> listing v = Some (Some ids) \<longrightarrow> sid \<notin> set ids)" for sid
    proof -
      have "sid \<in> set (concat (map (\<lambda>l. case l of Some ids \<Rightarrow> ids | None \<Rightarrow> []) ls))
          \<longleftrightarrow> (\<exists>ids. Some ids \<in> set ls \<and> sid \<in> set ids)"
        by (force split: option.splits)
      then show ?thesis unfolding set_append Un_iff mem by blast
    qed
    have "st' = filter (\<lambda>(k, _). \<not> (dead_key ?live k \<and> removable k)) st"
      using assms ws(1) ls by (simp add: sweep_def collectLiveSessionIdsAcrossWorkspaces_def swept)
    then show ?thesis by (simp only: dead live conj_commute)
  qed
  show ?thesis using fails works by blast
qed

lemma sweep_spares_live_sessions_witness:
  "sweep (Some [''w1'', ''w2'']) (\<lambda>v. if v = ''w2'' then Some (Some [''s2'']) else None) (\<lambda>k. True) ''w1'' [''s1'']
     [(''draft:s1'', ''a''), (''queue:s2'', ''b''), (''queue:s3'', ''c''), (''theme'', ''d'')]
   = [(''draft:s1'', ''a''), (''queue:s2'', ''b''), (''theme'', ''d'')]"
proof -
  let ?l = "\<lambda>v. if v = ''w2'' then Some (Some [''s2'']) else None"
  let ?st = "[(''draft:s1'', ''a''), (''queue:s2'', ''b''), (''queue:s3'', ''c''), (''theme'', ''d'')]"
  have "sweep (Some [''w1'', ''w2'']) ?l (\<lambda>k. True) ''w1'' [''s1''] ?st
      = filter (\<lambda>(k, _). \<not> (\<exists>p \<in> set SESSION_SCOPED_PREFIXES. \<exists>sid. k = p @ sid \<and> sid \<notin> set [''s1'']
            \<and> (\<forall>v \<in> set [''w1'', ''w2'']. \<forall>ids. v \<noteq> ''w1'' \<longrightarrow> ?l v = Some (Some ids) \<longrightarrow> sid \<notin> set ids))) ?st"
    using sweep_spares_live_sessions [OF refl, where workspaces = "Some [''w1'', ''w2'']" and listing = ?l
        and removable = "\<lambda>k. True" and w = "''w1''" and liveIds = "[''s1'']" and st = ?st] by auto
  also have "\<dots> = [(''draft:s1'', ''a''), (''queue:s2'', ''b''), (''theme'', ''d'')]"
    by (simp add: SESSION_SCOPED_PREFIXES_def)
  finally show ?thesis .
qed

end
