(* ===== verification/SingleFlight.thy ===== *)
theory SingleFlight
  imports Prelude
begin

text \<open>
  One request at a time per key, shared: the pattern of \<open>fetchSessions\<close> (\<open>context/SessionsContext.jsx\<close>),
  \<open>refreshSession\<close> (\<open>context/SessionDataContext.jsx\<close>) and \<open>fetchBoard\<close> (\<open>features/boards/hooks/useBoardData.js\<close>).
  A caller that arrives while a request for its key is in flight gets a deferred promise, which the
  request sent when that one ends settles. Requests and promises are numbers; \<open>sf_chained r\<close> is the
  promise that request \<open>r\<close> settles when it ends. The locale is the contract for any state that keeps
  such a slot.
\<close>

section \<open>The slot\<close>

record 'k flight =
  sf_slot :: "nat option"
  sf_key :: "'k option"
  sf_runs :: "nat \<rightharpoonup> 'k"
  sf_pending :: bool
  sf_deferred :: "nat option"
  sf_chained :: "nat \<rightharpoonup> nat"
  sf_resolved :: "nat set"
  sf_next :: nat

definition empty_flight :: "'k flight" where
  "empty_flight = \<lparr>sf_slot = None, sf_key = None, sf_runs = Map.empty, sf_pending = False, sf_deferred = None,
     sf_chained = Map.empty, sf_resolved = {}, sf_next = 0\<rparr>"

text \<open>What a call gives its caller: nothing, a deferred promise, or the promise of a request.\<close>

datatype fetch_promise = Nothing | Deferred nat | Run nat

definition sf_resolve :: "nat option \<Rightarrow> 'k flight \<Rightarrow> 'k flight" where
  "sf_resolve d f = (case d of None \<Rightarrow> f | Some n \<Rightarrow> f\<lparr>sf_resolved := insert n (sf_resolved f)\<rparr>)"

definition sf_join :: "'k flight \<Rightarrow> 'k flight \<times> fetch_promise" where
  "sf_join f =
     (case sf_deferred f of
        Some d \<Rightarrow> (f\<lparr>sf_pending := True\<rparr>, Deferred d)
      | None \<Rightarrow> (f\<lparr>sf_pending := True, sf_deferred := Some (sf_next f), sf_next := Suc (sf_next f)\<rparr>, Deferred (sf_next f)))"

text \<open>A wave that waits for a superseded request is settled rather than attached to another one.\<close>

definition sf_orphans :: "'k flight \<Rightarrow> 'k flight" where
  "sf_orphans f =
     (if sf_pending f then sf_resolve (sf_deferred f) (f\<lparr>sf_pending := False, sf_deferred := None\<rparr>) else f)"

definition sf_start :: "'k \<Rightarrow> 'k flight \<Rightarrow> 'k flight \<times> fetch_promise" where
  "sf_start k f =
     (let r = sf_next f
      in (f\<lparr>sf_next := Suc r, sf_runs := (sf_runs f)(r \<mapsto> k), sf_slot := Some r, sf_key := Some k\<rparr>, Run r))"

definition sf_call :: "'k \<Rightarrow> 'k flight \<Rightarrow> 'k flight \<times> fetch_promise" where
  "sf_call k f = (if sf_slot f \<noteq> None \<and> sf_key f = Some k then sf_join f else sf_start k (sf_orphans f))"

text \<open>The request in the slot ends: the slot is free, and a wave that waits gets the next request.\<close>

definition sf_leave :: "'k \<Rightarrow> 'k flight \<Rightarrow> 'k flight" where
  "sf_leave again f0 =
     (let f = f0\<lparr>sf_slot := None, sf_key := None\<rparr>
      in if \<not> sf_pending f then f
         else
           let waiting = sf_deferred f;
               (f', p) = sf_call again (f\<lparr>sf_pending := False, sf_deferred := None\<rparr>)
           in case (waiting, p) of
                (Some d, Run r) \<Rightarrow> f'\<lparr>sf_chained := (sf_chained f')(r \<mapsto> d)\<rparr>
              | (Some d, _) \<Rightarrow> sf_resolve (Some d) f'
              | (None, _) \<Rightarrow> f')"

text \<open>A request leaves the map and settles the promise chained to it.\<close>

definition sf_drop :: "nat \<Rightarrow> 'k flight \<Rightarrow> 'k flight" where
  "sf_drop r f = sf_resolve (sf_chained f r) (f\<lparr>sf_runs := (sf_runs f)(r := None), sf_chained := (sf_chained f)(r := None)\<rparr>)"

definition sf_end :: "nat \<Rightarrow> 'k \<Rightarrow> 'k flight \<Rightarrow> 'k flight" where
  "sf_end r again f = sf_drop r (if sf_slot f = Some r then sf_leave again f else f)"

text \<open>A change signal while the slot is taken arms the next request without a promise.\<close>

inductive flight_step :: "'k flight \<Rightarrow> 'k flight \<Rightarrow> bool" where
  Call: "flight_step f (fst (sf_call k f))"
| End: "sf_runs f r \<noteq> None \<Longrightarrow> flight_step f (sf_end r again f)"
| Signal: "sf_slot f \<noteq> None \<Longrightarrow> flight_step f (f\<lparr>sf_pending := True\<rparr>)"

section \<open>The invariant\<close>

text \<open>
  The slot holds a request in flight for its key; a wave waits only while it is taken; a promise waits
  for a request that started after it was made.
\<close>

definition flight_inv :: "'k flight \<Rightarrow> bool" where
  "flight_inv f \<longleftrightarrow>
     (sf_slot f = None \<longrightarrow> sf_key f = None \<and> \<not> sf_pending f)
     \<and> (\<forall>r. sf_slot f = Some r \<longrightarrow> (\<exists>k. sf_runs f r = Some k \<and> sf_key f = Some k))
     \<and> (sf_deferred f \<noteq> None \<longrightarrow> sf_pending f)
     \<and> (\<forall>d. sf_deferred f = Some d \<longrightarrow> d < sf_next f)
     \<and> (\<forall>r. sf_runs f r \<noteq> None \<longrightarrow> r < sf_next f)
     \<and> (\<forall>r d. sf_chained f r = Some d \<longrightarrow> d < r \<and> sf_runs f r \<noteq> None)"

definition awaited :: "'k flight \<Rightarrow> nat \<Rightarrow> bool" where
  "awaited f d \<longleftrightarrow> sf_deferred f = Some d \<or> (\<exists>r. sf_chained f r = Some d)"

text \<open>A promise is settled by the request it is chained to, or because the slot changes key.\<close>

definition settled_fairly :: "'k flight \<Rightarrow> 'k flight \<Rightarrow> nat \<Rightarrow> bool" where
  "settled_fairly f f' d \<longleftrightarrow>
     (\<exists>r. sf_chained f r = Some d \<and> sf_runs f' r = None)
     \<or> (sf_deferred f = Some d \<and> sf_key f' \<noteq> None \<and> sf_key f' \<noteq> sf_key f)"

definition keeps :: "'k flight \<Rightarrow> 'k flight \<Rightarrow> bool" where
  "keeps f f' \<longleftrightarrow> flight_inv f'
     \<and> (\<forall>d. d \<in> sf_resolved f \<or> awaited f d \<longrightarrow> d \<in> sf_resolved f' \<or> awaited f' d)
     \<and> (\<forall>d. d \<in> sf_resolved f' \<longrightarrow> d \<in> sf_resolved f \<or> settled_fairly f f' d)"

lemma empty_flight_inv: "flight_inv empty_flight"
  by (simp add: flight_inv_def empty_flight_def)

lemma start_inv: "flight_inv f \<Longrightarrow> sf_slot f = None \<or> \<not> sf_pending f \<Longrightarrow> flight_inv (fst (sf_start k f))"
  by (auto simp: flight_inv_def sf_start_def Let_def less_Suc_eq split: option.splits)

lemma join_keeps: "flight_inv f \<Longrightarrow> sf_slot f \<noteq> None \<Longrightarrow> keeps f (fst (sf_join f))"
  by (auto simp: keeps_def flight_inv_def awaited_def sf_join_def less_Suc_eq split: option.splits)

lemma orphans_inv: "flight_inv f \<Longrightarrow> flight_inv (sf_orphans f)"
  by (auto simp: flight_inv_def sf_orphans_def sf_resolve_def split: option.splits)

lemma call_keeps:
  assumes "flight_inv f"
  shows "keeps f (fst (sf_call k f))"
proof (cases "sf_slot f \<noteq> None \<and> sf_key f = Some k")
  case True
  with join_keeps [OF assms] show ?thesis by (simp add: sf_call_def)
next
  case False
  let ?f = "sf_orphans f"
  have p: "\<not> sf_pending ?f" by (auto simp: sf_orphans_def sf_resolve_def split: option.splits)
  have inv: "flight_inv (fst (sf_start k ?f))" using orphans_inv [OF assms] p by (intro start_inv) auto
  have same: "sf_chained (fst (sf_start k ?f)) = sf_chained f" "sf_key (fst (sf_start k ?f)) = Some k"
    "sf_resolved (fst (sf_start k ?f)) = sf_resolved f \<union> (case sf_deferred f of None \<Rightarrow> {} | Some d \<Rightarrow> if sf_pending f then {d} else {})"
    "sf_deferred (fst (sf_start k ?f)) = (if sf_pending f then None else sf_deferred f)"
    by (auto simp: sf_start_def sf_orphans_def sf_resolve_def Let_def split: option.splits)
  have d: "sf_deferred f = Some d \<Longrightarrow> sf_pending f \<and> sf_key f \<noteq> Some k" for d
    using assms False by (auto simp: flight_inv_def split: option.splits)
  have "keeps f (fst (sf_start k ?f))"
    unfolding keeps_def awaited_def settled_fairly_def same using inv d by (auto split: option.splits if_splits)
  with False show ?thesis by (auto simp: sf_call_def)
qed

lemma leave_signalled:
  "sf_pending f \<Longrightarrow> sf_leave k f =
     f\<lparr>sf_pending := False, sf_deferred := None, sf_next := Suc (sf_next f),
       sf_runs := (sf_runs f)(sf_next f \<mapsto> k), sf_slot := Some (sf_next f), sf_key := Some k,
       sf_chained := (case sf_deferred f of Some d \<Rightarrow> (sf_chained f)(sf_next f \<mapsto> d) | None \<Rightarrow> sf_chained f)\<rparr>"
  by (auto simp: sf_leave_def sf_call_def sf_orphans_def sf_start_def Let_def split: option.splits)

lemma leave_idle: "\<not> sf_pending f \<Longrightarrow> sf_leave k f = f\<lparr>sf_slot := None, sf_key := None\<rparr>"
  by (simp add: sf_leave_def Let_def)

lemma drop_fields:
  "sf_slot (sf_drop r f) = sf_slot f" "sf_key (sf_drop r f) = sf_key f" "sf_pending (sf_drop r f) = sf_pending f"
  "sf_deferred (sf_drop r f) = sf_deferred f" "sf_next (sf_drop r f) = sf_next f"
  "sf_runs (sf_drop r f) = (sf_runs f)(r := None)" "sf_chained (sf_drop r f) = (sf_chained f)(r := None)"
  "sf_resolved (sf_drop r f) = sf_resolved f \<union> (case sf_chained f r of Some d \<Rightarrow> {d} | None \<Rightarrow> {})"
  by (auto simp: sf_drop_def sf_resolve_def split: option.splits)

text \<open>A step that ends request \<open>r\<close>, and hands on what waits for the signal, loses no promise.\<close>

lemma end_keeps_awaited:
  assumes "flight_inv u"
    and "\<And>i d. i \<noteq> r \<Longrightarrow> sf_chained f i = Some d \<Longrightarrow> sf_chained u i = Some d"
    and "\<And>d. sf_deferred f = Some d \<Longrightarrow> awaited u d"
    and "sf_runs u r = None"
    and "sf_resolved u = sf_resolved f \<union> (case sf_chained f r of Some d \<Rightarrow> {d} | None \<Rightarrow> {})"
  shows "keeps f u"
proof -
  have "d \<in> sf_resolved u \<or> awaited u d" if waits: "d \<in> sf_resolved f \<or> awaited f d" for d
  proof -
    consider "d \<in> sf_resolved f" | "sf_deferred f = Some d" | i where "sf_chained f i = Some d"
      using waits unfolding awaited_def by blast
    then show ?thesis
    proof cases
      case (3 i)
      then show ?thesis using assms(2) [of i d] assms(5) by (cases "i = r") (auto simp: awaited_def)
    qed (use assms(3,5) in auto)
  qed
  moreover have "d \<in> sf_resolved f \<or> settled_fairly f u d" if "d \<in> sf_resolved u" for d
    using that assms(4,5) by (auto simp: settled_fairly_def split: option.splits)
  ultimately show ?thesis using assms(1) unfolding keeps_def by blast
qed

lemma end_superseded:
  assumes "flight_inv f" and "sf_slot f \<noteq> Some r"
  shows "keeps f (sf_drop r f)"
proof (rule end_keeps_awaited)
  show "flight_inv (sf_drop r f)" using assms by (auto simp: flight_inv_def drop_fields)
qed (simp_all add: drop_fields awaited_def)

lemma end_idle:
  assumes "flight_inv f" and "sf_slot f = Some r" and "\<not> sf_pending f"
  shows "keeps f (sf_drop r (sf_leave k f))"
proof -
  let ?u = "sf_drop r (sf_leave k f)"
  have u: "sf_slot ?u = None" "sf_key ?u = None" "\<not> sf_pending ?u" "sf_deferred ?u = sf_deferred f"
    "sf_next ?u = sf_next f" "sf_runs ?u = (sf_runs f)(r := None)" "sf_chained ?u = (sf_chained f)(r := None)"
    "sf_resolved ?u = sf_resolved f \<union> (case sf_chained f r of Some d \<Rightarrow> {d} | None \<Rightarrow> {})"
    using assms(3) by (simp_all add: drop_fields leave_idle)
  have "flight_inv ?u" using assms u(3) unfolding flight_inv_def u by auto
  then show ?thesis by (rule end_keeps_awaited [of ?u r f]) (simp_all add: u awaited_def)
qed

lemma end_signalled:
  assumes "flight_inv f" and "sf_slot f = Some r" and "sf_pending f"
  shows "keeps f (sf_drop r (sf_leave k f))"
proof -
  have fresh: "sf_runs f (sf_next f) = None" "sf_chained f (sf_next f) = None" "r < sf_next f"
    using assms by (auto simp: flight_inv_def) (metis less_irrefl not_Some_eq option.distinct(1))+
  let ?u = "sf_drop r (sf_leave k f)"
  have u: "sf_slot ?u = Some (sf_next f)" "sf_key ?u = Some k" "\<not> sf_pending ?u"
    "sf_deferred ?u = None" "sf_next ?u = Suc (sf_next f)"
    "sf_resolved ?u = sf_resolved f \<union> (case sf_chained f r of Some d \<Rightarrow> {d} | None \<Rightarrow> {})"
    using assms fresh by (auto simp: drop_fields leave_signalled split: option.splits)
  have runs: "sf_runs ?u i = (if i = r then None else if i = sf_next f then Some k else sf_runs f i)" for i
    using assms fresh by (auto simp: drop_fields leave_signalled)
  have chain: "sf_chained ?u i = (if i = r then None else if i = sf_next f then sf_deferred f else sf_chained f i)" for i
    using assms fresh by (auto simp: drop_fields leave_signalled split: option.splits)
  have "flight_inv ?u"
    using assms fresh unfolding flight_inv_def u runs chain by (auto simp: less_Suc_eq)
  then show ?thesis
  proof (rule end_keeps_awaited [of ?u r f])
    show "awaited ?u d" if "sf_deferred f = Some d" for d
      using that fresh(3) unfolding awaited_def u chain by auto
    show "sf_chained ?u i = Some d" if "i \<noteq> r" "sf_chained f i = Some d" for i d
      using that fresh(2) by (auto simp: chain)
  qed (simp_all add: runs u)
qed

lemma flight_step_keeps: "flight_step f f' \<Longrightarrow> flight_inv f \<Longrightarrow> keeps f f'"
proof (induction rule: flight_step.induct)
  case (Call f k)
  then show ?case by (rule call_keeps)
next
  case (End f r again)
  then show ?case
    using end_superseded [of f r] end_idle [of f r again] end_signalled [of f r again]
    by (cases "sf_slot f = Some r") (auto simp: sf_end_def)
next
  case (Signal f)
  then show ?case by (auto simp: keeps_def flight_inv_def awaited_def settled_fairly_def)
qed

section \<open>The contract\<close>

text \<open>
  A state keeps a slot if what it shows of one starts empty and every step of the state is a step of the
  slot or leaves it alone.
\<close>

locale single_flight =
  fixes view :: "'s \<Rightarrow> 'k flight" and step :: "'s \<Rightarrow> 's \<Rightarrow> bool" and init :: 's
  assumes starts: "view init = empty_flight"
    and simulates: "step s s' \<Longrightarrow> flight_step (view s) (view s') \<or> view s' = view s"
begin

lemma step_keeps: "step s s' \<Longrightarrow> flight_inv (view s) \<Longrightarrow> keeps (view s) (view s')"
  using simulates [of s s'] flight_step_keeps [of "view s" "view s'"] by (auto simp: keeps_def)

lemma steps_keep:
  "rtranclp step s t \<Longrightarrow> flight_inv (view s) \<Longrightarrow> flight_inv (view t)
     \<and> (\<forall>d. d \<in> sf_resolved (view s) \<or> awaited (view s) d \<longrightarrow> d \<in> sf_resolved (view t) \<or> awaited (view t) d)"
proof (induction rule: rtranclp_induct)
  case (step t u)
  then have "keeps (view t) (view u)" by (blast intro: step_keeps)
  with step show ?case unfolding keeps_def by blast
qed simp

lemma reachable_inv: "rtranclp step init s \<Longrightarrow> flight_inv (view s)"
  using steps_keep [of init s] by (simp add: starts empty_flight_inv)

text \<open>The slot is taken exactly by a request in flight, and a promise waits only behind one.\<close>

lemma slot_in_flight: "rtranclp step init s \<Longrightarrow> sf_slot (view s) = Some r \<Longrightarrow> sf_runs (view s) r = sf_key (view s)"
  using reachable_inv [of s] by (auto simp: flight_inv_def)

lemma wave_waits_behind_a_request: "rtranclp step init s \<Longrightarrow> sf_deferred (view s) \<noteq> None \<Longrightarrow> sf_slot (view s) \<noteq> None"
  using reachable_inv [of s] by (auto simp: flight_inv_def)

lemma joiner_settles:
  assumes "rtranclp step init s" and "snd (sf_call k (view s)) = Deferred d"
    and "view s' = fst (sf_call k (view s))" and "rtranclp step s' t"
  shows "sf_runs (view t) = Map.empty \<Longrightarrow> d \<in> sf_resolved (view t)"
    and "step t u \<Longrightarrow> d \<notin> sf_resolved (view t) \<Longrightarrow> d \<in> sf_resolved (view u) \<Longrightarrow>
      (\<exists>r > d. sf_runs (view t) r \<noteq> None \<and> sf_runs (view u) r = None)
      \<or> (sf_key (view u) \<noteq> None \<and> sf_key (view u) \<noteq> sf_key (view t))"
proof -
  have inv: "flight_inv (view s')"
    using call_keeps [OF reachable_inv [OF assms(1)], of k] unfolding assms(3) keeps_def by blast
  have "awaited (view s') d"
    using assms(2) unfolding assms(3)
    by (auto simp: awaited_def sf_call_def sf_join_def sf_start_def Let_def split: option.splits if_splits)
  then have t: "flight_inv (view t)" "d \<in> sf_resolved (view t) \<or> awaited (view t) d"
    using steps_keep [OF assms(4) inv] by auto
  show "d \<in> sf_resolved (view t)" if "sf_runs (view t) = Map.empty"
  proof -
    have "sf_deferred (view t) = None" "sf_chained (view t) r = None" for r
      using t(1) that by (auto simp: flight_inv_def)
    with t(2) show ?thesis by (simp add: awaited_def)
  qed
  show "(\<exists>r > d. sf_runs (view t) r \<noteq> None \<and> sf_runs (view u) r = None)
      \<or> (sf_key (view u) \<noteq> None \<and> sf_key (view u) \<noteq> sf_key (view t))"
    if "step t u" "d \<notin> sf_resolved (view t)" "d \<in> sf_resolved (view u)"
  proof -
    have "settled_fairly (view t) (view u) d" using step_keeps [OF that(1) t(1)] that(2,3) by (auto simp: keeps_def)
    moreover have "sf_chained (view t) r = Some d \<Longrightarrow> d < r \<and> sf_runs (view t) r \<noteq> None" for r
      using t(1) by (simp add: flight_inv_def)
    ultimately show ?thesis unfolding settled_fairly_def by blast
  qed
qed

end

end
