(* ===== verification/SessionList.thy ===== *)
theory SessionList
  imports StorageGc SingleFlight
begin

text \<open>
  The preloaded list of sessions (\<open>context/SessionsContext.jsx\<close>): one request at a time per workspace,
  callers that arrive meanwhile share a re-armed one, and pins and color are written at once here and
  saved behind. A request is a run with the counts of writes at the time it was sent; its answer is a
  step. Deferred promises are numbers; \<open>chained\<close> says which ones a run settles when it ends.
\<close>

section \<open>Sessions\<close>

text \<open>\<open>x === y\<close> on parsed values: an array or object of another answer is another object.\<close>

fun strict_eq :: "jval \<Rightarrow> jval \<Rightarrow> bool" where
  "strict_eq (JArr _) _ = False"
| "strict_eq (JObj _) _ = False"
| "strict_eq x y = (x = y)"

fun field_eq :: "jval \<Rightarrow> jval \<Rightarrow> bool" where
  "field_eq (JArr xs) (JArr ys) = list_all2 strict_eq xs ys"
| "field_eq x y = strict_eq x y"

type_synonym session_info = "(string \<times> jval) list"

definition sameSession :: "session_info \<Rightarrow> session_info \<Rightarrow> bool" where
  "sameSession a b \<longleftrightarrow> length b = length a
     \<and> (\<forall>k \<in> set (map fst b). field_eq (jget (JObj a) k) (jget (JObj b) k))"

definition session_id :: "session_info \<Rightarrow> jval" where
  "session_id s = jget (JObj s) ''session_id''"

text \<open>The previous object an entry of the answer is replaced by; a later duplicate id overwrites.\<close>

definition kept_object :: "session_info list \<Rightarrow> session_info \<Rightarrow> nat option" where
  "kept_object prev s = (case last_index (\<lambda>p. session_id p = session_id s) prev of
     Some j \<Rightarrow> if sameSession (prev ! j) s then Some j else None
   | None \<Rightarrow> None)"

definition reuseUnchangedSessions :: "session_info list \<Rightarrow> session_info list \<Rightarrow> session_info list" where
  "reuseUnchangedSessions prev new =
     (let kept = map (kept_object prev) new
      in if length prev \<noteq> length new \<or> (\<exists>i < length new. kept ! i \<noteq> Some i)
         then map2 (\<lambda>k s. case k of Some j \<Rightarrow> prev ! j | None \<Rightarrow> s) kept new
         else prev)"

definition merge_info :: "session_info \<Rightarrow> session_info \<Rightarrow> session_info" where
  "merge_info old new = map (\<lambda>(k, v). (k, case map_of new k of Some w \<Rightarrow> w | None \<Rightarrow> v)) old
     @ filter (\<lambda>(k, _). k \<notin> set (map fst old)) new"

definition seed_session :: "session_info \<Rightarrow> session_info list \<Rightarrow> session_info list" where
  "seed_session info prev =
     (case find_index (\<lambda>s. session_id s = session_id info) prev of
        Some i \<Rightarrow> if sameSession (prev ! i) (merge_info (prev ! i) info) then prev
                   else prev[i := merge_info (prev ! i) info]
      | None \<Rightarrow> prev @ [info])"

section \<open>State\<close>

record writes =
  started :: nat
  settled_writes :: nat

definition readReflectsWrites :: "writes \<Rightarrow> writes \<Rightarrow> bool" where
  "readReflectsWrites atRead now \<longleftrightarrow> settled_writes atRead = started atRead \<and> started now = started atRead"

record fetch_run =
  fr_workspace :: string
  fr_pins :: writes
  fr_colors :: writes

record fetched =
  fe_sessions :: "session_info list option"
  fe_pinned :: "string list option"
  fe_color :: "string option"
  fe_filter :: "string option"

record session_list =
  workspace :: "string option"
  shown_sessions :: "session_info list"
  pinned :: "string list"
  color :: "string option"
  panelFilterPick :: string
  fallbackToAll :: bool
  filterHydrated :: bool
  loading :: bool
  fetch_error :: "string option"
  slot :: "nat option"
  slot_workspace :: "string option"
  fetch_runs :: "nat \<rightharpoonup> fetch_run"
  pendingSignal :: bool
  deferred :: "nat option"
  chained :: "nat \<rightharpoonup> nat"
  resolved :: "nat set"
  next_number :: nat
  lastFetchCompleted :: int
  debounce :: bool
  cooldown :: bool
  sweepLastRun :: int
  sweeps :: "(string \<times> jval list) list"
  pinWrites :: "string \<rightharpoonup> writes"
  colorWrites :: "string \<rightharpoonup> writes"

definition initial_list :: session_list where
  "initial_list = \<lparr>workspace = None, shown_sessions = [], pinned = [], color = None,
     panelFilterPick = ''conversations'', fallbackToAll = False, filterHydrated = False, loading = True,
     fetch_error = None, slot = None, slot_workspace = None, fetch_runs = Map.empty, pendingSignal = False,
     deferred = None, chained = Map.empty, resolved = {}, next_number = 0, lastFetchCompleted = 0,
     debounce = False, cooldown = False, sweepLastRun = 0, sweeps = [], pinWrites = Map.empty, colorWrites = Map.empty\<rparr>"

definition writesIn :: "(string \<rightharpoonup> writes) \<Rightarrow> string \<Rightarrow> writes" where
  "writesIn m w = (case m w of Some x \<Rightarrow> x | None \<Rightarrow> \<lparr>started = 0, settled_writes = 0\<rparr>)"

definition panelFilter :: "session_list \<Rightarrow> string" where
  "panelFilter s = (if fallbackToAll s then ''all'' else panelFilterPick s)"

section \<open>Fetching\<close>

definition resolve_deferred :: "nat option \<Rightarrow> session_list \<Rightarrow> session_list" where
  "resolve_deferred d s = (case d of None \<Rightarrow> s | Some n \<Rightarrow> s\<lparr>resolved := insert n (resolved s)\<rparr>)"

definition join_next :: "session_list \<Rightarrow> session_list \<times> fetch_promise" where
  "join_next s =
     (case deferred s of
        Some d \<Rightarrow> (s\<lparr>pendingSignal := True\<rparr>, Deferred d)
      | None \<Rightarrow>
          (s\<lparr>pendingSignal := True, deferred := Some (next_number s), next_number := Suc (next_number s)\<rparr>,
           Deferred (next_number s)))"

definition settle_orphans :: "session_list \<Rightarrow> session_list" where
  "settle_orphans s =
     (if pendingSignal s then resolve_deferred (deferred s) (s\<lparr>pendingSignal := False, deferred := None\<rparr>) else s)"

definition start_run :: "string \<Rightarrow> session_list \<Rightarrow> session_list \<times> fetch_promise" where
  "start_run w s =
     (let r = next_number s
      in (s\<lparr>next_number := Suc r,
            fetch_runs := (fetch_runs s)(r \<mapsto> \<lparr>fr_workspace = w, fr_pins = writesIn (pinWrites s) w,
              fr_colors = writesIn (colorWrites s) w\<rparr>),
            slot := Some r, slot_workspace := Some w\<rparr>, Run r))"

text \<open>\<open>w\<close> is the workspace the callback was made for.\<close>

definition fetchSessions :: "string option \<Rightarrow> session_list \<Rightarrow> session_list \<times> fetch_promise" where
  "fetchSessions w s =
     (case w of
        None \<Rightarrow> (s, Nothing)
      | Some v \<Rightarrow> if slot s \<noteq> None \<and> slot_workspace s = Some v then join_next s
                   else start_run v (settle_orphans s))"

definition revalidate :: "string option \<Rightarrow> session_list \<Rightarrow> session_list \<times> fetch_promise" where
  "revalidate w s =
     (case slot s of
        Some r \<Rightarrow> if slot_workspace s = w then (s, Run r) else fetchSessions w s
      | None \<Rightarrow> fetchSessions w s)"

text \<open>An answer that the slot's run applies; \<open>now\<close> and \<open>stored\<close> are what the sweep's gate reads.\<close>

definition apply_fetched :: "int \<Rightarrow> int option \<Rightarrow> fetch_run \<Rightarrow> fetched \<Rightarrow> session_list \<Rightarrow> session_list" where
  "apply_fetched now stored run res s =
     (let live = (case fe_sessions res of Some ss \<Rightarrow> ss | None \<Rightarrow> []);
          w = fr_workspace run;
          (due, lastRun) = sweepWhenIdle now stored (sweepLastRun s)
      in s\<lparr>shown_sessions := reuseUnchangedSessions (shown_sessions s) live,
           pinned := (if readReflectsWrites (fr_pins run) (writesIn (pinWrites s) w)
                      then (case fe_pinned res of Some ps \<Rightarrow> ps | None \<Rightarrow> []) else pinned s),
           color := (if readReflectsWrites (fr_colors run) (writesIn (colorWrites s) w)
                     then (if nonempty (fe_color res) then fe_color res else None) else color s),
           panelFilterPick := (if filterHydrated s then panelFilterPick s
                               else if nonempty (fe_filter res) then the (fe_filter res) else ''conversations''),
           filterHydrated := True, fetch_error := None,
           sweepLastRun := lastRun,
           sweeps := (if due then sweeps s @ [(w, map session_id live)] else sweeps s)\<rparr>)"

text \<open>The \<open>finally\<close> block of the slot's run: a signal that came meanwhile starts the next run.\<close>

definition finish_run :: "int \<Rightarrow> fetch_run \<Rightarrow> session_list \<Rightarrow> session_list" where
  "finish_run now run s0 =
     (let s = s0\<lparr>loading := False, slot := None, slot_workspace := None, lastFetchCompleted := now\<rparr>
      in if \<not> pendingSignal s then s
         else
           let waiting = deferred s;
               (s', p) = fetchSessions (Some (fr_workspace run)) (s\<lparr>pendingSignal := False, deferred := None\<rparr>)
           in case (waiting, p) of
                (Some d, Run r) \<Rightarrow> s'\<lparr>chained := (chained s')(r \<mapsto> d)\<rparr>
              | (Some d, _) \<Rightarrow> resolve_deferred (Some d) s'
              | (None, _) \<Rightarrow> s')"

definition settleRun :: "int \<Rightarrow> int option \<Rightarrow> nat \<Rightarrow> string + fetched \<Rightarrow> session_list \<Rightarrow> session_list" where
  "settleRun now stored r outcome s0 =
     (case fetch_runs s0 r of
        None \<Rightarrow> s0
      | Some run \<Rightarrow>
          let s1 = (if slot s0 \<noteq> Some r then s0
                    else case outcome of
                           Inl msg \<Rightarrow> s0\<lparr>fetch_error := Some msg\<rparr>
                         | Inr res \<Rightarrow> apply_fetched now stored run res s0);
              s2 = (if slot s1 = Some r then finish_run now run s1 else s1);
              s3 = s2\<lparr>fetch_runs := (fetch_runs s2)(r := None)\<rparr>
          in resolve_deferred (chained s3 r) (s3\<lparr>chained := (chained s3)(r := None)\<rparr>))"

section \<open>Signals\<close>

definition debounceFires :: "int \<Rightarrow> session_list \<Rightarrow> session_list" where
  "debounceFires now s0 =
     (let s = s0\<lparr>debounce := False\<rparr>
      in if slot s \<noteq> None then s\<lparr>pendingSignal := True\<rparr>
         else if lastFetchCompleted s + 2000 - now > 0 then s\<lparr>cooldown := True\<rparr>
         else fst (fetchSessions (workspace s) s))"

definition cooldownFires :: "session_list \<Rightarrow> session_list" where
  "cooldownFires s = fst (fetchSessions (workspace s) (s\<lparr>cooldown := False\<rparr>))"

text \<open>The effects of a change of workspace, and of the signal count; \<open>changes\<close> is the workspace's count.\<close>

definition switchWorkspace :: "string option \<Rightarrow> nat \<Rightarrow> session_list \<Rightarrow> session_list" where
  "switchWorkspace w changes s0 =
     (let s = fst (revalidate w (s0\<lparr>workspace := w, debounce := False, cooldown := False\<rparr>))
      in s\<lparr>debounce := changes > 0\<rparr>)"

definition changeSignal :: "session_list \<Rightarrow> session_list" where
  "changeSignal s = s\<lparr>debounce := True, cooldown := False\<rparr>"

section \<open>Writes\<close>

definition start_write :: "(string \<rightharpoonup> writes) \<Rightarrow> string \<Rightarrow> string \<rightharpoonup> writes" where
  "start_write m w = m(w \<mapsto> (writesIn m w)\<lparr>started := Suc (started (writesIn m w))\<rparr>)"

definition settle_write :: "(string \<rightharpoonup> writes) \<Rightarrow> string \<Rightarrow> string \<rightharpoonup> writes" where
  "settle_write m w = m(w \<mapsto> (writesIn m w)\<lparr>settled_writes := Suc (settled_writes (writesIn m w))\<rparr>)"

definition togglePin :: "string \<Rightarrow> string \<Rightarrow> session_list \<Rightarrow> session_list" where
  "togglePin w sid s = s\<lparr>pinned := (if sid \<in> set (pinned s) then filter (\<lambda>i. i \<noteq> sid) (pinned s) else pinned s @ [sid]),
     pinWrites := start_write (pinWrites s) w\<rparr>"

definition setWorkspaceColor :: "string \<Rightarrow> string option \<Rightarrow> session_list \<Rightarrow> session_list" where
  "setWorkspaceColor w c s = s\<lparr>color := c, colorWrites := start_write (colorWrites s) w\<rparr>"

definition setPanelFilter :: "string \<Rightarrow> session_list \<Rightarrow> session_list" where
  "setPanelFilter f s = s\<lparr>panelFilterPick := f, fallbackToAll := False\<rparr>"

definition seedSession :: "session_info \<Rightarrow> session_list \<Rightarrow> session_list" where
  "seedSession info s = (if \<not> truthy (session_id info) then s
     else s\<lparr>shown_sessions := seed_session info (shown_sessions s)\<rparr>)"

end
