(* ===== verification/SessionListFacts.thy ===== *)
theory SessionListFacts
  imports SessionList
begin

text \<open>
  Callers that join a request in flight are settled, and by newer data; the pins shown are those of the
  server with this tab's unsaved toggles applied; the list shown is the list fetched.
\<close>

section \<open>Runs\<close>

inductive list_step :: "session_list \<Rightarrow> session_list \<Rightarrow> bool" where
  Fetch: "list_step s (fst (fetchSessions w s))"
| Revalidate: "list_step s (fst (revalidate w s))"
| Settle: "fetch_runs s r \<noteq> None \<Longrightarrow> list_step s (settleRun now stored r outcome s)"
| Switch: "list_step s (switchWorkspace w changes s)"
| Signal: "list_step s (changeSignal s)"
| Debounce: "debounce s \<Longrightarrow> list_step s (debounceFires now s)"
| Cooldown: "cooldown s \<Longrightarrow> list_step s (cooldownFires s)"
| Toggle: "list_step s (togglePin w sid s)"
| PinSaved: "list_step s (s\<lparr>pinWrites := settle_write (pinWrites s) w\<rparr>)"
| Color: "list_step s (setWorkspaceColor w c s)"
| ColorSaved: "list_step s (s\<lparr>colorWrites := settle_write (colorWrites s) w\<rparr>)"
| Filter: "list_step s (setPanelFilter f s)"
| Fallback: "list_step s (s\<lparr>fallbackToAll := b\<rparr>)"
| Seed: "list_step s (seedSession info s)"

section \<open>The slot\<close>

text \<open>What the list keeps of a slot.\<close>

definition list_flight :: "session_list \<Rightarrow> string flight" where
  "list_flight s = \<lparr>sf_slot = slot s, sf_key = slot_workspace s, sf_runs = map_option fr_workspace \<circ> fetch_runs s,
     sf_pending = pendingSignal s, sf_deferred = deferred s, sf_chained = chained s, sf_resolved = resolved s,
     sf_next = next_number s\<rparr>"

lemma list_flight_same:
  "slot s' = slot s \<Longrightarrow> slot_workspace s' = slot_workspace s \<Longrightarrow> pendingSignal s' = pendingSignal s \<Longrightarrow>
     deferred s' = deferred s \<Longrightarrow> next_number s' = next_number s \<Longrightarrow> fetch_runs s' = fetch_runs s \<Longrightarrow>
     chained s' = chained s \<Longrightarrow> resolved s' = resolved s \<Longrightarrow> list_flight s' = list_flight s"
  by (simp add: list_flight_def)

lemma fetch_flight:
  "list_flight (fst (fetchSessions (Some v) s)) = fst (sf_call v (list_flight s))"
  "snd (fetchSessions (Some v) s) = snd (sf_call v (list_flight s))"
  by (auto simp: list_flight_def fetchSessions_def sf_call_def join_next_def sf_join_def settle_orphans_def sf_orphans_def
      start_run_def sf_start_def resolve_deferred_def sf_resolve_def Let_def fun_eq_iff split: option.splits)

lemma fetch_none: "fetchSessions None s = (s, Nothing)"
  by (simp add: fetchSessions_def)

lemma fetch_step: "flight_step (list_flight s) (list_flight (fst (fetchSessions w s))) \<or> list_flight (fst (fetchSessions w s)) = list_flight s"
  by (cases w) (simp_all add: fetch_none fetch_flight flight_step.Call)

lemma revalidate_step: "flight_step (list_flight s) (list_flight (fst (revalidate w s))) \<or> list_flight (fst (revalidate w s)) = list_flight s"
  using fetch_step [of s w] by (auto simp: revalidate_def split: option.splits)

lemma finish_flight: "list_flight (finish_run now run s) = sf_leave (fr_workspace run) (list_flight s)"
proof (cases "pendingSignal s")
  case True
  then show ?thesis
    by (auto simp: list_flight_def finish_run_def fetchSessions_def settle_orphans_def start_run_def leave_signalled Let_def
        fun_eq_iff split: option.splits)
next
  case False
  then show ?thesis by (simp add: list_flight_def finish_run_def leave_idle Let_def)
qed

lemma settle_flight:
  assumes "fetch_runs s r = Some run"
  shows "list_flight (settleRun now stored r outcome s) = sf_end r (fr_workspace run) (list_flight s)"
proof -
  define t where "t = (if slot s \<noteq> Some r then s else case outcome of
      Inl msg \<Rightarrow> s\<lparr>fetch_error := Some msg\<rparr> | Inr res \<Rightarrow> apply_fetched now stored run res s)"
  define u where "u = (if slot t = Some r then finish_run now run t else t)"
  have t: "list_flight t = list_flight s" "slot t = slot s"
    by (auto simp: t_def apply_fetched_def list_flight_def Let_def split: sum.splits prod.splits)
  have "settleRun now stored r outcome s
      = resolve_deferred (chained u r) (u\<lparr>fetch_runs := (fetch_runs u)(r := None), chained := (chained u)(r := None)\<rparr>)"
    using assms by (simp add: settleRun_def t_def u_def Let_def)
  moreover have "list_flight (resolve_deferred (chained u r) (u\<lparr>fetch_runs := (fetch_runs u)(r := None), chained := (chained u)(r := None)\<rparr>))
      = sf_drop r (list_flight u)"
    by (auto simp: list_flight_def resolve_deferred_def sf_drop_def sf_resolve_def fun_eq_iff split: option.splits)
  moreover have "list_flight u = (if sf_slot (list_flight s) = Some r then sf_leave (fr_workspace run) (list_flight s) else list_flight s)"
    using t by (simp add: u_def finish_flight) (simp add: list_flight_def)
  ultimately show ?thesis by (simp add: sf_end_def)
qed

text \<open>Every step is a step of the slot or leaves it alone, so the contract of the slot holds of the list.\<close>

lemma list_step_flight: "list_step s s' \<Longrightarrow> flight_step (list_flight s) (list_flight s') \<or> list_flight s' = list_flight s"
proof (induction rule: list_step.induct)
  case (Fetch s w)
  show ?case by (rule fetch_step)
next
  case (Revalidate s w)
  show ?case by (rule revalidate_step)
next
  case (Settle s r now stored outcome)
  then obtain run where run: "fetch_runs s r = Some run" by blast
  have "sf_runs (list_flight s) r \<noteq> None" by (simp add: list_flight_def run)
  then show ?case unfolding settle_flight [OF run] by (blast intro: flight_step.End)
next
  case (Switch s w changes)
  let ?s = "s\<lparr>workspace := w, debounce := False, cooldown := False\<rparr>"
  have "list_flight (switchWorkspace w changes s) = list_flight (fst (revalidate w ?s))" "list_flight ?s = list_flight s"
    by (simp_all add: switchWorkspace_def list_flight_def Let_def)
  then show ?case using revalidate_step [of ?s w] by simp
next
  case (Debounce s now)
  let ?s = "s\<lparr>debounce := False\<rparr>"
  have s: "list_flight ?s = list_flight s" by (simp add: list_flight_def)
  show ?case
  proof (cases "slot s")
    case None
    have "list_flight (debounceFires now s) = list_flight s
        \<or> list_flight (debounceFires now s) = list_flight (fst (fetchSessions (workspace s) ?s))"
      using None by (simp add: debounceFires_def list_flight_def Let_def)
    then show ?thesis using fetch_step [of ?s "workspace s"] s by auto
  next
    case (Some r)
    have "list_flight (debounceFires now s) = (list_flight s)\<lparr>sf_pending := True\<rparr>"
      using Some by (simp add: debounceFires_def list_flight_def Let_def)
    moreover have "sf_slot (list_flight s) \<noteq> None" using Some by (simp add: list_flight_def)
    ultimately show ?thesis using flight_step.Signal [of "list_flight s"] by simp
  qed
next
  case (Cooldown s)
  have "list_flight (s\<lparr>cooldown := False\<rparr>) = list_flight s" by (simp add: list_flight_def)
  then show ?case using fetch_step [of "s\<lparr>cooldown := False\<rparr>" "workspace s"] by (simp add: cooldownFires_def)
qed (simp_all add: list_flight_def changeSignal_def togglePin_def setWorkspaceColor_def setPanelFilter_def seedSession_def)

interpretation sessions: single_flight list_flight list_step initial_list
proof
  show "list_flight initial_list = empty_flight"
    by (simp add: list_flight_def initial_list_def empty_flight_def fun_eq_iff)
qed (rule list_step_flight)

section \<open>Callers that join\<close>

text \<open>C30. A caller that joins a request in flight is settled, and by newer data: in every continuation its
  promise has settled once no request is in flight, and the step that settles it either ends a run that
  started after the call, or gives the slot to another workspace.\<close>

theorem joiners_are_settled:
  assumes "rtranclp list_step initial_list s" and "snd (fetchSessions w s) = Deferred d"
    and "rtranclp list_step (fst (fetchSessions w s)) t"
  shows "(fetch_runs t = Map.empty \<longrightarrow> d \<in> resolved t)
    \<and> (\<forall>u. list_step t u \<and> d \<notin> resolved t \<and> d \<in> resolved u \<longrightarrow>
         (\<exists>r > d. fetch_runs t r \<noteq> None \<and> fetch_runs u r = None)
         \<or> (slot_workspace u \<noteq> None \<and> slot_workspace u \<noteq> slot_workspace t))"
proof -
  obtain v where w: "w = Some v" using assms(2) by (cases w) (simp_all add: fetch_none)
  note joiner = sessions.joiner_settles [OF assms(1) assms(2) [unfolded w fetch_flight(2)] fetch_flight(1) assms(3) [unfolded w]]
  show ?thesis using joiner by (simp add: list_flight_def comp_def fun_eq_iff)
qed

text \<open>One call is in flight, another joins; the first fails, the second answers.\<close>

definition joined_list :: session_list where
  "joined_list = fst (fetchSessions (Some ''w'') (switchWorkspace (Some ''w'') 0 initial_list))"

definition settled_list :: session_list where
  "settled_list = settleRun 7000 None 2 (Inr \<lparr>fe_sessions = None, fe_pinned = None, fe_color = None, fe_filter = None\<rparr>)
     (settleRun 5000 None 0 (Inl ''offline'') joined_list)"

lemma joiners_are_settled_witness: "1 \<in> resolved settled_list"
proof -
  note defs = joined_list_def fetchSessions_def switchWorkspace_def revalidate_def start_run_def settle_orphans_def
    join_next_def initial_list_def Let_def
  let ?s = "switchWorkspace (Some ''w'') 0 initial_list"
  have s: "rtranclp list_step initial_list ?s" by (rule r_into_rtranclp, rule Switch)
  have d: "snd (fetchSessions (Some ''w'') ?s) = Deferred 1" by (simp add: defs)
  have run: "fetch_runs joined_list 0 \<noteq> None" by (simp add: defs)
  have rearmed: "fetch_runs (settleRun 5000 None 0 (Inl ''offline'') joined_list) 2 \<noteq> None"
    by (simp add: defs settleRun_def finish_run_def resolve_deferred_def)
  have t: "rtranclp list_step joined_list settled_list"
    unfolding settled_list_def
    by (rule rtranclp.rtrancl_into_rtrancl, rule r_into_rtranclp, rule Settle [OF run], rule Settle [OF rearmed])
  have "fetch_runs settled_list = Map.empty"
    by (auto simp: settled_list_def defs settleRun_def finish_run_def resolve_deferred_def apply_fetched_def
        reuseUnchangedSessions_def split: prod.splits)
  then show ?thesis
    using joiners_are_settled [OF s d, folded joined_list_def, OF t] by blast
qed

section \<open>Unsaved pins\<close>

lemma finish_run_signal:
  "pendingSignal s \<Longrightarrow> finish_run now run s =
     s\<lparr>loading := False, lastFetchCompleted := now, pendingSignal := False, deferred := None,
       next_number := Suc (next_number s),
       fetch_runs := (fetch_runs s)(next_number s \<mapsto> \<lparr>fr_workspace = fr_workspace run,
         fr_pins = writesIn (pinWrites s) (fr_workspace run), fr_colors = writesIn (colorWrites s) (fr_workspace run)\<rparr>),
       slot := Some (next_number s), slot_workspace := Some (fr_workspace run),
       chained := (case deferred s of Some d \<Rightarrow> (chained s)(next_number s \<mapsto> d) | None \<Rightarrow> chained s)\<rparr>"
  by (auto simp: finish_run_def fetchSessions_def settle_orphans_def start_run_def Let_def split: option.splits)

lemma finish_run_idle:
  "\<not> pendingSignal s \<Longrightarrow> finish_run now run s =
     s\<lparr>loading := False, slot := None, slot_workspace := None, lastFetchCompleted := now\<rparr>"
  by (simp add: finish_run_def Let_def)

text \<open>Ending a run: it leaves the map and settles the promise chained to it.\<close>

definition end_run :: "nat \<Rightarrow> session_list \<Rightarrow> session_list" where
  "end_run r s = (let s' = s\<lparr>fetch_runs := (fetch_runs s)(r := None)\<rparr>
     in resolve_deferred (chained s' r) (s'\<lparr>chained := (chained s')(r := None)\<rparr>))"

lemma end_run_fields:
  "slot (end_run r s) = slot s" "slot_workspace (end_run r s) = slot_workspace s" "pendingSignal (end_run r s) = pendingSignal s"
  "deferred (end_run r s) = deferred s" "next_number (end_run r s) = next_number s"
  "fetch_runs (end_run r s) = (fetch_runs s)(r := None)" "chained (end_run r s) = (chained s)(r := None)"
  "resolved (end_run r s) = resolved s \<union> (case chained s r of Some d \<Rightarrow> {d} | None \<Rightarrow> {})"
  by (auto simp: end_run_def resolve_deferred_def Let_def split: option.splits)

text \<open>No run was sent after a save that has not landed yet.\<close>

definition sent_before :: "session_list \<Rightarrow> bool" where
  "sent_before s \<longleftrightarrow> (\<forall>r run. fetch_runs s r = Some run \<longrightarrow>
     settled_writes (fr_pins run) \<le> settled_writes (writesIn (pinWrites s) (fr_workspace run)))"

lemma sent_before_less:
  "sent_before s \<Longrightarrow> pinWrites t = pinWrites s \<Longrightarrow>
     (\<And>r run. fetch_runs t r = Some run \<Longrightarrow> fetch_runs s r = Some run \<or> fr_pins run = writesIn (pinWrites s) (fr_workspace run)) \<Longrightarrow>
     sent_before t"
  unfolding sent_before_def by (metis order_refl)

lemma fetch_pins: "pinWrites (fst (fetchSessions w s)) = pinWrites s"
  "fetch_runs (fst (fetchSessions w s)) r = Some run \<Longrightarrow>
     fetch_runs s r = Some run \<or> fr_pins run = writesIn (pinWrites s) (fr_workspace run)"
  by (auto simp: fetchSessions_def join_next_def settle_orphans_def resolve_deferred_def start_run_def Let_def
      split: option.splits if_splits)

lemma sent_before_fetch: "sent_before s \<Longrightarrow> sent_before (fst (fetchSessions w s))"
  by (rule sent_before_less [OF _ fetch_pins(1)]) (auto dest: fetch_pins(2))

lemma sent_before_same: "sent_before s \<Longrightarrow> pinWrites t = pinWrites s \<Longrightarrow> fetch_runs t = fetch_runs s \<Longrightarrow> sent_before t"
  by (simp add: sent_before_def)

lemma sent_before_revalidate: "sent_before s \<Longrightarrow> sent_before (fst (revalidate w s))"
  by (auto simp: revalidate_def sent_before_fetch split: option.splits)

lemma sent_before_settle:
  assumes "sent_before s"
  shows "sent_before (settleRun now stored r outcome s)"
proof (cases "fetch_runs s r")
  case (Some run)
  define t where "t = (if slot s \<noteq> Some r then s else case outcome of
      Inl msg \<Rightarrow> s\<lparr>fetch_error := Some msg\<rparr> | Inr res \<Rightarrow> apply_fetched now stored run res s)"
  define u where "u = (if slot t = Some r then finish_run now run t else t)"
  have t: "pinWrites t = pinWrites s" "fetch_runs t = fetch_runs s"
    by (simp_all add: t_def apply_fetched_def Let_def split: sum.splits prod.splits)
  have "sent_before t" using sent_before_same [OF assms t] .
  then have "sent_before u"
    by (auto simp: u_def finish_run_def Let_def sent_before_def fetchSessions_def settle_orphans_def start_run_def
        split: option.splits)
  moreover have "settleRun now stored r outcome s = end_run r u"
    using Some by (simp add: settleRun_def end_run_def t_def u_def Let_def)
  moreover have "pinWrites (end_run r u) = pinWrites u"
    by (simp add: end_run_def resolve_deferred_def Let_def split: option.splits)
  ultimately show ?thesis by (auto simp: sent_before_def end_run_fields)
qed (use assms in \<open>simp add: settleRun_def\<close>)

lemma settle_write_grows: "settled_writes (writesIn m v) \<le> settled_writes (writesIn (settle_write m w) v)"
  by (simp add: settle_write_def writesIn_def)

lemma sent_before_step: "list_step s s' \<Longrightarrow> sent_before s \<Longrightarrow> sent_before s'"
proof (induction rule: list_step.induct)
  case (Switch s w changes)
  have "sent_before (fst (revalidate w (s\<lparr>workspace := w, debounce := False, cooldown := False\<rparr>)))"
    by (rule sent_before_revalidate, rule sent_before_same [OF Switch]) simp_all
  then show ?case by (rule sent_before_same) (simp_all add: switchWorkspace_def Let_def)
next
  case (Debounce s now)
  have "sent_before (fst (fetchSessions (workspace s) (s\<lparr>debounce := False\<rparr>)))"
    by (rule sent_before_fetch, rule sent_before_same [OF Debounce(2)]) simp_all
  with Debounce(2) show ?case by (auto simp: debounceFires_def Let_def sent_before_def split: option.splits)
next
  case (Cooldown s)
  show ?case unfolding cooldownFires_def
    by (rule sent_before_fetch, rule sent_before_same [OF Cooldown(2)]) simp_all
next
  case (Toggle s w sid)
  then show ?case by (auto simp: sent_before_def togglePin_def start_write_def writesIn_def)
next
  case (PinSaved s w)
  then show ?case using settle_write_grows [of "pinWrites s"] unfolding sent_before_def
    by simp (meson order_trans)
qed (simp_all add: sent_before_fetch sent_before_revalidate sent_before_settle sent_before_same changeSignal_def
    setWorkspaceColor_def setPanelFilter_def seedSession_def)

lemma sent_before_reachable: "rtranclp list_step s t \<Longrightarrow> sent_before s \<Longrightarrow> sent_before t"
  by (induction rule: rtranclp_induct) (auto intro: sent_before_step)

lemma settle_pinned:
  assumes "fetch_runs s r = Some run"
  shows "pinned (settleRun now stored r outcome s) = pinned s
    \<or> readReflectsWrites (fr_pins run) (writesIn (pinWrites s) (fr_workspace run))"
proof -
  have finish: "pinned (finish_run now run t) = pinned t" for t
    by (cases "pendingSignal t") (simp_all add: finish_run_signal finish_run_idle)
  have ended: "pinned (end_run r t) = pinned t" for t
    by (simp add: end_run_def resolve_deferred_def Let_def split: option.splits)
  define t where "t = (if slot s \<noteq> Some r then s else case outcome of
      Inl msg \<Rightarrow> s\<lparr>fetch_error := Some msg\<rparr> | Inr res \<Rightarrow> apply_fetched now stored run res s)"
  have "settleRun now stored r outcome s = end_run r (if slot t = Some r then finish_run now run t else t)"
    using assms by (simp add: settleRun_def end_run_def t_def Let_def)
  then have "pinned (settleRun now stored r outcome s) = pinned t" by (simp add: ended finish)
  then show ?thesis by (auto simp: t_def apply_fetched_def Let_def split: sum.splits prod.splits)
qed

text \<open>C31. Whenever its request was sent, an answer never takes back a pin toggled in its workspace while
  the toggle is not yet saved.\<close>

theorem unsaved_pins_survive:
  assumes "rtranclp list_step initial_list s" and "fetch_runs s r = Some run"
    and "settled_writes (writesIn (pinWrites s) (fr_workspace run)) < started (writesIn (pinWrites s) (fr_workspace run))"
  shows "pinned (settleRun now stored r outcome s) = pinned s"
proof -
  have "sent_before initial_list" by (simp add: sent_before_def initial_list_def)
  with assms(1) have "sent_before s" by (rule sent_before_reachable)
  with assms(2,3) settle_pinned [OF assms(2)] show ?thesis
    by (fastforce simp: sent_before_def readReflectsWrites_def)
qed

definition pinned_list :: session_list where
  "pinned_list = togglePin ''w'' ''s1'' (switchWorkspace (Some ''w'') 0 initial_list)"

lemma unsaved_pins_survive_witness:
  "pinned (settleRun 5000 None 0 (Inr \<lparr>fe_sessions = None, fe_pinned = Some [], fe_color = None, fe_filter = None\<rparr>) pinned_list)
     = [''s1'']"
proof -
  note defs = pinned_list_def togglePin_def fetchSessions_def switchWorkspace_def revalidate_def start_run_def settle_orphans_def
    initial_list_def start_write_def writesIn_def Let_def
  have s: "rtranclp list_step initial_list pinned_list"
    unfolding pinned_list_def by (rule rtranclp.rtrancl_into_rtrancl, rule r_into_rtranclp, rule Switch, rule Toggle)
  have run: "fetch_runs pinned_list 0 = Some \<lparr>fr_workspace = ''w'', fr_pins = \<lparr>started = 0, settled_writes = 0\<rparr>,
      fr_colors = \<lparr>started = 0, settled_writes = 0\<rparr>\<rparr>"
    by (simp add: defs)
  have "pinned pinned_list = [''s1'']" by (simp add: defs)
  then show ?thesis by (subst unsaved_pins_survive [OF s run]) (simp_all add: defs)
qed

end
