(* ===== verification/UiState.thy ===== *)
theory UiState
  imports Prelude "HOL-Library.List_Lexorder" "HOL-Library.Char_ord"
begin

text \<open>
  The store of interface state that tabs patch (\<open>claudebox_daemon/domain/ui_state/service.py\<close>): a JSON
  object per workspace, changed by operations that name a value by its dotted path. A dict is the list
  of its entries in order; \<open>None\<close> is an operation that raises.
\<close>

type_synonym fields = "(string \<times> jval) list"

datatype ui_op =
    SetValue string jval
  | Unset string
  | AddItem string jval
  | RemoveItem string jval

fun op_path :: "ui_op \<Rightarrow> string" where
  "op_path (SetValue p _) = p"
| "op_path (Unset p) = p"
| "op_path (AddItem p _) = p"
| "op_path (RemoveItem p _) = p"

section \<open>Walking a path\<close>

text \<open>What \<open>_resolve_path\<close> finds under a key: a dict, or the empty one it puts there.\<close>

fun sub_dict :: "jval option \<Rightarrow> fields" where
  "sub_dict (Some (JObj fs)) = fs"
| "sub_dict _ = []"

fun at_path :: "string list \<Rightarrow> (string \<Rightarrow> fields \<Rightarrow> fields) \<Rightarrow> fields \<Rightarrow> fields" where
  "at_path [] f fs = fs"
| "at_path [k] f fs = f k fs"
| "at_path (k # k' # ks) f fs = AList.update k (JObj (at_path (k' # ks) f (sub_dict (map_of fs k)))) fs"

section \<open>Operations\<close>

fun items_at :: "jval option \<Rightarrow> jval list" where
  "items_at (Some (JArr vs)) = vs"
| "items_at _ = []"

fun change :: "ui_op \<Rightarrow> string \<Rightarrow> fields \<Rightarrow> fields" where
  "change (SetValue _ v) k fs = AList.update k v fs"
| "change (Unset _) k fs = AList.delete k fs"
| "change (AddItem _ v) k fs =
     (let vs = items_at (map_of fs k) in AList.update k (JArr (if v \<in> set vs then vs else vs @ [v])) fs)"
| "change (RemoveItem _ v) k fs =
     (case map_of fs k of Some (JArr vs) \<Rightarrow> AList.update k (JArr (remove1 v vs)) fs | _ \<Rightarrow> fs)"

definition apply_operation :: "fields option \<Rightarrow> ui_op \<Rightarrow> fields option" where
  "apply_operation state opn =
     (case state of
        None \<Rightarrow> None
      | Some fs \<Rightarrow>
          if op_path opn = [] then None
          else Some (at_path (split_char (CHR ''.'') (op_path opn)) (change opn) fs))"

definition apply_operations :: "string \<Rightarrow> fields \<Rightarrow> ui_op list \<Rightarrow> fields option" where
  "apply_operations now state operations =
     map_option (AList.update ''updated_at'' (JStr now)) (foldl apply_operation (Some state) operations)"

section \<open>The file\<close>

record ui_file =
  uf_global :: fields
  uf_sessions :: "(string \<times> fields) list"

definition updated_at :: "fields \<Rightarrow> string" where
  "updated_at fs = jstring (jget (JObj fs) ''updated_at'')"

text \<open>Python's \<open>max\<close>: the first of the greatest.\<close>

definition get_latest_session :: "(string \<times> fields) list \<Rightarrow> fields" where
  "get_latest_session ss =
     (case ss of
        [] \<Rightarrow> []
      | s # rest \<Rightarrow> snd (foldl (\<lambda>best x. if updated_at (snd best) < updated_at (snd x) then x else best) s rest))"

definition get_session :: "string option \<Rightarrow> ui_file \<Rightarrow> fields" where
  "get_session sid file =
     (if \<not> nonempty sid then get_latest_session (uf_sessions file)
      else case map_of (uf_sessions file) (the sid) of Some fs \<Rightarrow> fs | None \<Rightarrow> [])"

definition prune_old_sessions :: "string list \<Rightarrow> string \<Rightarrow> (string \<times> fields) list \<Rightarrow> (string \<times> fields) list" where
  "prune_old_sessions pinned cutoff ss =
     filter (\<lambda>(sid, fs). sid \<in> set pinned \<or> cutoff \<le> updated_at fs) ss"

definition pinned_in :: "fields \<Rightarrow> string list" where
  "pinned_in g = map jstring (items_at (map_of g ''pinnedSessions''))"

text \<open>\<open>patch\<close>: the new file with what the answer holds, or \<open>None\<close> and the file stays.\<close>

definition patch_ui_state ::
  "string \<Rightarrow> string \<Rightarrow> string option \<Rightarrow> ui_op list option \<Rightarrow> ui_op list option \<Rightarrow> ui_file \<Rightarrow> (ui_file \<times> fields \<times> fields) option" where
  "patch_ui_state now cutoff sid globals locals file =
     (if locals \<noteq> None \<and> \<not> nonempty sid then None
      else
        case (case globals of None \<Rightarrow> Some (uf_global file) | Some ops \<Rightarrow> apply_operations now (uf_global file) ops) of
          None \<Rightarrow> None
        | Some g \<Rightarrow>
            (case (case locals of None \<Rightarrow> Some (get_session sid file) | Some ops \<Rightarrow> apply_operations now (get_session sid file) ops) of
               None \<Rightarrow> None
             | Some l \<Rightarrow>
                 let ss = (if locals = None then uf_sessions file else AList.update (the sid) l (uf_sessions file))
                 in Some (\<lparr>uf_global = g, uf_sessions = prune_old_sessions (pinned_in g) cutoff ss\<rparr>, g, l)))"

section \<open>Reading back\<close>

text \<open>The value a path names.\<close>

fun value_at :: "string list \<Rightarrow> fields \<Rightarrow> jval option" where
  "value_at [] fs = Some (JObj fs)"
| "value_at [k] fs = map_of fs k"
| "value_at (k # k' # ks) fs = value_at (k' # ks) (sub_dict (map_of fs k))"

section \<open>Facts\<close>

text \<open>A change of one value changes no other one at the same depth.\<close>

lemma at_path_two:
  "map_of (at_path [a, k] f fs) b = (if b = a then Some (JObj (f k (sub_dict (map_of fs a)))) else map_of fs b)"
  by (simp add: update_conv')

lemma change_other: "j \<noteq> k \<Longrightarrow> map_of (change opn k fs) j = map_of fs j"
  by (cases opn) (auto simp: update_conv' delete_conv' Let_def split: option.splits jval.splits)

lemma split_two: "d \<notin> set a \<Longrightarrow> d \<notin> set b \<Longrightarrow> split_char d (a @ d # b) = [a, b]"
  by (simp add: split_char_append split_char_plain)

lemma apply_two:
  assumes "op_path opn = a @ CHR ''.'' # k" and "CHR ''.'' \<notin> set a" and "CHR ''.'' \<notin> set k"
  shows "apply_operation (Some fs) opn = Some (at_path [a, k] (change opn) fs)"
proof -
  have "split_char (CHR ''.'') (op_path opn) = [a, k]"
    unfolding assms(1) using assms(2,3) by (rule split_two)
  moreover have "op_path opn \<noteq> []" using assms(1) by simp
  ultimately show ?thesis by (simp add: apply_operation_def)
qed

end
