(* ===== verification/BookmarkStore.thy ===== *)
theory BookmarkStore
  imports Bookmarks UiState
begin

text \<open>
  The bookmarks of a workspace in a tab (\<open>hooks/useBookmarks.js\<close>): a toggle shows at once and is saved
  behind; reads of the store are numbered and only the latest applies. A read in flight is its number
  with the session the callback was made for; its answer is a step.
\<close>

section \<open>State\<close>

record bookmark_meta =
  bm_preview :: string
  bm_ts :: string

type_synonym turns = "(string \<times> string list) list"
type_synonym metas = "(string \<times> bookmark_meta) list"

record bookmarks =
  bk_session :: "string option"
  bk_workspace :: "string option"
  bk_ids :: "string list"
  bk_all :: turns
  bk_meta :: metas
  bk_loading :: bool
  bk_error :: "string option"
  bk_mounted :: bool
  bk_firstSettled :: bool
  bk_seq :: nat
  bk_reads :: "nat \<rightharpoonup> string option"
  bk_saves :: "ui_op list list"

definition initial_bookmarks :: bookmarks where
  "initial_bookmarks = \<lparr>bk_session = None, bk_workspace = None, bk_ids = [], bk_all = [], bk_meta = [],
     bk_loading = True, bk_error = None, bk_mounted = True, bk_firstSettled = False, bk_seq = 0,
     bk_reads = Map.empty, bk_saves = []\<rparr>"

text \<open>A \<open>Set\<close> keeps the first of equal values.\<close>

definition js_set :: "string list \<Rightarrow> string list" where
  "js_set xs = rev (remdups (rev xs))"

definition list_of :: "turns \<Rightarrow> string \<Rightarrow> string list" where
  "list_of m s = (case map_of m s of Some l \<Rightarrow> l | None \<Rightarrow> [])"

section \<open>Reading\<close>

definition fetchBookmarks :: "bookmarks \<Rightarrow> bookmarks" where
  "fetchBookmarks st =
     (if \<not> nonempty (bk_workspace st) then st
      else let n = Suc (bk_seq st) in st\<lparr>bk_seq := n, bk_reads := (bk_reads st)(n \<mapsto> bk_session st)\<rparr>)"

record global_state =
  gs_turns :: "turns option"
  gs_meta :: "metas option"

definition apply_read :: "string option \<Rightarrow> global_state \<Rightarrow> bookmarks \<Rightarrow> bookmarks" where
  "apply_read sid g st =
     (let turns = (case gs_turns g of Some m \<Rightarrow> m | None \<Rightarrow> [])
      in st\<lparr>bk_all := turns, bk_meta := (case gs_meta g of Some m \<Rightarrow> m | None \<Rightarrow> []),
            bk_ids := js_set (if nonempty sid then list_of turns (the sid) else []), bk_error := None\<rparr>)"

definition settleRead :: "nat \<Rightarrow> string option + global_state \<Rightarrow> bookmarks \<Rightarrow> bookmarks" where
  "settleRead n outcome st0 =
     (case bk_reads st0 n of
        None \<Rightarrow> st0
      | Some sid \<Rightarrow>
          let st1 = st0\<lparr>bk_reads := (bk_reads st0)(n := None)\<rparr>;
              st2 = (if bk_mounted st1 \<and> n = bk_seq st1
                     then (case outcome of
                             Inr g \<Rightarrow> apply_read sid g st1
                           | Inl msg \<Rightarrow> st1\<lparr>bk_error := Some (str_or msg ''Failed to load bookmarks'')\<rparr>)
                     else st1)
          in if bk_mounted st2 \<and> \<not> bk_firstSettled st2
             then st2\<lparr>bk_firstSettled := True, bk_loading := False\<rparr> else st2)"

text \<open>The effects: a change of session or workspace reads again, and so does another tab's signal.\<close>

definition showSession :: "string option \<Rightarrow> string option \<Rightarrow> bookmarks \<Rightarrow> bookmarks" where
  "showSession sid w st = fetchBookmarks (st\<lparr>bk_session := sid, bk_workspace := w\<rparr>)"

definition handleStorage :: "string \<Rightarrow> bookmarks \<Rightarrow> bookmarks" where
  "handleStorage key st = (if key = ''claudebox-bookmarks-changed'' then fetchBookmarks st else st)"

definition unmount :: "bookmarks \<Rightarrow> bookmarks" where
  "unmount st = st\<lparr>bk_mounted := False\<rparr>"

section \<open>Views\<close>

definition isBookmarked :: "bookmarks \<Rightarrow> string \<Rightarrow> string \<Rightarrow> bool" where
  "isBookmarked st turnId tail = (turnId @ '':'' @ tail \<in> set (bk_ids st))"

definition isTurnBookmarked :: "bookmarks \<Rightarrow> string \<Rightarrow> bool" where
  "isTurnBookmarked st turnId = (turnId \<in> set (map (\<lambda>i. pb_turnId (parseBookmarkId i)) (bk_ids st)))"

definition bookmarkedPartsOf :: "bookmarks \<Rightarrow> string \<Rightarrow> string list" where
  "bookmarkedPartsOf st turnId = js_set (map (messageType \<circ> parseBookmarkId)
     (filter (\<lambda>i. pb_turnId (parseBookmarkId i) = turnId \<and> target (parseBookmarkId i) \<noteq> None) (bk_ids st)))"

section \<open>Changing\<close>

definition bookmark_id :: "string \<Rightarrow> string \<Rightarrow> string" where
  "bookmark_id turnId tail = turnId @ '':'' @ tail"

definition meta_key :: "string \<Rightarrow> string \<Rightarrow> string" where
  "meta_key sid i = sid @ ''/'' @ i"

definition turns_path :: "string \<Rightarrow> string" where
  "turns_path sid = ''bookmarkedTurns'' @ ''.'' @ sid"

definition meta_path :: "string \<Rightarrow> string" where
  "meta_path k = ''bookmarkMeta'' @ ''.'' @ k"

definition meta_value :: "bookmark_meta \<Rightarrow> jval" where
  "meta_value m = JObj [(''preview'', JStr (bm_preview m)), (''ts'', JStr (bm_ts m))]"

definition drop_id :: "string \<Rightarrow> string \<Rightarrow> turns \<Rightarrow> turns" where
  "drop_id sid i m =
     (case map_of m sid of
        None \<Rightarrow> m
      | Some l \<Rightarrow> let l' = filter (\<lambda>x. x \<noteq> i) l in if l' = [] then AList.delete sid m else AList.update sid l' m)"

definition save_remove :: "string \<Rightarrow> string \<Rightarrow> ui_op list" where
  "save_remove sid i = [RemoveItem (turns_path sid) (JStr i), Unset (meta_path (meta_key sid i))]"

definition save_add :: "string \<Rightarrow> string \<Rightarrow> bookmark_meta \<Rightarrow> ui_op list" where
  "save_add sid i m = [AddItem (turns_path sid) (JStr i), SetValue (meta_path (meta_key sid i)) (meta_value m)]"

definition toggleBookmark :: "string \<Rightarrow> string \<Rightarrow> string \<Rightarrow> string \<Rightarrow> bookmarks \<Rightarrow> bookmarks" where
  "toggleBookmark turnId tail preview now st =
     (if \<not> (nonempty (bk_session st) \<and> turnId \<noteq> [] \<and> tail \<noteq> []) then st
      else
        let sid = the (bk_session st); i = bookmark_id turnId tail; k = meta_key sid i;
            st1 = st\<lparr>bk_seq := Suc (bk_seq st)\<rparr>
        in if i \<in> set (bk_ids st)
           then st1\<lparr>bk_saves := bk_saves st @ [save_remove sid i], bk_all := drop_id sid i (bk_all st),
                    bk_meta := AList.delete k (bk_meta st), bk_ids := filter (\<lambda>x. x \<noteq> i) (bk_ids st)\<rparr>
           else
             let m = \<lparr>bm_preview = take 80 preview, bm_ts = now\<rparr>
             in st1\<lparr>bk_saves := bk_saves st @ [save_add sid i m],
                    bk_all := AList.update sid (list_of (bk_all st) sid @ [i]) (bk_all st),
                    bk_meta := AList.update k m (bk_meta st), bk_ids := bk_ids st @ [i]\<rparr>)"

definition removeBookmark :: "string \<Rightarrow> string \<Rightarrow> string \<Rightarrow> bookmarks \<Rightarrow> bookmarks" where
  "removeBookmark sid turnId tail st =
     (if \<not> (sid \<noteq> [] \<and> turnId \<noteq> [] \<and> tail \<noteq> []) then st
      else
        let i = bookmark_id turnId tail;
            st1 = st\<lparr>bk_seq := Suc (bk_seq st), bk_saves := bk_saves st @ [save_remove sid i],
                     bk_all := drop_id sid i (bk_all st), bk_meta := AList.delete (meta_key sid i) (bk_meta st)\<rparr>
        in if bk_session st = Some sid then st1\<lparr>bk_ids := filter (\<lambda>x. x \<noteq> i) (bk_ids st)\<rparr> else st1)"

end
