(* ===== verification/BookmarkStoreFacts.thy ===== *)
theory BookmarkStoreFacts
  imports BookmarkStore
begin

text \<open>
  What a tab shows after any toggles is what the store holds once they are saved; a toggle during the
  first read loses the other bookmarks from view, and a read during a save takes the toggle back.
\<close>

section \<open>What the store holds\<close>

definition stored_turns :: "fields \<Rightarrow> fields" where
  "stored_turns g = sub_dict (map_of g ''bookmarkedTurns'')"

definition stored_meta :: "fields \<Rightarrow> fields" where
  "stored_meta g = sub_dict (map_of g ''bookmarkMeta'')"

definition meta_of :: "jval \<Rightarrow> bookmark_meta" where
  "meta_of v = \<lparr>bm_preview = jstring (jget v ''preview''), bm_ts = jstring (jget v ''ts'')\<rparr>"

text \<open>The answer a read of the store gives.\<close>

definition global_of :: "fields \<Rightarrow> global_state" where
  "global_of g = \<lparr>gs_turns = Some (map (\<lambda>(s, v). (s, map jstring (items_at (Some v)))) (stored_turns g)),
     gs_meta = Some (map (\<lambda>(k, v). (k, meta_of v)) (stored_meta g))\<rparr>"

text \<open>A store that only these operations wrote: lists of distinct ids, previews with their times.\<close>

definition well_stored :: "fields \<Rightarrow> bool" where
  "well_stored g \<longleftrightarrow>
     (\<forall>s v. map_of (stored_turns g) s = Some v \<longrightarrow> (\<exists>l. v = JArr (map JStr l) \<and> distinct l))
     \<and> (\<forall>k v. map_of (stored_meta g) k = Some v \<longrightarrow> (\<exists>m. v = meta_value m))"

text \<open>Two states show the same bookmarks.\<close>

definition shows_same :: "bookmarks \<Rightarrow> bookmarks \<Rightarrow> bool" where
  "shows_same a b \<longleftrightarrow> (\<forall>s. list_of (bk_all a) s = list_of (bk_all b) s)
     \<and> (\<forall>k. map_of (bk_meta a) k = map_of (bk_meta b) k) \<and> set (bk_ids a) = set (bk_ids b)"

definition up_to_date :: "fields \<Rightarrow> bookmarks \<Rightarrow> bool" where
  "up_to_date g st \<longleftrightarrow> well_stored g \<and> shows_same (apply_read (bk_session st) (global_of g) st) st"

section \<open>One save\<close>

lemma jstring_JStr [simp]: "jstring \<circ> JStr = id"
  by (simp add: fun_eq_iff)

lemma map_JStr_inj [simp]: "map JStr l = map JStr l' \<longleftrightarrow> l = l'"
  by (simp add: inj_map_eq_map inj_def)

lemma meta_of_value [simp]: "meta_of (meta_value m) = m"
  by (simp add: meta_of_def meta_value_def)

lemma set_js_set [simp]: "set (js_set xs) = set xs"
  by (simp add: js_set_def)

lemma read_list: "list_of (map (\<lambda>(s, v). (s, map jstring (items_at (Some v)))) fs) s = map jstring (items_at (map_of fs s))"
  by (simp add: list_of_def map_of_map split: option.splits)

lemma read_meta: "map_of (map (\<lambda>(k, v). (k, meta_of v)) fs) k = map_option meta_of (map_of fs k)"
  by (simp add: map_of_map)

text \<open>What the tab shows, in terms of the store.\<close>

lemma up_to_date_iff:
  "up_to_date g st \<longleftrightarrow> well_stored g
     \<and> (\<forall>s. items_at (map_of (stored_turns g) s) = map JStr (list_of (bk_all st) s) \<and> distinct (list_of (bk_all st) s))
     \<and> (\<forall>k. map_of (stored_meta g) k = map_option meta_value (map_of (bk_meta st) k))
     \<and> set (bk_ids st) = (if nonempty (bk_session st) then set (list_of (bk_all st) (the (bk_session st))) else {})"
  (is "_ \<longleftrightarrow> ?r")
proof -
  have l: "map jstring (items_at (map_of (stored_turns g) s)) = list_of (bk_all st) s \<longleftrightarrow>
      items_at (map_of (stored_turns g) s) = map JStr (list_of (bk_all st) s) \<and> distinct (list_of (bk_all st) s)"
    if "well_stored g" for s
  proof (cases "map_of (stored_turns g) s")
    case (Some v)
    with that obtain l where "v = JArr (map JStr l)" "distinct l" by (auto simp: well_stored_def)
    with Some show ?thesis by auto
  qed auto
  have m: "map_option meta_of (map_of (stored_meta g) k) = map_of (bk_meta st) k \<longleftrightarrow>
      map_of (stored_meta g) k = map_option meta_value (map_of (bk_meta st) k)" if "well_stored g" for k
  proof (cases "map_of (stored_meta g) k")
    case (Some v)
    with that obtain m where "v = meta_value m" unfolding well_stored_def by blast
    with Some show ?thesis
      by (cases "map_of (bk_meta st) k") (auto dest: arg_cong [of "meta_value _" "meta_value _" meta_of])
  qed auto
  show ?thesis
  proof (cases "well_stored g")
    case True
    show ?thesis
      unfolding up_to_date_def shows_same_def apply_read_def
      using l [OF True] m [OF True] by (simp add: global_of_def read_list read_meta True) (auto simp: image_image)
  qed (simp add: up_to_date_def)
qed

lemma save_effect:
  assumes "op_path o1 = turns_path sid" and "op_path o2 = meta_path k"
    and "CHR ''.'' \<notin> set sid" and "CHR ''.'' \<notin> set k"
  obtains g' where "apply_operations now g [o1, o2] = Some g'"
    and "stored_turns g' = change o1 sid (stored_turns g)" and "stored_meta g' = change o2 k (stored_meta g)"
proof -
  let ?g1 = "at_path [''bookmarkedTurns'', sid] (change o1) g"
  let ?g2 = "at_path [''bookmarkMeta'', k] (change o2) ?g1"
  have "apply_operation (Some g) o1 = Some ?g1"
    by (rule apply_two) (use assms in \<open>simp_all add: turns_path_def\<close>)
  moreover have "apply_operation (Some ?g1) o2 = Some ?g2"
    by (rule apply_two) (use assms in \<open>simp_all add: meta_path_def\<close>)
  ultimately have "apply_operations now g [o1, o2] = Some (AList.update ''updated_at'' (JStr now) ?g2)"
    by (simp only: apply_operations_def foldl.simps option.map)
  then show ?thesis
    by (rule that) (simp_all add: stored_turns_def stored_meta_def update_conv')
qed

lemma list_of_drop_id: "list_of (drop_id sid i m) s = (if s = sid then filter (\<lambda>x. x \<noteq> i) (list_of m sid) else list_of m s)"
  by (auto simp: drop_id_def list_of_def Let_def update_conv' delete_conv' split: option.splits)

lemma list_of_update: "list_of (AList.update sid l m) s = (if s = sid then l else list_of m s)"
  by (simp add: list_of_def update_conv')

text \<open>A removal and an addition, there and here.\<close>

lemma stored_remove:
  assumes "\<forall>s v. map_of T s = Some v \<longrightarrow> (\<exists>l. v = JArr (map JStr l) \<and> distinct l)"
    and "\<forall>s. items_at (map_of T s) = map JStr (list_of m s) \<and> distinct (list_of m s)"
  shows "(\<forall>s v. map_of (change (RemoveItem p (JStr i)) sid T) s = Some v \<longrightarrow> (\<exists>l. v = JArr (map JStr l) \<and> distinct l))
    \<and> (\<forall>s. items_at (map_of (change (RemoveItem p (JStr i)) sid T) s) = map JStr (list_of (drop_id sid i m) s)
          \<and> distinct (list_of (drop_id sid i m) s))"
proof -
  have rem: "remove1 (JStr i) (map JStr l) = map JStr (filter (\<lambda>x. x \<noteq> i) l)" if "distinct l" for l
    using that by (induction l) (auto intro!: filter_True [symmetric])
  show ?thesis
  proof (cases "map_of T sid")
    case None
    with assms(2) have "list_of m sid = []" by (metis items_at.simps(2) map_is_Nil_conv)
    with None assms show ?thesis by (auto simp: list_of_drop_id)
  next
    case (Some v)
    with assms(1) obtain l where l: "v = JArr (map JStr l)" "distinct l" by blast
    with Some assms(2) have "list_of m sid = l" by (metis items_at.simps(1) map_JStr_inj)
    with Some l assms show ?thesis by (auto simp: list_of_drop_id rem update_conv' split: if_splits)
  qed
qed

lemma stored_add:
  assumes "\<forall>s v. map_of T s = Some v \<longrightarrow> (\<exists>l. v = JArr (map JStr l) \<and> distinct l)"
    and "\<forall>s. items_at (map_of T s) = map JStr (list_of m s) \<and> distinct (list_of m s)"
    and "i \<notin> set (list_of m sid)"
  shows "(\<forall>s v. map_of (change (AddItem p (JStr i)) sid T) s = Some v \<longrightarrow> (\<exists>l. v = JArr (map JStr l) \<and> distinct l))
    \<and> (\<forall>s. items_at (map_of (change (AddItem p (JStr i)) sid T) s) = map JStr (list_of (AList.update sid (list_of m sid @ [i]) m) s)
          \<and> distinct (list_of (AList.update sid (list_of m sid @ [i]) m) s))"
proof -
  have "change (AddItem p (JStr i)) sid T = AList.update sid (JArr (map JStr (list_of m sid @ [i]))) T"
    using assms(2,3) by (auto simp: Let_def)
  with assms show ?thesis by (auto simp: list_of_update update_conv' split: if_splits intro: exI [of _ "list_of m sid @ [i]"])
qed

section \<open>Any number of saves\<close>

datatype bookmark_action =
    Toggle string string string string
  | Remove string string string

fun act :: "bookmarks \<Rightarrow> bookmark_action \<Rightarrow> bookmarks" where
  "act st (Toggle turnId tail preview now) = toggleBookmark turnId tail preview now st"
| "act st (Remove sid turnId tail) = removeBookmark sid turnId tail st"

text \<open>The store splits paths at dots.\<close>

definition undotted :: "string \<Rightarrow> bool" where
  "undotted s \<longleftrightarrow> CHR ''.'' \<notin> set s"

fun undotted_action :: "bookmark_action \<Rightarrow> bool" where
  "undotted_action (Toggle turnId tail preview now) = (undotted turnId \<and> undotted tail)"
| "undotted_action (Remove sid turnId tail) = (undotted sid \<and> undotted turnId \<and> undotted tail)"

text \<open>The saves reach the store in order; \<open>now\<close> is its clock.\<close>

definition apply_saves :: "string \<Rightarrow> fields \<Rightarrow> ui_op list list \<Rightarrow> fields option" where
  "apply_saves now g saves = foldl (\<lambda>s ops. Option.bind s (\<lambda>fs. apply_operations now fs ops)) (Some g) saves"

lemma apply_saves_append:
  "apply_saves now g (xs @ [ops]) = Option.bind (apply_saves now g xs) (\<lambda>fs. apply_operations now fs ops)"
  by (simp add: apply_saves_def)

text \<open>What a removal and an addition do to the tab.\<close>

definition forget :: "string \<Rightarrow> string \<Rightarrow> bookmarks \<Rightarrow> bookmarks" where
  "forget sid i st = st\<lparr>bk_seq := Suc (bk_seq st), bk_saves := bk_saves st @ [save_remove sid i],
     bk_all := drop_id sid i (bk_all st), bk_meta := AList.delete (meta_key sid i) (bk_meta st),
     bk_ids := (if bk_session st = Some sid then filter (\<lambda>x. x \<noteq> i) (bk_ids st) else bk_ids st)\<rparr>"

definition remember :: "string \<Rightarrow> string \<Rightarrow> bookmark_meta \<Rightarrow> bookmarks \<Rightarrow> bookmarks" where
  "remember sid i m st = st\<lparr>bk_seq := Suc (bk_seq st), bk_saves := bk_saves st @ [save_add sid i m],
     bk_all := AList.update sid (list_of (bk_all st) sid @ [i]) (bk_all st),
     bk_meta := AList.update (meta_key sid i) m (bk_meta st), bk_ids := bk_ids st @ [i]\<rparr>"

lemma act_cases:
  assumes "undotted_action a" and "\<forall>sid. bk_session st = Some sid \<longrightarrow> undotted sid"
  shows "act st a = st
    \<or> (\<exists>sid i. undotted sid \<and> undotted i \<and> sid \<noteq> [] \<and> act st a = forget sid i st)
    \<or> (\<exists>sid i m. undotted sid \<and> undotted i \<and> sid \<noteq> [] \<and> bk_session st = Some sid \<and> i \<notin> set (bk_ids st)
         \<and> act st a = remember sid i m st)"
proof (cases a)
  case (Toggle turnId tail preview now)
  show ?thesis
  proof (cases "nonempty (bk_session st) \<and> turnId \<noteq> [] \<and> tail \<noteq> []")
    case True
    then obtain sid where sid: "bk_session st = Some sid" "sid \<noteq> []" by (auto simp: nonempty_iff)
    let ?i = "bookmark_id turnId tail"
    have "undotted sid" "undotted ?i" using assms Toggle sid by (auto simp: undotted_def bookmark_id_def)
    moreover have "act st a = (if ?i \<in> set (bk_ids st) then forget sid ?i st
        else remember sid ?i \<lparr>bm_preview = take 80 preview, bm_ts = now\<rparr> st)"
      using Toggle True sid by (simp add: toggleBookmark_def forget_def remember_def Let_def)
    ultimately show ?thesis using sid by (cases "?i \<in> set (bk_ids st)") (simp_all, blast+)
  qed (use Toggle in \<open>simp add: toggleBookmark_def\<close>)
next
  case (Remove sid turnId tail)
  show ?thesis
  proof (cases "sid \<noteq> [] \<and> turnId \<noteq> [] \<and> tail \<noteq> []")
    case True
    have "undotted sid" "undotted (bookmark_id turnId tail)"
      using assms Remove by (auto simp: undotted_def bookmark_id_def)
    moreover have "act st a = forget sid (bookmark_id turnId tail) st"
      using Remove True by (simp add: removeBookmark_def forget_def Let_def)
    ultimately show ?thesis using True by blast
  qed (use Remove in \<open>simp add: removeBookmark_def\<close>)
qed

text \<open>A removal keeps the tab and the store in step, and so does an addition.\<close>

lemma in_step_remove:
  assumes "up_to_date g st" and "undotted sid" and "undotted i" and "sid \<noteq> []"
  obtains g' where "apply_operations now g (save_remove sid i) = Some g'" and "up_to_date g' (forget sid i st)"
proof -
  let ?st = "forget sid i st"
  obtain g' where g': "apply_operations now g (save_remove sid i) = Some g'"
    "stored_turns g' = change (RemoveItem (turns_path sid) (JStr i)) sid (stored_turns g)"
    "stored_meta g' = change (Unset (meta_path (meta_key sid i))) (meta_key sid i) (stored_meta g)"
    unfolding save_remove_def using assms(2,3)
    by (rule_tac save_effect [of "RemoveItem (turns_path sid) (JStr i)" sid "Unset (meta_path (meta_key sid i))" "meta_key sid i" now g])
       (auto simp: undotted_def meta_key_def)
  have st: "well_stored g"
    "\<forall>s. items_at (map_of (stored_turns g) s) = map JStr (list_of (bk_all st) s) \<and> distinct (list_of (bk_all st) s)"
    "\<And>k. map_of (stored_meta g) k = map_option meta_value (map_of (bk_meta st) k)"
    "set (bk_ids st) = (if nonempty (bk_session st) then set (list_of (bk_all st) (the (bk_session st))) else {})"
    using assms(1) unfolding up_to_date_iff by blast+
  have turns: "\<forall>s v. map_of (stored_turns g) s = Some v \<longrightarrow> (\<exists>l. v = JArr (map JStr l) \<and> distinct l)"
    using st(1) unfolding well_stored_def by blast
  note rem = stored_remove [OF turns st(2), of "turns_path sid" i sid, folded g'(2)]
  have meta: "map_of (stored_meta g') k = map_option meta_value (map_of (bk_meta ?st) k)" for k
    by (simp add: g'(3) forget_def delete_conv' st(3))
  have "well_stored g'"
    unfolding well_stored_def using rem by (auto simp: meta)
  moreover have "set (bk_ids ?st) = (if nonempty (bk_session ?st) then set (list_of (bk_all ?st) (the (bk_session ?st))) else {})"
    using st(4) assms(4) by (auto simp: forget_def list_of_drop_id nonempty_iff split: if_splits)
  ultimately have "up_to_date g' ?st"
    unfolding up_to_date_iff using rem meta by (simp add: forget_def)
  with g'(1) that show ?thesis by blast
qed

lemma in_step_add:
  assumes "up_to_date g st" and "undotted sid" and "undotted i" and "bk_session st = Some sid" and "sid \<noteq> []"
    and "i \<notin> set (bk_ids st)"
  obtains g' where "apply_operations now g (save_add sid i m) = Some g'" and "up_to_date g' (remember sid i m st)"
proof -
  let ?st = "remember sid i m st"
  obtain g' where g': "apply_operations now g (save_add sid i m) = Some g'"
    "stored_turns g' = change (AddItem (turns_path sid) (JStr i)) sid (stored_turns g)"
    "stored_meta g' = change (SetValue (meta_path (meta_key sid i)) (meta_value m)) (meta_key sid i) (stored_meta g)"
    unfolding save_add_def using assms(2,3)
    by (rule_tac save_effect [of "AddItem (turns_path sid) (JStr i)" sid
          "SetValue (meta_path (meta_key sid i)) (meta_value m)" "meta_key sid i" now g])
       (auto simp: undotted_def meta_key_def)
  have st: "well_stored g"
    "\<forall>s. items_at (map_of (stored_turns g) s) = map JStr (list_of (bk_all st) s) \<and> distinct (list_of (bk_all st) s)"
    "\<And>k. map_of (stored_meta g) k = map_option meta_value (map_of (bk_meta st) k)"
    "set (bk_ids st) = set (list_of (bk_all st) sid)"
    using assms(1,4,5) unfolding up_to_date_iff by (auto simp: nonempty_iff)
  have turns: "\<forall>s v. map_of (stored_turns g) s = Some v \<longrightarrow> (\<exists>l. v = JArr (map JStr l) \<and> distinct l)"
    using st(1) unfolding well_stored_def by blast
  have fresh: "i \<notin> set (list_of (bk_all st) sid)" using assms(6) st(4) by simp
  note added = stored_add [OF turns st(2) fresh, of "turns_path sid", folded g'(2)]
  have meta: "map_of (stored_meta g') k = map_option meta_value (map_of (bk_meta ?st) k)" for k
    by (simp add: g'(3) remember_def update_conv' st(3))
  have "well_stored g'"
    unfolding well_stored_def using added by (auto simp: meta)
  then have "up_to_date g' ?st"
    unfolding up_to_date_iff using added meta assms(4,5) st(4) by (simp add: remember_def list_of_update)
  with g'(1) that show ?thesis by blast
qed

lemma in_step:
  assumes "up_to_date g st" and "undotted_action a" and "\<forall>sid. bk_session st = Some sid \<longrightarrow> undotted sid"
  shows "act st a = st \<or> (\<exists>ops g'. bk_saves (act st a) = bk_saves st @ [ops]
    \<and> apply_operations now g ops = Some g' \<and> up_to_date g' (act st a))"
  using act_cases [OF assms(2,3)]
proof (elim disjE exE conjE)
  fix sid i
  assume "undotted sid" "undotted i" "sid \<noteq> []" and eq: "act st a = forget sid i st"
  with in_step_remove [OF assms(1)] obtain g' where
    "apply_operations now g (save_remove sid i) = Some g'" "up_to_date g' (forget sid i st)" by metis
  then show ?thesis unfolding eq by (auto simp: forget_def)
next
  fix sid i m
  assume "undotted sid" "undotted i" "sid \<noteq> []" "bk_session st = Some sid" "i \<notin> set (bk_ids st)"
    and eq: "act st a = remember sid i m st"
  with in_step_add [OF assms(1)] obtain g' where
    "apply_operations now g (save_add sid i m) = Some g'" "up_to_date g' (remember sid i m st)" by metis
  then show ?thesis unfolding eq by (auto simp: remember_def)
qed blast

text \<open>C33. What a tab shows optimistically is what its saves write: after any toggles and removals, in any
  sessions, the saves applied in order to the store the tab had read succeed, and reading the store then
  shows the lists, previews and marks the tab already shows.\<close>

theorem bookmarks_shown_are_bookmarks_saved:
  assumes "up_to_date g st" and "\<forall>a \<in> set actions. undotted_action a"
    and "\<forall>sid. bk_session st = Some sid \<longrightarrow> undotted sid" and "bk_saves st = []"
  shows "\<exists>g'. apply_saves now g (bk_saves (foldl act st actions)) = Some g'
    \<and> shows_same (apply_read (bk_session st) (global_of g') (foldl act st actions)) (foldl act st actions)"
proof -
  have "\<exists>g'. apply_saves now g (bk_saves (foldl act st actions)) = Some g' \<and> up_to_date g' (foldl act st actions)
      \<and> bk_session (foldl act st actions) = bk_session st"
    using assms(2)
  proof (induction actions rule: rev_induct)
    case Nil
    with assms show ?case by (simp add: apply_saves_def)
  next
    case (snoc a as)
    let ?t = "foldl act st as"
    from snoc obtain g' where g': "apply_saves now g (bk_saves ?t) = Some g'" "up_to_date g' ?t"
      "bk_session ?t = bk_session st" by auto
    have "bk_session (act ?t a) = bk_session st"
      using g'(3) by (cases a) (simp_all add: toggleBookmark_def removeBookmark_def Let_def)
    moreover from snoc.prems g' assms(3) in_step [OF g'(2), of a now] consider "act ?t a = ?t"
      | ops g'' where "bk_saves (act ?t a) = bk_saves ?t @ [ops]" "apply_operations now g' ops = Some g''"
          "up_to_date g'' (act ?t a)" by auto
    then have "\<exists>g'. apply_saves now g (bk_saves (act ?t a)) = Some g' \<and> up_to_date g' (act ?t a)"
      using g' by cases (auto simp: apply_saves_append)
    ultimately show ?case by auto
  qed
  then show ?thesis by (auto simp: up_to_date_def)
qed

lemma bookmarks_shown_are_bookmarks_saved_witness:
  "map_option (\<lambda>g'. list_of (bk_all (apply_read (Some ''s'') (global_of g')
       (foldl act (initial_bookmarks\<lparr>bk_session := Some ''s''\<rparr>)
         [Toggle ''t1'' ''user'' ''hi'' ''now'', Toggle ''t2'' ''assistant'' ''yo'' ''now'', Remove ''s'' ''t1'' ''user'']))) ''s'')
     (apply_saves ''now'' [] (bk_saves
       (foldl act (initial_bookmarks\<lparr>bk_session := Some ''s''\<rparr>)
         [Toggle ''t1'' ''user'' ''hi'' ''now'', Toggle ''t2'' ''assistant'' ''yo'' ''now'', Remove ''s'' ''t1'' ''user''])))
   = Some [''t2:assistant'']"
proof -
  let ?st = "initial_bookmarks\<lparr>bk_session := Some ''s''\<rparr>"
  let ?as = "[Toggle ''t1'' ''user'' ''hi'' ''now'', Toggle ''t2'' ''assistant'' ''yo'' ''now'', Remove ''s'' ''t1'' ''user'']"
  have "up_to_date [] ?st"
    by (simp add: up_to_date_iff well_stored_def stored_turns_def stored_meta_def initial_bookmarks_def list_of_def)
  moreover have "list_of (bk_all (foldl act ?st ?as)) ''s'' = [''t2:assistant'']" by code_simp
  ultimately show ?thesis
    using bookmarks_shown_are_bookmarks_saved [of "[]" ?st ?as "''now''"]
    by (auto simp: undotted_def initial_bookmarks_def shows_same_def)
qed

section \<open>Reads that cross a change\<close>

lemma toggle_adds:
  assumes "bk_session st = Some sid" and "sid \<noteq> []" and "turnId \<noteq> []" and "tail \<noteq> []"
    and "bookmark_id turnId tail \<notin> set (bk_ids st)"
  shows "toggleBookmark turnId tail preview now st =
    remember sid (bookmark_id turnId tail) \<lparr>bm_preview = take 80 preview, bm_ts = now\<rparr> st"
  using assms by (simp add: toggleBookmark_def remember_def Let_def)

text \<open>C34. A bookmark set while the first read of a session is in flight hides all others: the answer is not
  applied, whatever it holds, nothing reads again, and the panel, no longer loading, shows the new one only.\<close>

theorem bookmark_during_load_hides_the_rest:
  assumes "sid \<noteq> []" and "w \<noteq> []" and "turnId \<noteq> []" and "tail \<noteq> []"
    and "st = settleRead 1 (Inr g) (toggleBookmark turnId tail preview now (showSession (Some sid) (Some w) initial_bookmarks))"
  shows "bk_all st = [(sid, [bookmark_id turnId tail])] \<and> bk_ids st = [bookmark_id turnId tail]
    \<and> \<not> bk_loading st \<and> bk_reads st = Map.empty"
proof -
  let ?s = "showSession (Some sid) (Some w) initial_bookmarks"
  have s: "?s = initial_bookmarks\<lparr>bk_session := Some sid, bk_workspace := Some w, bk_seq := 1,
      bk_reads := Map.empty(1 \<mapsto> Some sid)\<rparr>"
    using assms(2) by (simp add: showSession_def fetchBookmarks_def initial_bookmarks_def)
  have t: "toggleBookmark turnId tail preview now ?s =
      remember sid (bookmark_id turnId tail) \<lparr>bm_preview = take 80 preview, bm_ts = now\<rparr> ?s"
    by (rule toggle_adds) (use assms(1,3,4) s in \<open>simp_all add: initial_bookmarks_def\<close>)
  show ?thesis
    unfolding assms(5) t unfolding s by (simp add: settleRead_def remember_def initial_bookmarks_def list_of_def Let_def)
qed

lemma bookmark_during_load_hides_the_rest_witness:
  "bk_all (settleRead 1 (Inr \<lparr>gs_turns = Some [(''s'', [''t0:user''])], gs_meta = None\<rparr>)
     (toggleBookmark ''t1'' ''user'' ''hi'' ''now'' (showSession (Some ''s'') (Some ''w'') initial_bookmarks)))
   = [(''s'', [''t1:user''])]"
  using bookmark_during_load_hides_the_rest
    [of "''s''" "''w''" "''t1''" "''user''", OF _ _ _ _ refl, where preview = "''hi''" and now = "''now''"
      and g = "\<lparr>gs_turns = Some [(''s'', [''t0:user''])], gs_meta = None\<rparr>"]
  by (simp add: bookmark_id_def)

text \<open>A read that starts after a toggle and reaches the store before its save takes the toggle back, and no
  later read is under way.\<close>

lemma read_during_save_takes_back:
  assumes "up_to_date g st" and "bk_session st = Some sid" and "sid \<noteq> []" and "turnId \<noteq> []" and "tail \<noteq> []"
    and "bookmark_id turnId tail \<notin> set (bk_ids st)" and "bk_mounted st" and "nonempty (bk_workspace st)"
    and "st' = fetchBookmarks (toggleBookmark turnId tail preview now st)"
  shows "\<not> isBookmarked (settleRead (bk_seq st') (Inr (global_of g)) st') turnId tail"
proof -
  let ?t = "remember sid (bookmark_id turnId tail) \<lparr>bm_preview = take 80 preview, bm_ts = now\<rparr> st"
  have t: "toggleBookmark turnId tail preview now st = ?t"
    by (rule toggle_adds) (use assms in simp_all)
  have ids: "bk_ids (settleRead (bk_seq st') (Inr (global_of g)) st') = bk_ids (apply_read (Some sid) (global_of g) st)"
    unfolding assms(9) t using assms(2,7,8)
    by (simp add: settleRead_def fetchBookmarks_def remember_def apply_read_def Let_def)
  have "set (bk_ids (apply_read (Some sid) (global_of g) st)) = set (bk_ids st)"
    using assms(1,2) by (simp add: up_to_date_def shows_same_def)
  with ids assms(6) show ?thesis by (simp add: isBookmarked_def bookmark_id_def)
qed

end
