(* ===== verification/BoardStore.thy ===== *)
theory BoardStore
  imports Prelude
begin

text \<open>
  The board file a ticket board lives in (\<open>claudebox/extensions/tickets/parser.py\<close>): states in order, the
  tickets of each, swimlanes. Moving a ticket's file is the environment's: \<open>relocate p a b\<close> is the new
  path of the file \<open>p\<close> when its ticket goes from state \<open>a\<close> to state \<open>b\<close>, or why that is refused.
\<close>

section \<open>Data\<close>

record ticket =
  tk_path :: string
  tk_lane :: "string option"
  tk_session :: "string option"

record board_state =
  bs_id :: string
  bs_terminal :: bool
  bs_active :: bool

record board =
  bd_states :: "board_state list"
  bd_lanes :: "string list"
  bd_columns :: "(string \<times> ticket list) list"

definition column_keys :: "board \<Rightarrow> string list" where
  "column_keys b = map bs_id (bd_states b)"

definition column_of :: "board \<Rightarrow> string \<Rightarrow> ticket list" where
  "column_of b k = (case map_of (bd_columns b) k of Some ts \<Rightarrow> ts | None \<Rightarrow> [])"

definition set_column :: "string \<Rightarrow> ticket list \<Rightarrow> board \<Rightarrow> board" where
  "set_column k ts b = b\<lparr>bd_columns := AList.update k ts (bd_columns b)\<rparr>"

datatype board_error = TicketNotFound | TicketMoveRefused string | StateNotFound | SwimlaneNotFound

section \<open>Moving\<close>

definition is_ticket :: "string \<Rightarrow> ticket \<Rightarrow> bool" where
  "is_ticket p t \<longleftrightarrow> tk_path t = p"

definition has_ticket :: "string \<Rightarrow> ticket list \<Rightarrow> bool" where
  "has_ticket p ts \<longleftrightarrow> list_ex (is_ticket p) ts"

text \<open>The first state, in order, that lists the ticket.\<close>

definition source_of :: "string \<Rightarrow> board \<Rightarrow> string option" where
  "source_of p b = find (\<lambda>k. has_ticket p (column_of b k)) (column_keys b)"

text \<open>\<open>items.pop(i)\<close> at the first entry of the ticket.\<close>

fun drop_ticket :: "string \<Rightarrow> ticket list \<Rightarrow> ticket list" where
  "drop_ticket p [] = []"
| "drop_ticket p (t # ts) = (if is_ticket p t then ts else t # drop_ticket p ts)"

definition insert_at :: "nat \<Rightarrow> 'a \<Rightarrow> 'a list \<Rightarrow> 'a list" where
  "insert_at n x xs = take n xs @ x # drop n xs"

text \<open>\<open>index\<close> clamped to the list; without one the entry goes to the end.\<close>

definition place :: "int option \<Rightarrow> ticket \<Rightarrow> ticket list \<Rightarrow> ticket list" where
  "place index t ts =
     (case index of None \<Rightarrow> ts @ [t] | Some i \<Rightarrow> insert_at (nat (max 0 (min i (int (length ts))))) t ts)"

definition move_ticket ::
  "(string \<Rightarrow> string \<Rightarrow> string \<Rightarrow> string + string) \<Rightarrow> string \<Rightarrow> string option \<Rightarrow> string option \<Rightarrow> int option \<Rightarrow> board
     \<Rightarrow> board_error + (board \<times> ticket)" where
  "move_ticket relocate p column lane index b =
     (case source_of p b of
        None \<Rightarrow> Inl TicketNotFound
      | Some source \<Rightarrow>
          let found = (case find (is_ticket p) (column_of b source) of Some t \<Rightarrow> t | None \<Rightarrow> \<lparr>tk_path = p, tk_lane = None, tk_session = None\<rparr>);
              b1 = set_column source (drop_ticket p (column_of b source)) b;
              target = (if nonempty column then the column else source);
              entry = (if lane = None then found else found\<lparr>tk_lane := lane\<rparr>)
          in case (if target \<noteq> source then relocate p source target else Inr p) of
               Inl reason \<Rightarrow> Inl (TicketMoveRefused reason)
             | Inr path \<Rightarrow>
                 let moved = entry\<lparr>tk_path := path\<rparr>
                 in Inr (set_column target (place index moved (column_of b1 target)) b1, moved))"

definition archive_ticket :: "string \<Rightarrow> board \<Rightarrow> board_error + board" where
  "archive_ticket p b =
     (case source_of p b of
        None \<Rightarrow> Inl TicketNotFound
      | Some k \<Rightarrow> Inr (set_column k (drop_ticket p (column_of b k)) b))"

fun assign_first :: "string \<Rightarrow> string \<Rightarrow> ticket list \<Rightarrow> ticket list" where
  "assign_first p sid [] = []"
| "assign_first p sid (t # ts) = (if is_ticket p t then t\<lparr>tk_session := Some sid\<rparr> # ts else t # assign_first p sid ts)"

definition assign_ticket :: "string \<Rightarrow> string \<Rightarrow> board \<Rightarrow> board_error + board" where
  "assign_ticket p sid b =
     (case source_of p b of
        None \<Rightarrow> Inl TicketNotFound
      | Some k \<Rightarrow> Inr (set_column k (assign_first p sid (column_of b k)) b))"

section \<open>States and swimlanes\<close>

text \<open>A dict by id keeps the last entry of an id; a key it does not hold is skipped.\<close>

definition reorder_by :: "('a \<Rightarrow> string) \<Rightarrow> string list \<Rightarrow> 'a list \<Rightarrow> 'a list" where
  "reorder_by ident keys xs = List.map_filter (\<lambda>k. find (\<lambda>x. ident x = k) (rev xs)) keys"

definition reorder_states :: "string list \<Rightarrow> board \<Rightarrow> board" where
  "reorder_states keys b = b\<lparr>bd_states := reorder_by bs_id keys (bd_states b)\<rparr>"

definition reorder_swimlanes :: "string list \<Rightarrow> board \<Rightarrow> board" where
  "reorder_swimlanes ids b = b\<lparr>bd_lanes := reorder_by id ids (bd_lanes b)\<rparr>"

definition unsort :: "string \<Rightarrow> ticket \<Rightarrow> ticket" where
  "unsort lane t = (if tk_lane t = Some lane then t\<lparr>tk_lane := None\<rparr> else t)"

definition delete_swimlane :: "string \<Rightarrow> board \<Rightarrow> board_error + board" where
  "delete_swimlane lane b =
     (if lane \<notin> set (bd_lanes b) then Inl SwimlaneNotFound
      else Inr (foldl (\<lambda>c k. set_column k (map (unsort lane) (column_of c k)) c)
             (b\<lparr>bd_lanes := remove1 lane (bd_lanes b)\<rparr>)
             (filter (\<lambda>k. column_of b k \<noteq> []) (column_keys b))))"

end
