(* ===== verification/BoardDrag.thy ===== *)
theory BoardDrag
  imports BoardStore
begin

text \<open>
  Dragging on a board (\<open>features/boards\<close>: \<open>BoardTab.jsx\<close>, \<open>components/SwimlaneBand.jsx\<close>, \<open>utils/dropIndex.js\<close>,
  \<open>utils/planTicketMove.js\<close>, \<open>utils/laneTickets.js\<close>). The board a tab shows is the last one it fetched; each
  request of a drag goes to the board file as it is then.
\<close>

section \<open>Cells\<close>

definition UNSORTED :: string where
  "UNSORTED = ''__unsorted__''"

text \<open>\<open>t.swimlane || '__unsorted__'\<close>.\<close>

definition lane_of :: "ticket \<Rightarrow> string" where
  "lane_of t = (if nonempty (tk_lane t) then the (tk_lane t) else UNSORTED)"

text \<open>What a cell shows, and what a band counts.\<close>

definition in_lane :: "string list \<Rightarrow> string \<Rightarrow> ticket \<Rightarrow> bool" where
  "in_lane lanes lane t \<longleftrightarrow>
     (if lane = UNSORTED then \<not> (nonempty (tk_lane t) \<and> the (tk_lane t) \<in> set lanes) else tk_lane t = Some lane)"

definition cell :: "board \<Rightarrow> string \<Rightarrow> string \<Rightarrow> ticket list" where
  "cell b col lane = filter (in_lane (bd_lanes b) lane) (column_of b col)"

definition getLaneTickets :: "(string \<times> ticket list) list \<Rightarrow> string \<Rightarrow> bool \<Rightarrow> string list option \<Rightarrow> ticket list" where
  "getLaneTickets allTickets laneId isUnsorted swimlaneIds =
     concat (map (\<lambda>(_, ts). filter (\<lambda>t.
       if isUnsorted then \<not> (nonempty (tk_lane t) \<and> (case swimlaneIds of Some ids \<Rightarrow> the (tk_lane t) \<in> set ids | None \<Rightarrow> False))
       else tk_lane t = Some laneId) ts) allTickets)"

text \<open>A ticket with its column; the last column that lists a path wins.\<close>

definition ticketsByPath :: "board \<Rightarrow> string \<Rightarrow> (ticket \<times> string) option" where
  "ticketsByPath b p =
     map_of (rev (concat (map (\<lambda>(col, ts). map (\<lambda>t. (tk_path t, (t, col))) ts) (bd_columns b)))) p"

section \<open>Where a drop lands\<close>

fun slot_index :: "string \<Rightarrow> nat \<Rightarrow> ticket list \<Rightarrow> nat option" where
  "slot_index lane n [] = None"
| "slot_index lane n (t # ts) =
     (if lane_of t = lane then (if n = 0 then Some 0 else map_option Suc (slot_index lane (n - 1) ts))
      else map_option Suc (slot_index lane n ts))"

definition computeFlatDropIndex :: "ticket list \<Rightarrow> string \<Rightarrow> string \<Rightarrow> nat option" where
  "computeFlatDropIndex ts lane over =
     (case find_index (is_ticket over) (filter (\<lambda>t. lane_of t = lane) ts) of
        None \<Rightarrow> None
      | Some visual \<Rightarrow> Some (case slot_index lane visual ts of Some i \<Rightarrow> i | None \<Rightarrow> length ts))"

definition isSelfDrop :: "string \<Rightarrow> string \<Rightarrow> bool" where
  "isSelfDrop source over \<longleftrightarrow> source = over"

text \<open>The lane a drop asks for: \<open>null\<close> keeps each ticket's, \<open>undefined\<close> is none at all.\<close>

datatype lane_target = Keep | Undefined | Lane string

text \<open>The ids of headers, columns and cells; only the first two parts of a cell's id are read.\<close>

definition area_target :: "string \<Rightarrow> string \<times> lane_target \<times> nat option" where
  "area_target over =
     (if starts_with ''col-header:'' over then (drop 11 over, Keep, None)
      else if starts_with ''col:'' over then (drop 4 over, Keep, None)
      else case split_on ''::'' over of
             Some (a, r) \<Rightarrow> (a, Lane (case split_on ''::'' r of Some (l, _) \<Rightarrow> l | None \<Rightarrow> r), None)
           | None \<Rightarrow> (over, Undefined, None))"

definition drop_target :: "board \<Rightarrow> string \<Rightarrow> string \<Rightarrow> string \<times> lane_target \<times> nat option" where
  "drop_target b active over =
     (case ticketsByPath b over of
        Some (t, col) \<Rightarrow>
          if \<not> isSelfDrop active over then (col, Lane (lane_of t), computeFlatDropIndex (column_of b col) (lane_of t) over)
          else area_target over
      | None \<Rightarrow> area_target over)"

record move_body =
  mb_column :: "string option"
  mb_lane :: "string option"
  mb_index :: "nat option"

fun lane_changes :: "lane_target \<Rightarrow> string \<Rightarrow> bool" where
  "lane_changes Keep own = False"
| "lane_changes Undefined own = True"
| "lane_changes (Lane l) own = (l \<noteq> own)"

fun lane_sent :: "lane_target \<Rightarrow> string option" where
  "lane_sent (Lane l) = (if l \<noteq> UNSORTED then Some l else None)"
| "lane_sent _ = None"

definition planTicketMove ::
  "ticket \<times> string \<Rightarrow> string \<Rightarrow> lane_target \<Rightarrow> bool \<Rightarrow> nat option \<Rightarrow> (move_body \<times> bool) option" where
  "planTicketMove ticket targetCol targetSwimlane isCrossLaneMove nextIndex =
     (let colChanged = targetCol \<noteq> snd ticket;
          ticketLane = lane_of (fst ticket);
          laneShouldChange = lane_changes targetSwimlane ticketLane \<and> \<not> isCrossLaneMove;
          indexApplies = nextIndex \<noteq> None \<and> (laneShouldChange \<or> Lane ticketLane = targetSwimlane)
      in if \<not> (colChanged \<or> laneShouldChange \<or> indexApplies) then None
         else Some (\<lparr>mb_column = (if colChanged then Some targetCol else None),
                     mb_lane = (if laneShouldChange then lane_sent targetSwimlane else None),
                     mb_index = (if indexApplies then nextIndex else None)\<rparr>, indexApplies))"

section \<open>Dropping tickets\<close>

text \<open>One step of the loop; a rejected request ends it. The state is the file, the next index, the paths moved.\<close>

type_synonym drag_state = "board \<times> nat option \<times> string list"

definition drag_step ::
  "(string \<Rightarrow> string \<Rightarrow> string \<Rightarrow> string + string) \<Rightarrow> board \<Rightarrow> string \<Rightarrow> lane_target \<Rightarrow> bool
     \<Rightarrow> drag_state \<times> board_error option \<Rightarrow> string \<Rightarrow> drag_state \<times> board_error option" where
  "drag_step relocate shown col lane cross acc p =
     (case (acc, ticketsByPath shown p) of
        (((file, next, moved), None), Some ticket) \<Rightarrow>
          (case planTicketMove ticket col lane cross next of
             None \<Rightarrow> ((file, next, moved @ [p]), None)
           | Some (body, advance) \<Rightarrow>
               (case move_ticket relocate p (mb_column body) (mb_lane body) (map_option int (mb_index body)) file of
                  Inl e \<Rightarrow> ((file, next, moved), Some e)
                | Inr (file', t) \<Rightarrow>
                    ((file', if advance then map_option Suc next else next, moved @ [tk_path t]), None)))
      | _ \<Rightarrow> acc)"

text \<open>The session request a drop makes: the paths and whether each gets its own session.\<close>

record drop_result =
  dr_file :: board
  dr_assign :: "(string list \<times> bool) option"
  dr_error :: "board_error option"

definition tickets_to_move :: "board \<Rightarrow> string list \<Rightarrow> string \<Rightarrow> string list" where
  "tickets_to_move shown selected active =
     (if active \<in> set selected then filter (\<lambda>p. ticketsByPath shown p \<noteq> None) selected else [active])"

definition active_columns :: "board \<Rightarrow> string list" where
  "active_columns b = map bs_id (filter bs_active (bd_states b))"

text \<open>\<open>handleDragEnd\<close> for a ticket; \<open>selected\<close> lists the selection in the order it was made.\<close>

definition dropTickets ::
  "(string \<Rightarrow> string \<Rightarrow> string \<Rightarrow> string + string) \<Rightarrow> board \<Rightarrow> string list \<Rightarrow> string \<Rightarrow> string \<Rightarrow> board \<Rightarrow> drop_result" where
  "dropTickets relocate shown selected active over file =
     (case ticketsByPath shown active of
        None \<Rightarrow> \<lparr>dr_file = file, dr_assign = None, dr_error = None\<rparr>
      | Some _ \<Rightarrow>
          let (col, lane, dropIndex) = drop_target shown active over;
              paths = tickets_to_move shown selected active;
              lanes = remdups (map (\<lambda>p. case ticketsByPath shown p of Some (t, _) \<Rightarrow> lane_of t | None \<Rightarrow> UNSORTED) paths);
              ((file', _, moved), err) =
                foldl (drag_step relocate shown col lane (length lanes > 1)) ((file, dropIndex, []), None) paths;
              unowned = (case ticketsByPath shown (hd paths) of Some (t, _) \<Rightarrow> \<not> nonempty (tk_session t) | None \<Rightarrow> True);
              request = (if err \<noteq> None \<or> col \<notin> set (active_columns shown) \<or> moved = [] then None
                         else if length moved = 1 then (if unowned then Some (moved, True) else None)
                         else Some (moved, False))
          in \<lparr>dr_file = file', dr_assign = request, dr_error = err\<rparr>)"

section \<open>Reordering headers\<close>

text \<open>\<open>indexOf\<close> and \<open>splice\<close> with what they do at \<open>-1\<close>: the last element, or before it.\<close>

definition splice_out :: "nat option \<Rightarrow> 'a list \<Rightarrow> 'a list" where
  "splice_out i xs = (case i of Some n \<Rightarrow> take n xs @ drop (Suc n) xs | None \<Rightarrow> butlast xs)"

definition splice_in :: "nat option \<Rightarrow> 'a \<Rightarrow> 'a list \<Rightarrow> 'a list" where
  "splice_in i x xs = insert_at (case i of Some n \<Rightarrow> n | None \<Rightarrow> length xs - 1) x xs"

definition header_order :: "string list \<Rightarrow> string \<Rightarrow> string \<Rightarrow> string list option" where
  "header_order keys from_key to_key =
     (if from_key = to_key then None
      else Some (splice_in (find_index (\<lambda>k. k = to_key) keys) from_key (splice_out (find_index (\<lambda>k. k = from_key) keys) keys)))"

definition dropColumnHeader :: "board \<Rightarrow> string \<Rightarrow> string \<Rightarrow> board \<Rightarrow> board" where
  "dropColumnHeader shown from_key to_key file =
     (case header_order (column_keys shown) from_key to_key of None \<Rightarrow> file | Some ks \<Rightarrow> reorder_states ks file)"

definition dropLaneHeader :: "board \<Rightarrow> string \<Rightarrow> string \<Rightarrow> board \<Rightarrow> board" where
  "dropLaneHeader shown from_key to_key file =
     (case header_order (bd_lanes shown) from_key to_key of None \<Rightarrow> file | Some ks \<Rightarrow> reorder_swimlanes ks file)"

text \<open>\<open>handleDragEnd\<close>: by what is dragged and what it is over.\<close>

definition handleDragEnd ::
  "(string \<Rightarrow> string \<Rightarrow> string \<Rightarrow> string + string) \<Rightarrow> board \<Rightarrow> string list \<Rightarrow> string \<Rightarrow> string option \<Rightarrow> board \<Rightarrow> drop_result" where
  "handleDragEnd relocate shown selected active over file =
     (let quiet = (\<lambda>f. \<lparr>dr_file = f, dr_assign = None, dr_error = None\<rparr>)
      in case over of
           None \<Rightarrow> quiet file
         | Some o' \<Rightarrow>
             if starts_with ''col-header:'' active \<and> starts_with ''col-header:'' o'
             then quiet (dropColumnHeader shown (drop 11 active) (drop 11 o') file)
             else if starts_with ''lane-header:'' active \<and> starts_with ''lane-header:'' o'
             then quiet (dropLaneHeader shown (drop 12 active) (drop 12 o') file)
             else dropTickets relocate shown selected active o' file)"

definition handleMoveColumn :: "board \<Rightarrow> string \<Rightarrow> bool \<Rightarrow> board \<Rightarrow> board" where
  "handleMoveColumn shown col left file =
     (case find_index (\<lambda>k. k = col) (column_keys shown) of
        None \<Rightarrow> file
      | Some i \<Rightarrow>
          if (left \<and> i = 0) \<or> (\<not> left \<and> Suc i \<ge> length (column_keys shown)) then file
          else reorder_states (insert_at (if left then i - 1 else Suc i) col (splice_out (Some i) (column_keys shown))) file)"

definition moveLane :: "board \<Rightarrow> string \<Rightarrow> bool \<Rightarrow> board \<Rightarrow> board" where
  "moveLane shown lane up file =
     (case find_index (\<lambda>k. k = lane) (bd_lanes shown) of
        None \<Rightarrow> file
      | Some i \<Rightarrow>
          if (up \<and> i = 0) \<or> (\<not> up \<and> Suc i \<ge> length (bd_lanes shown)) then file
          else let j = (if up then i - 1 else Suc i)
               in reorder_swimlanes ((bd_lanes shown)[i := bd_lanes shown ! j, j := bd_lanes shown ! i]) file)"

section \<open>Archiving and selecting\<close>

text \<open>One request after the other; the first that fails ends it.\<close>

definition archive_all :: "string list \<Rightarrow> board \<Rightarrow> board" where
  "archive_all paths file =
     fst (foldl (\<lambda>(f, failed) p. if failed then (f, failed)
                   else case archive_ticket p f of Inl _ \<Rightarrow> (f, True) | Inr f' \<Rightarrow> (f', False)) (file, False) paths)"

definition handleBulkArchiveColumn :: "board \<Rightarrow> string \<Rightarrow> board \<Rightarrow> board" where
  "handleBulkArchiveColumn shown col file = archive_all (map tk_path (column_of shown col)) file"

definition handleBulkArchiveCell :: "ticket list \<Rightarrow> board \<Rightarrow> board" where
  "handleBulkArchiveCell tickets file = archive_all (map tk_path tickets) file"

definition handleBulkArchive :: "board \<Rightarrow> string \<Rightarrow> board \<Rightarrow> board" where
  "handleBulkArchive shown lane file = archive_all (map tk_path (getLaneTickets (bd_columns shown) lane False (Some (bd_lanes shown)))) file"

definition toggle_member :: "'a \<Rightarrow> 'a list \<Rightarrow> 'a list" where
  "toggle_member x xs = (if x \<in> set xs then filter (\<lambda>y. y \<noteq> x) xs else xs @ [x])"

definition handleToggleColumn :: "string \<Rightarrow> string list \<Rightarrow> string list" where
  "handleToggleColumn col collapsed = toggle_member col collapsed"

text \<open>The event's modifier, or none for the checkbox.\<close>

definition handleToggleSelect :: "string \<Rightarrow> bool option \<Rightarrow> string list \<Rightarrow> string list" where
  "handleToggleSelect path modifier selected =
     toggle_member path (if modifier = None \<or> modifier = Some True then selected else [])"

definition initially_collapsed :: "board \<Rightarrow> string list" where
  "initially_collapsed b = map bs_id (filter bs_terminal (bd_states b))"

end
