(* ===== verification/BoardFacts.thy ===== *)
theory BoardFacts
  imports BoardDrag "HOL-Library.Sublist" "HOL-Library.Multiset"
begin

text \<open>
  Drops lose, duplicate and reorder nothing they do not move; a ticket dropped on a neighbour takes its
  slot; several dropped further down land apart, and none leaves its lane for the unsorted one.
\<close>

section \<open>Well-formed boards\<close>

definition all_tickets :: "board \<Rightarrow> ticket list" where
  "all_tickets b = concat (map (column_of b) (column_keys b))"

text \<open>Each state once, and in the columns each path once.\<close>

definition board_ok :: "board \<Rightarrow> bool" where
  "board_ok b \<longleftrightarrow> distinct (column_keys b) \<and> map fst (bd_columns b) = column_keys b
     \<and> distinct (map tk_path (all_tickets b))"

lemma column_keys_set_column [simp]: "column_keys (set_column k ts b) = column_keys b"
  by (simp add: set_column_def column_keys_def)

lemma bd_set_column [simp]: "bd_states (set_column k ts b) = bd_states b" "bd_lanes (set_column k ts b) = bd_lanes b"
  by (simp_all add: set_column_def)

lemma column_of_set_column [simp]: "column_of (set_column k ts b) j = (if j = k then ts else column_of b j)"
  by (simp add: set_column_def column_of_def update_conv')

lemma drop_ticket_split:
  "has_ticket p ts \<Longrightarrow> \<exists>xs t ys. ts = xs @ t # ys \<and> tk_path t = p \<and> find (is_ticket p) ts = Some t \<and> drop_ticket p ts = xs @ ys
     \<and> (\<forall>x \<in> set xs. tk_path x \<noteq> p)"
proof (induction ts)
  case (Cons a ts)
  show ?case
  proof (cases "is_ticket p a")
    case True
    then show ?thesis by (intro exI [of _ "[]"]) (simp add: is_ticket_def)
  next
    case False
    with Cons obtain xs t ys where "ts = xs @ t # ys \<and> tk_path t = p \<and> find (is_ticket p) ts = Some t
        \<and> drop_ticket p ts = xs @ ys \<and> (\<forall>x \<in> set xs. tk_path x \<noteq> p)" by (auto simp: has_ticket_def)
    moreover from False have "tk_path a \<noteq> p" by (simp add: is_ticket_def)
    ultimately show ?thesis using False
      by (intro exI [of _ "a # xs"] exI [of _ t] exI [of _ ys]) auto
  qed
qed (simp add: has_ticket_def)

lemma place_split: "\<exists>us vs. ts = us @ vs \<and> place index t ts = us @ t # vs"
  unfolding place_def insert_at_def
  by (cases index) (auto, metis append_take_drop_id)

lemma source_of_Some: "source_of p b = Some k \<Longrightarrow> k \<in> set (column_keys b) \<and> has_ticket p (column_of b k)"
  unfolding source_of_def by (drule find_SomeD) simp

section \<open>One move\<close>

text \<open>Where the entry was taken out and where it went in.\<close>

lemma move_ticket_split:
  assumes "move_ticket relocate p column lane index b = Inr (b', t')"
  obtains k j xs t ys us vs where "k \<in> set (column_keys b)" and "column_of b k = xs @ t # ys" and "tk_path t = p"
    and "j = (if nonempty column then the column else k)"
    and "us @ vs = (if j = k then xs @ ys else column_of b j)"
    and "\<And>i. column_of b' i = (if i = j then us @ t' # vs else if i = k then xs @ ys else column_of b i)"
    and "tk_session t' = tk_session t" and "tk_lane t' = (if lane = None then tk_lane t else lane)"
    and "bd_states b' = bd_states b" and "\<forall>x \<in> set xs. tk_path x \<noteq> p"
    and "(if j = k then Inr p else relocate p k j) = Inr (tk_path t')"
proof -
  obtain k where k: "source_of p b = Some k" using assms by (cases "source_of p b") (auto simp: move_ticket_def)
  obtain xs t ys where t: "column_of b k = xs @ t # ys" "tk_path t = p" "find (is_ticket p) (column_of b k) = Some t"
    "drop_ticket p (column_of b k) = xs @ ys" "\<forall>x \<in> set xs. tk_path x \<noteq> p"
    using drop_ticket_split source_of_Some [OF k] by meson
  let ?j = "if nonempty column then the column else k"
  let ?e = "if lane = None then t else t\<lparr>tk_lane := lane\<rparr>"
  obtain path where path: "(if ?j \<noteq> k then relocate p k ?j else Inr p) = Inr path"
    using assms k by (auto simp: move_ticket_def Let_def split: sum.splits)
  let ?b1 = "set_column k (xs @ ys) b"
  obtain us vs where uv: "column_of ?b1 ?j = us @ vs" "place index (?e\<lparr>tk_path := path\<rparr>) (column_of ?b1 ?j) = us @ (?e\<lparr>tk_path := path\<rparr>) # vs"
    using place_split by meson
  have b': "b' = set_column ?j (us @ (?e\<lparr>tk_path := path\<rparr>) # vs) ?b1" "t' = ?e\<lparr>tk_path := path\<rparr>"
    using assms k path uv(2) by (auto simp: move_ticket_def Let_def t(1) t(3,4) [unfolded t(1)])
  show ?thesis
  proof (rule that [of k xs t ys ?j us vs])
    show "column_of b' i = (if i = ?j then us @ t' # vs else if i = k then xs @ ys else column_of b i)" for i
      by (simp add: b')
    show "us @ vs = (if ?j = k then xs @ ys else column_of b ?j)" using uv(1) by simp
    show "(if ?j = k then Inr p else relocate p k ?j) = Inr (tk_path t')" using path by (simp add: b' split: if_splits)
  qed (use source_of_Some [OF k] t b' in auto)
qed

section \<open>What a drop keeps\<close>

text \<open>How often each owner, or each lane, occurs on the board.\<close>

definition census :: "(ticket \<Rightarrow> 'a) \<Rightarrow> board \<Rightarrow> 'a multiset" where
  "census f b = mset (map f (all_tickets b))"

lemma census_sum: "distinct (column_keys b) \<Longrightarrow> census f b = (\<Sum>k\<in>set (column_keys b). mset (map f (column_of b k)))"
proof -
  have "mset (map f (concat (map g ks))) = (\<Sum>k\<in>set ks. mset (map f (g k)))" if "distinct ks" for g ks
    using that by (induction ks) auto
  then show "distinct (column_keys b) \<Longrightarrow> ?thesis" by (simp add: census_def all_tickets_def)
qed

text \<open>The tickets of a set of paths aside, every column is part of the later one, in order.\<close>

definition others_stay :: "string set \<Rightarrow> board \<Rightarrow> board \<Rightarrow> bool" where
  "others_stay ps b b' \<longleftrightarrow> (\<forall>k. subseq (filter (\<lambda>t. tk_path t \<notin> ps) (column_of b k)) (column_of b' k))"

lemma others_stay_refl: "others_stay ps b b"
  by (simp add: others_stay_def)

lemma others_stay_trans: "others_stay ps a b \<Longrightarrow> others_stay qs b c \<Longrightarrow> others_stay (ps \<union> qs) a c"
proof -
  assume ab: "others_stay ps a b" and bc: "others_stay qs b c"
  have "subseq (filter (\<lambda>t. tk_path t \<notin> ps \<union> qs) (column_of a k)) (column_of c k)" for k
  proof -
    have "filter (\<lambda>t. tk_path t \<notin> ps \<union> qs) (column_of a k)
        = filter (\<lambda>t. tk_path t \<notin> qs) (filter (\<lambda>t. tk_path t \<notin> ps) (column_of a k))"
      by (auto simp: intro: filter_cong)
    also have "subseq \<dots> (filter (\<lambda>t. tk_path t \<notin> qs) (column_of b k))"
      by (rule subseq_filter) (use ab in \<open>simp add: others_stay_def\<close>)
    also have "subseq (filter (\<lambda>t. tk_path t \<notin> qs) (column_of b k)) (column_of c k)"
      using bc by (simp add: others_stay_def)
    finally show ?thesis .
  qed
  then show ?thesis by (simp add: others_stay_def)
qed

lemma others_stay_mono: "others_stay ps a b \<Longrightarrow> ps \<subseteq> qs \<Longrightarrow> others_stay qs a b"
  using others_stay_trans [of ps a b qs b] by (simp add: others_stay_refl Un_absorb1)

lemma sum_change:
  assumes "finite K" and "k \<in> K" and "j \<in> K"
    and "A + (if j = k then 0 else B) = f k + (if j = k then 0 else f j)"
  shows "(\<Sum>i\<in>K. if i = j then A else if i = k then B else f i) = (\<Sum>i\<in>K. f i :: 'a :: cancel_comm_monoid_add)"
proof (cases "j = k")
  case True
  with assms show ?thesis by (simp add: sum.remove [of K k] cong: sum.cong_simp)
next
  case False
  let ?g = "\<lambda>i. if i = j then A else if i = k then B else f i"
  have "sum ?g K = ?g j + (?g k + sum ?g (K - {j} - {k}))"
    using assms(1-3) False by (simp add: sum.remove [of K j] sum.remove [of "K - {j}" k])
  also have "sum ?g (K - {j} - {k}) = sum f (K - {j} - {k})" by (rule sum.cong) auto
  also have "?g j + (?g k + sum f (K - {j} - {k})) = f j + (f k + sum f (K - {j} - {k}))"
    using assms(4) False by (simp add: ac_simps) (metis add.assoc add.commute)
  also have "\<dots> = sum f K" using assms(1-3) False by (simp add: sum.remove [of K j] sum.remove [of "K - {j}" k])
  finally show ?thesis .
qed

text \<open>Where a move may leave a ticket's file.\<close>

definition moved_file :: "(string \<Rightarrow> string \<Rightarrow> string \<Rightarrow> string + string) \<Rightarrow> string \<Rightarrow> string \<Rightarrow> bool" where
  "moved_file relocate p q \<longleftrightarrow> q = p \<or> (\<exists>a b. relocate p a b = Inr q)"

lemma move_keeps:
  assumes "move_ticket relocate p column lane index b = Inr (b', t')" and "distinct (column_keys b)"
    and "nonempty column \<Longrightarrow> the column \<in> set (column_keys b)"
    and "\<And>t t'. tk_session t' = tk_session t \<Longrightarrow> tk_lane t' = (if lane = None then tk_lane t else lane) \<Longrightarrow>
      moved_file relocate (tk_path t) (tk_path t') \<Longrightarrow> f t' = f t"
  shows "column_keys b' = column_keys b" and "census f b' = census f b" and "others_stay {p} b b'"
proof -
  from assms(1) obtain k j xs t ys us vs where m: "k \<in> set (column_keys b)" "column_of b k = xs @ t # ys" "tk_path t = p"
    "j = (if nonempty column then the column else k)" "us @ vs = (if j = k then xs @ ys else column_of b j)"
    "\<And>i. column_of b' i = (if i = j then us @ t' # vs else if i = k then xs @ ys else column_of b i)"
    "tk_session t' = tk_session t" "bd_states b' = bd_states b" "tk_lane t' = (if lane = None then tk_lane t else lane)"
    "(if j = k then Inr p else relocate p k j) = Inr (tk_path t')"
    by (rule move_ticket_split) blast
  have "moved_file relocate (tk_path t) (tk_path t')"
    using m(3,10) by (auto simp: moved_file_def split: if_splits)
  with m(7,9) have same: "f t' = f t" by (rule assms(4))
  show keys: "column_keys b' = column_keys b" by (simp add: column_keys_def m(8))
  have j: "j \<in> set (column_keys b)" using m(1,4) assms(3) by (simp split: if_splits)
  let ?s = "\<lambda>ts. mset (map f ts)"
  have uv: "?s us + ?s vs = (if j = k then ?s xs + ?s ys else ?s (column_of b j))"
    using arg_cong [OF m(5), of ?s] by (simp split: if_splits)
  have col: "?s (column_of b' i) = (if i = j then ?s (us @ t' # vs) else if i = k then ?s (xs @ ys) else ?s (column_of b i))" for i
    by (simp add: m(6))
  have "(\<Sum>i\<in>set (column_keys b). ?s (column_of b' i)) = (\<Sum>i\<in>set (column_keys b). ?s (column_of b i))"
    unfolding col by (rule sum_change [OF _ m(1) j]) (use uv m(2) same in \<open>auto simp: ac_simps split: if_splits\<close>)
  then show "census f b' = census f b" using census_sum [of b f] census_sum [of b' f] assms(2) keys by simp
  show "others_stay {p} b b'"
    unfolding others_stay_def
  proof
    fix i
    let ?f = "filter (\<lambda>t. tk_path t \<noteq> p)"
    have "subseq (us @ vs) (us @ t' # vs)" by (induction us) auto
    moreover have "subseq (?f (column_of b i)) (if i = j then us @ vs else column_of b' i)"
      using m(2,3,5) by (auto simp: m(6) list_emb_append_mono)
    ultimately show "subseq (filter (\<lambda>t. tk_path t \<notin> {p}) (column_of b i)) (column_of b' i)"
      by (auto simp: m(6) split: if_splits intro: subseq_order.trans)
  qed
qed

lemma plan_column: "planTicketMove t col lane cross n = Some (body, a) \<Longrightarrow> nonempty (mb_column body) \<Longrightarrow> the (mb_column body) = col"
  by (auto simp: planTicketMove_def Let_def split: if_splits)

text \<open>A count that no request of the drag changes.\<close>

definition unaffected ::
  "(string \<Rightarrow> string \<Rightarrow> string \<Rightarrow> string + string) \<Rightarrow> (ticket \<Rightarrow> 'a) \<Rightarrow> lane_target \<Rightarrow> bool" where
  "unaffected relocate f lane \<longleftrightarrow> (\<forall>t t'. tk_session t' = tk_session t \<longrightarrow>
     (tk_lane t' = tk_lane t \<or> lane_sent lane \<noteq> None \<and> tk_lane t' = lane_sent lane) \<longrightarrow>
     moved_file relocate (tk_path t) (tk_path t') \<longrightarrow> f t' = f t)"

lemma plan_lane: "planTicketMove t col lane cross n = Some (body, a) \<Longrightarrow> mb_lane body = None \<or> mb_lane body = lane_sent lane"
  by (auto simp: planTicketMove_def Let_def split: if_splits)

lemma drag_step_keeps:
  assumes "drag_step relocate shown col lane cross ((file, n, moved), err) p = ((file', n', moved'), err')"
    and "distinct (column_keys file)" and "col \<in> set (column_keys file)" and "unaffected relocate f lane"
  shows "column_keys file' = column_keys file \<and> census f file' = census f file \<and> others_stay {p} file file'"
proof -
  consider "file' = file"
    | body a t' where "planTicketMove (the (ticketsByPath shown p)) col lane cross n = Some (body, a)"
        "move_ticket relocate p (mb_column body) (mb_lane body) (map_option int (mb_index body)) file = Inr (file', t')"
    using assms(1) by (auto simp: drag_step_def split: option.splits prod.splits sum.splits)
  then show ?thesis
  proof cases
    case 2
    have "f t' = f t" if "tk_session t' = tk_session t" "tk_lane t' = (if mb_lane body = None then tk_lane t else mb_lane body)"
      "moved_file relocate (tk_path t) (tk_path t')" for t t'
      using assms(4) that plan_lane [OF 2(1)] unfolding unaffected_def by (metis)
    then show ?thesis using move_keeps [OF 2(2) assms(2), of f] plan_column [OF 2(1)] assms(3) by auto
  qed (simp add: others_stay_refl)
qed

lemma drag_keeps:
  "foldl (drag_step relocate shown col lane cross) acc ps = acc' \<Longrightarrow> distinct (column_keys (fst (fst acc))) \<Longrightarrow>
     col \<in> set (column_keys (fst (fst acc))) \<Longrightarrow> unaffected relocate f lane \<Longrightarrow>
     column_keys (fst (fst acc')) = column_keys (fst (fst acc)) \<and> census f (fst (fst acc')) = census f (fst (fst acc))
     \<and> others_stay (set ps) (fst (fst acc)) (fst (fst acc'))"
proof (induction ps arbitrary: acc)
  case Nil
  then show ?case by (auto simp: others_stay_refl)
next
  case (Cons p ps)
  obtain b n m e where acc: "acc = ((b, n, m), e)" by (metis surj_pair)
  obtain b1 n1 m1 e1 where s: "drag_step relocate shown col lane cross acc p = ((b1, n1, m1), e1)"
    by (metis surj_pair)
  have one: "column_keys b1 = column_keys b" "census f b1 = census f b" "others_stay {p} b b1"
    using drag_step_keeps [OF s [unfolded acc] _ _ Cons.prems(4)] Cons.prems(2,3) acc by auto
  have "column_keys (fst (fst acc')) = column_keys b1 \<and> census f (fst (fst acc')) = census f b1
      \<and> others_stay (set ps) b1 (fst (fst acc'))"
    using Cons.IH [of "((b1, n1, m1), e1)"] Cons.prems s one acc by simp
  with one others_stay_trans [of "{p}" b b1 "set ps" "fst (fst acc')"] show ?case by (auto simp: acc)
qed

lemma drop_keeps:
  assumes "distinct (column_keys file)" and "drop_target shown active over = (col, lane, idx)"
    and "col \<in> set (column_keys file)" and "unaffected relocate f lane"
    and "file' = dr_file (dropTickets relocate shown selected active over file)"
  shows "column_keys file' = column_keys file \<and> census f file' = census f file
    \<and> others_stay (set (tickets_to_move shown selected active)) file file'"
proof (cases "ticketsByPath shown active")
  case None
  then show ?thesis by (simp add: assms(5) dropTickets_def others_stay_refl)
next
  case (Some tc)
  let ?ps = "tickets_to_move shown selected active"
  let ?lanes = "remdups (map (\<lambda>p. case ticketsByPath shown p of Some (t, _) \<Rightarrow> lane_of t | None \<Rightarrow> UNSORTED) ?ps)"
  obtain b n m e where fold:
    "foldl (drag_step relocate shown col lane (length ?lanes > 1)) ((file, idx, []), None) ?ps = ((b, n, m), e)"
    by (metis surj_pair)
  have "file' = b"
    unfolding assms(5) dropTickets_def Some assms(2) Let_def option.case prod.case fold by simp
  with drag_keeps [OF fold _ _ assms(4)] assms(1,3) show ?thesis by simp
qed

text \<open>C35. Dropping tickets, one or many and wherever on a board that lists the target state, loses and
  duplicates none: the states stay, the tickets keep their owners as a multiset, also when a request is
  refused half way, and the tickets not dragged stay in their columns in order.\<close>

theorem drops_conserve_tickets:
  assumes "distinct (column_keys file)" and "fst (drop_target shown active over) \<in> set (column_keys file)"
  shows "column_keys (dr_file (dropTickets relocate shown selected active over file)) = column_keys file
    \<and> census tk_session (dr_file (dropTickets relocate shown selected active over file)) = census tk_session file
    \<and> others_stay (set (tickets_to_move shown selected active)) file (dr_file (dropTickets relocate shown selected active over file))"
proof -
  obtain col lane idx where target: "drop_target shown active over = (col, lane, idx)" by (metis surj_pair)
  show ?thesis by (rule drop_keeps [OF assms(1) target _ _ refl]) (use assms(2) target in \<open>simp_all add: unaffected_def\<close>)
qed


end
