(* ===== verification/BoardSlots.thy ===== *)
theory BoardSlots
  imports BoardFacts
begin

text \<open>Where drops land: a ticket dropped on another of its cell takes its slot; two dropped further down do not.\<close>

section \<open>Looking tickets up\<close>

lemma columns_are: "board_ok b \<Longrightarrow> all_tickets b = concat (map snd (bd_columns b))"
proof -
  assume ok: "board_ok b"
  then have d: "distinct (map fst (bd_columns b))" by (simp add: board_ok_def)
  have "map (column_of b) (map fst (bd_columns b)) = map snd (bd_columns b)"
    unfolding map_map
    by (rule map_cong [OF refl]) (use d in \<open>auto simp: column_of_def map_of_is_SomeI\<close>)
  with ok show ?thesis by (simp add: all_tickets_def board_ok_def)
qed

lemma distinct_concat_unique:
  "distinct (map f (concat (map g ks))) \<Longrightarrow> distinct ks \<Longrightarrow> a \<in> set ks \<Longrightarrow> b \<in> set ks \<Longrightarrow> x \<in> set (g a) \<Longrightarrow> y \<in> set (g b) \<Longrightarrow>
     f x = f y \<Longrightarrow> a = b \<and> x = y"
proof (induction ks)
  case (Cons k ks)
  have "f ` set (g k) \<inter> f ` (\<Union>j \<in> set ks. set (g j)) = {}" "inj_on f (set (g k))"
    using Cons.prems(1) by (auto simp: distinct_map inj_on_Un image_Un)
  with Cons show ?case by (auto simp: inj_on_def image_iff distinct_map)
qed simp

lemma one_column:
  assumes "board_ok b" and "col \<in> set (column_keys b)" and "col' \<in> set (column_keys b)"
    and "t \<in> set (column_of b col)" and "t' \<in> set (column_of b col')" and "tk_path t = tk_path t'"
  shows "col = col' \<and> t = t'"
  using assms(1) distinct_concat_unique [OF _ _ assms(2-6)] by (simp add: board_ok_def all_tickets_def)

lemma distinct_concat_part: "distinct (map f (concat (map g ks))) \<Longrightarrow> a \<in> set ks \<Longrightarrow> distinct (map f (g a))"
  by (induction ks) auto

lemma paths_distinct: "board_ok b \<Longrightarrow> col \<in> set (column_keys b) \<Longrightarrow> distinct (map tk_path (column_of b col))"
  unfolding board_ok_def all_tickets_def by (blast intro: distinct_concat_part)

lemma ticketsByPath_Some:
  assumes "board_ok b" and "col \<in> set (column_keys b)" and "t \<in> set (column_of b col)"
  shows "ticketsByPath b (tk_path t) = Some (t, col)"
proof -
  let ?e = "\<lambda>(col, ts). map (\<lambda>t. (tk_path t, (t, col))) ts"
  have "map fst (concat (map ?e cs)) = map tk_path (concat (map snd cs))" for cs :: "(string \<times> ticket list) list"
    by (induction cs) auto
  then have "distinct (map fst (rev (concat (map ?e (bd_columns b)))))"
    using assms(1) columns_are [OF assms(1)] by (simp add: board_ok_def rev_map [symmetric])
  moreover have m: "map fst (bd_columns b) = column_keys b" "distinct (column_keys b)"
    using assms(1) unfolding board_ok_def by blast+
  have "col \<in> set (map fst (bd_columns b))" unfolding m(1) by (rule assms(2))
  then obtain ts where ts: "(col, ts) \<in> set (bd_columns b)" by auto
  then have "column_of b col = ts" using m by (simp add: column_of_def)
  then have "(tk_path t, (t, col)) \<in> set (?e (col, ts))" using assms(3) by simp
  then have "(tk_path t, (t, col)) \<in> set (rev (concat (map ?e (bd_columns b))))"
    unfolding set_rev set_concat set_map by (rule UnionI [rotated]) (rule imageI [OF imageI [OF ts]])
  ultimately show ?thesis unfolding ticketsByPath_def by (rule map_of_is_SomeI)
qed

lemma find_unique: "distinct (map f xs) \<Longrightarrow> x \<in> set xs \<Longrightarrow> (\<And>y. P y \<longleftrightarrow> f y = f x) \<Longrightarrow> find P xs = Some x"
  by (induction xs) (auto simp: image_iff)

lemma source_of_col:
  assumes "board_ok b" and "col \<in> set (column_keys b)" and "t \<in> set (column_of b col)"
  shows "source_of (tk_path t) b = Some col"
proof -
  have "has_ticket (tk_path t) (column_of b k) \<longleftrightarrow> k = col" if "k \<in> set (column_keys b)" for k
    using one_column [OF assms(1) that assms(2) _ assms(3)] assms(3)
    by (auto simp: has_ticket_def list_ex_iff is_ticket_def)
  then have "source_of (tk_path t) b = find (\<lambda>k. k = col) (column_keys b)"
    unfolding source_of_def by (rule_tac find_cong) auto
  also have "\<dots> = Some col" by (rule find_unique [of id]) (use assms(1,2) in \<open>simp_all add: board_ok_def\<close>)
  finally show ?thesis .
qed

section \<open>The index of a slot\<close>

lemma slot_index_at: "lane_of y = l \<Longrightarrow> slot_index l (length (filter (\<lambda>t. lane_of t = l) A)) (A @ y # B) = Some (length A)"
  by (induction A) auto

lemma drop_index_at:
  assumes "distinct (map tk_path (A @ y # B))"
  shows "computeFlatDropIndex (A @ y # B) (lane_of y) (tk_path y) = Some (length A)"
proof -
  let ?l = "\<lambda>t. lane_of t = lane_of y"
  have "find_index (is_ticket (tk_path y)) (xs @ y # ys) = Some (length xs)" if "tk_path y \<notin> tk_path ` set xs" for xs ys
    using that by (induction xs) (auto simp: is_ticket_def)
  moreover have "tk_path y \<notin> tk_path ` set (filter ?l A)" using assms by auto
  ultimately have "find_index (is_ticket (tk_path y)) (filter ?l (A @ y # B)) = Some (length (filter ?l A))" by simp
  with slot_index_at [of y "lane_of y" A B] show ?thesis by (simp add: computeFlatDropIndex_def)
qed

lemma drop_ticket_at: "tk_path x \<notin> tk_path ` set A \<Longrightarrow> drop_ticket (tk_path x) (A @ x # B) = A @ B"
  by (induction A) (auto simp: is_ticket_def)

section \<open>One request within a column\<close>

lemma plan_in_column:
  "lane_of x = l \<Longrightarrow> planTicketMove (x, col) col (Lane l) False (Some n)
     = Some (\<lparr>mb_column = None, mb_lane = None, mb_index = Some n\<rparr>, True)"
  by (simp add: planTicketMove_def Let_def)

text \<open>A request that names an index and nothing else, in a column split at the ticket.\<close>

lemma move_in_column:
  assumes "board_ok b" and "col \<in> set (column_keys b)" and "column_of b col = A @ x # B" and "n \<le> length (A @ B)"
  shows "move_ticket relocate (tk_path x) None None (Some (int n)) b =
    Inr (set_column col (take n (A @ B) @ x # drop n (A @ B)) (set_column col (A @ B) b), x)"
proof -
  have source: "source_of (tk_path x) b = Some col"
    by (rule source_of_col [OF assms(1,2)]) (simp add: assms(3))
  have d: "distinct (map tk_path (A @ x # B))" using paths_distinct [OF assms(1,2)] assms(3) by simp
  then have out: "drop_ticket (tk_path x) (A @ x # B) = A @ B" by (intro drop_ticket_at) auto
  have found: "find (is_ticket (tk_path x)) (A @ x # B) = Some x"
    by (rule find_unique [OF d]) (simp_all add: is_ticket_def)
  have "nat (max 0 (min (int n) (int (length (A @ B))))) = n" using assms(4) by simp
  then show ?thesis
    by (simp add: move_ticket_def source assms(3) out found Let_def place_def insert_at_def)
qed

lemma board_ok_reorder:
  assumes "board_ok b" and "col \<in> set (column_keys b)" and "mset ts = mset (column_of b col)"
    and "b' = set_column col ts (set_column col us b)"
  shows "board_ok b'"
proof -
  have keys: "map fst (bd_columns b') = column_keys b'"
  proof -
    have "map fst (bd_columns b) = column_keys b" using assms(1) unfolding board_ok_def by blast
    then show ?thesis using assms(2,4)
      by (simp add: set_column_def column_keys_def update_keys update_Some_unfold del: map_map)
  qed
  have "mset (map tk_path (all_tickets b')) = mset (map tk_path (all_tickets b))"
  proof -
    have "mset (concat (map (column_of b') ks)) = mset (concat (map (column_of b) ks))" for ks
      using assms(3,4) by (induction ks) auto
    moreover have "column_keys b' = column_keys b" by (simp add: assms(4))
    ultimately show ?thesis unfolding all_tickets_def mset_map by simp
  qed
  then have "distinct (map tk_path (all_tickets b'))"
    using assms(1) by (metis board_ok_def mset_eq_imp_distinct_iff)
  with keys assms(1,4) show ?thesis by (simp add: board_ok_def)
qed

text \<open>What a ticket's drop sends, its target in the same column and lane.\<close>

lemma drop_in_column:
  assumes "board_ok b" and "col \<in> set (column_keys b)" and "x \<in> set (column_of b col)"
    and "column_of b col = A @ y # B" and "tk_path x \<noteq> tk_path y"
  shows "drop_target b (tk_path x) (tk_path y) = (col, Lane (lane_of y), Some (length A))"
proof -
  have "ticketsByPath b (tk_path y) = Some (y, col)"
    by (rule ticketsByPath_Some [OF assms(1,2)]) (simp add: assms(4))
  moreover have "computeFlatDropIndex (column_of b col) (lane_of y) (tk_path y) = Some (length A)"
    unfolding assms(4) by (rule drop_index_at) (use paths_distinct [OF assms(1,2)] assms(4) in simp)
  ultimately show ?thesis using assms(5) by (simp add: drop_target_def isSelfDrop_def)
qed

lemma single_drop:
  assumes "board_ok b" and "col \<in> set (column_keys b)" and "column_of b col = A @ y # B"
    and "column_of b col = C @ x # D" and "x \<noteq> y" and "lane_of x = lane_of y" and "tk_path x \<notin> set selected"
  shows "dr_file (dropTickets relocate b selected (tk_path x) (tk_path y) b)
    = set_column col (take (length A) (C @ D) @ x # drop (length A) (C @ D)) (set_column col (C @ D) b)"
proof -
  have xy: "x \<in> set (column_of b col)" "y \<in> set (column_of b col)" unfolding assms(4) by simp (simp add: assms(3) flip: assms(4))
  have paths: "tk_path x \<noteq> tk_path y" using one_column [OF assms(1,2,2) xy] assms(5) by blast
  have look: "ticketsByPath b (tk_path x) = Some (x, col)" by (rule ticketsByPath_Some [OF assms(1,2) xy(1)])
  have "length A + length B = length C + length D" using arg_cong [OF assms(3), of length] assms(4) by simp
  then have le: "length A \<le> length (C @ D)" by simp
  have step: "drag_step relocate b col (Lane (lane_of y)) False ((b, Some (length A), []), None) (tk_path x)
      = ((set_column col (take (length A) (C @ D) @ x # drop (length A) (C @ D)) (set_column col (C @ D) b),
          Some (Suc (length A)), [tk_path x]), None)"
    using move_in_column [OF assms(1,2,4) le]
    by (simp add: drag_step_def look plan_in_column [OF assms(6)])
  show ?thesis
    using assms(7) look step
    by (simp add: dropTickets_def drop_in_column [OF assms(1,2) xy(1) assms(3) paths] tickets_to_move_def Let_def)
qed

section \<open>One ticket\<close>

text \<open>\<open>x\<close> takes the slot of \<open>y\<close>: just after it from above, just before it from below.\<close>

definition takes_slot :: "ticket \<Rightarrow> ticket \<Rightarrow> ticket list \<Rightarrow> ticket list \<Rightarrow> bool" where
  "takes_slot x y ts ts' \<longleftrightarrow> (\<exists>A B C. (ts = A @ x # B @ y # C \<and> ts' = A @ B @ y # x # C)
                                 \<or> (ts = A @ y # B @ x # C \<and> ts' = A @ x # y # B @ C))"

lemma takes_slot_filter:
  assumes "takes_slot x y ts ts'" and "P x = P y"
  shows "if P x then takes_slot x y (filter P ts) (filter P ts') else filter P ts' = filter P ts"
proof -
  obtain A B C where "(ts = A @ x # B @ y # C \<and> ts' = A @ B @ y # x # C) \<or> (ts = A @ y # B @ x # C \<and> ts' = A @ x # y # B @ C)"
    using assms(1) unfolding takes_slot_def by blast
  then show ?thesis
    using assms(2) unfolding takes_slot_def
    by (cases "P x") (simp_all, intro exI [of _ "filter P A"] exI [of _ "filter P B"] exI [of _ "filter P C"], auto)
qed

lemma in_lane_same: "tk_lane x = tk_lane y \<Longrightarrow> in_lane lanes m x = in_lane lanes m y"
  by (simp add: in_lane_def)

text \<open>C36. A ticket dropped on another one of its column and lane takes that ticket's slot in every cell that
  shows it, and nothing else of the board moves: no other cell, no other column.\<close>

theorem drop_takes_the_slot:
  assumes "board_ok b" and "col \<in> set (column_keys b)"
    and "x \<in> set (column_of b col)" and "y \<in> set (column_of b col)" and "x \<noteq> y"
    and "tk_lane x = tk_lane y" and "tk_path x \<notin> set selected"
    and "b' = dr_file (dropTickets relocate b selected (tk_path x) (tk_path y) b)"
  shows "(\<forall>k. k \<noteq> col \<longrightarrow> column_of b' k = column_of b k)
    \<and> (\<forall>lane. if in_lane (bd_lanes b) lane x then takes_slot x y (cell b col lane) (cell b' col lane)
              else cell b' col lane = cell b col lane)"
proof -
  have lane: "lane_of x = lane_of y" by (simp add: lane_of_def assms(6))
  obtain A B where y: "column_of b col = A @ y # B" using assms(4) by (meson split_list)
  then have "x \<in> set A \<or> x \<in> set B" using assms(3,5) by auto
  then obtain C D where x: "column_of b col = C @ x # D" and
    slot: "takes_slot x y (column_of b col) (take (length A) (C @ D) @ x # drop (length A) (C @ D))"
  proof
    assume "x \<in> set A"
    then obtain A1 A2 where A: "A = A1 @ x # A2" by (meson split_list)
    have "takes_slot x y (A1 @ x # A2 @ y # B) (A1 @ A2 @ y # x # B)" unfolding takes_slot_def by blast
    then show ?thesis by (intro that [of A1 "A2 @ y # B"]) (simp_all add: y A)
  next
    assume "x \<in> set B"
    then obtain B1 B2 where B: "B = B1 @ x # B2" by (meson split_list)
    have "takes_slot x y (A @ y # B1 @ x # B2) (A @ x # y # B1 @ B2)" unfolding takes_slot_def by blast
    then show ?thesis by (intro that [of "A @ y # B1" B2]) (simp_all add: y B)
  qed
  have b': "b' = set_column col (take (length A) (C @ D) @ x # drop (length A) (C @ D)) (set_column col (C @ D) b)"
    unfolding assms(8) by (rule single_drop [OF assms(1,2) y x assms(5) lane assms(7)])
  then have "takes_slot x y (column_of b col) (column_of b' col)" and "bd_lanes b' = bd_lanes b"
    using slot by simp_all
  then have "if in_lane (bd_lanes b) lane x then takes_slot x y (cell b col lane) (cell b' col lane)
      else cell b' col lane = cell b col lane" for lane
    using takes_slot_filter [of x y _ _ "in_lane (bd_lanes b) lane"] in_lane_same [OF assms(6)] by (simp add: cell_def)
  moreover have "column_of b' k = column_of b k" if "k \<noteq> col" for k using that b' by simp
  ultimately show ?thesis by blast
qed

section \<open>Several tickets\<close>

text \<open>Two neighbours dragged together past a ticket further down land apart: taking the second one out
  shifts the column under the index meant for it, and the ticket after the target ends up between them.\<close>

theorem bulk_drop_scatters:
  assumes "board_ok b" and "col \<in> set (column_keys b)" and "column_of b col = p # q # r # s # rest"
    and "tk_lane p = tk_lane r" and "tk_lane q = tk_lane r"
    and "b' = dr_file (dropTickets relocate b [tk_path p, tk_path q] (tk_path p) (tk_path r) b)"
  shows "column_of b' col = r # p # s # q # rest"
proof -
  have lanes: "lane_of p = lane_of r" "lane_of q = lane_of r" by (simp_all add: lane_of_def assms(4,5))
  have look: "ticketsByPath b (tk_path t) = Some (t, col)" if "t \<in> {p, q, r}" for t
    by (rule ticketsByPath_Some [OF assms(1,2)]) (use that assms(3) in auto)
  have ne: "tk_path p \<noteq> tk_path r" using paths_distinct [OF assms(1,2)] assms(3) by auto
  have target: "drop_target b (tk_path p) (tk_path r) = (col, Lane (lane_of r), Some 2)"
    using drop_in_column [OF assms(1,2), of p "[p, q]" r "s # rest"] assms(3) ne by simp
  let ?b1 = "set_column col (q # r # p # s # rest) (set_column col (q # r # s # rest) b)"
  let ?b2 = "set_column col (r # p # s # q # rest) (set_column col (r # p # s # rest) ?b1)"
  have one: "move_ticket relocate (tk_path p) None None (Some (int 2)) b = Inr (?b1, p)"
    using move_in_column [OF assms(1,2), of "[]" p "q # r # s # rest" 2 relocate] assms(3) by (simp add: numeral_2_eq_2)
  have ok: "board_ok ?b1" by (rule board_ok_reorder [OF assms(1,2) _ refl]) (simp add: assms(3))
  have two: "move_ticket relocate (tk_path q) None None (Some (int 3)) ?b1 = Inr (?b2, q)"
    using move_in_column [OF ok, of col "[]" q "r # p # s # rest" 3 relocate] assms(2) by (simp add: numeral_3_eq_3)
  have "foldl (drag_step relocate b col (Lane (lane_of r)) False) ((b, Some 2, []), None) [tk_path p, tk_path q]
      = ((?b2, Some 4, [tk_path p, tk_path q]), None)"
    using one two by (simp add: drag_step_def look plan_in_column lanes)
  moreover have "tickets_to_move b [tk_path p, tk_path q] (tk_path p) = [tk_path p, tk_path q]"
    by (simp add: tickets_to_move_def look)
  ultimately have "b' = ?b2"
    unfolding assms(6) dropTickets_def target by (simp add: look lanes Let_def)
  then show ?thesis by simp
qed

section \<open>Headers\<close>

lemma reorder_by_keys: "ident ` set (reorder_by ident keys xs) \<subseteq> set keys"
  unfolding reorder_by_def
proof (induction keys)
  case (Cons k ks)
  have "find (\<lambda>x. ident x = k) (rev xs) = Some x \<Longrightarrow> ident x = k" for x
    by (drule find_SomeD) simp
  with Cons show ?case by (auto simp: map_filter_simps split: option.splits)
qed (simp add: map_filter_simps)

lemma header_order_keys: "header_order keys a c = Some ks \<Longrightarrow> a \<in> set keys \<Longrightarrow> set ks \<subseteq> set keys"
  by (auto simp: header_order_def splice_in_def splice_out_def insert_at_def split: if_splits option.splits
      dest!: in_set_takeD in_set_dropD in_set_butlastD)

text \<open>A state that another program added since the tab last fetched the board is no state of it any more
  after a column is dragged: the file keeps its tickets, no column shows them.\<close>

lemma stale_reorder_drops_states:
  assumes "s \<in> set (column_keys file)" and "s \<notin> set (column_keys shown)"
    and "a \<in> set (column_keys shown)" and "a \<noteq> c"
  shows "s \<notin> set (column_keys (dropColumnHeader shown a c file))"
    and "column_of (dropColumnHeader shown a c file) s = column_of file s"
proof -
  obtain ks where ks: "header_order (column_keys shown) a c = Some ks" using assms(4) by (simp add: header_order_def)
  then have "s \<notin> set ks" using header_order_keys [OF ks assms(3)] assms(2) by blast
  then show "s \<notin> set (column_keys (dropColumnHeader shown a c file))"
    using reorder_by_keys [of bs_id ks "bd_states file"] unfolding dropColumnHeader_def ks
    by (auto simp: reorder_states_def column_keys_def)
  show "column_of (dropColumnHeader shown a c file) s = column_of file s"
    by (simp add: dropColumnHeader_def ks reorder_states_def column_of_def)
qed

section \<open>Witnesses\<close>

definition ticket_a :: ticket where "ticket_a = \<lparr>tk_path = ''a.md'', tk_lane = Some ''ui'', tk_session = None\<rparr>"
definition ticket_b :: ticket where "ticket_b = \<lparr>tk_path = ''b.md'', tk_lane = Some ''ui'', tk_session = None\<rparr>"
definition ticket_c :: ticket where "ticket_c = \<lparr>tk_path = ''c.md'', tk_lane = Some ''ui'', tk_session = None\<rparr>"
definition ticket_d :: ticket where "ticket_d = \<lparr>tk_path = ''d.md'', tk_lane = Some ''ui'', tk_session = None\<rparr>"

definition small_board :: board where
  "small_board = \<lparr>bd_states = [\<lparr>bs_id = ''todo'', bs_terminal = False, bs_active = False\<rparr>,
       \<lparr>bs_id = ''done'', bs_terminal = True, bs_active = False\<rparr>],
     bd_lanes = [''ui''], bd_columns = [(''todo'', [ticket_a, ticket_b, ticket_c, ticket_d]), (''done'', [])]\<rparr>"

lemmas small_board_defs = small_board_def ticket_a_def ticket_b_def ticket_c_def ticket_d_def

lemma small_board_ok: "board_ok small_board" "''todo'' \<in> set (column_keys small_board)"
  "column_of small_board ''todo'' = [ticket_a, ticket_b, ticket_c, ticket_d]"
  by (simp_all add: board_ok_def all_tickets_def column_keys_def column_of_def small_board_defs)

lemma drop_takes_the_slot_witness:
  "takes_slot ticket_a ticket_c (cell small_board ''todo'' ''ui'')
     (cell (dr_file (dropTickets (\<lambda>p a b. Inr p) small_board [] ''a.md'' ''c.md'' small_board)) ''todo'' ''ui'')"
proof -
  have here: "ticket_a \<in> set (column_of small_board ''todo'')" "ticket_c \<in> set (column_of small_board ''todo'')"
    by (simp_all add: small_board_ok(3))
  have differ: "ticket_a \<noteq> ticket_c" and same: "tk_lane ticket_a = tk_lane ticket_c" by (simp_all add: small_board_defs)
  have unselected: "tk_path ticket_a \<notin> set []" by simp
  have paths: "tk_path ticket_a = ''a.md''" "tk_path ticket_c = ''c.md''" and
    shown: "in_lane (bd_lanes small_board) ''ui'' ticket_a"
    by (simp_all add: small_board_defs in_lane_def UNSORTED_def)
  show ?thesis
    using drop_takes_the_slot [OF small_board_ok(1,2) here differ same unselected refl, of "\<lambda>p a b. Inr p"] shown
    unfolding paths by presburger
qed

lemma bulk_drop_scatters_witness:
  "column_of (dr_file (dropTickets (\<lambda>p a b. Inr p) small_board [''a.md'', ''b.md''] ''a.md'' ''c.md'' small_board)) ''todo''
     = [ticket_c, ticket_a, ticket_d, ticket_b]"
  using bulk_drop_scatters [OF small_board_ok, OF _ _ refl, where relocate = "\<lambda>p a b. Inr p"]
  by (simp add: small_board_defs)

lemma drops_conserve_tickets_witness:
  "census tk_session (dr_file (dropTickets (\<lambda>p a b. Inr (''done/'' @ p)) small_board [] ''a.md'' ''done::ui'' small_board))
     = {#None, None, None, None#}"
proof -
  have "census tk_session small_board = {#None, None, None, None#}"
    by (simp add: census_def all_tickets_def column_keys_def column_of_def small_board_defs)
  moreover have "fst (drop_target small_board ''a.md'' ''done::ui'') = ''done''" by code_simp
  moreover have "distinct (column_keys small_board)" "''done'' \<in> set (column_keys small_board)"
    by (simp_all add: column_keys_def small_board_def)
  ultimately show ?thesis
    using drops_conserve_tickets [of small_board small_board "''a.md''" "''done::ui''" "\<lambda>p a b. Inr (''done/'' @ p)" "[]"] by simp
qed



end
