(* ===== verification/BoardData.thy ===== *)
theory BoardData
  imports BoardDrag SingleFlight
begin

text \<open>
  The board a tab shows (\<open>features/boards/hooks/useBoardData.js\<close>): fetched for the board in the URL, with the
  slot of \<open>SingleFlight\<close>. The board kept is paired with the id its request was sent for.
\<close>

section \<open>State and operations\<close>

record board_data =
  bdt_id :: "string option"
  bdt_board :: "(string \<times> board) option"
  bdt_loading :: bool
  bdt_error :: "string option"
  bdt_flight :: "string flight"

definition initial_board_data :: board_data where
  "initial_board_data = \<lparr>bdt_id = None, bdt_board = None, bdt_loading = True, bdt_error = None, bdt_flight = empty_flight\<rparr>"

definition fetchBoard :: "board_data \<Rightarrow> board_data \<times> fetch_promise" where
  "fetchBoard s =
     (case bdt_id s of
        None \<Rightarrow> (s, Nothing)
      | Some b \<Rightarrow> if b = [] then (s, Nothing)
                  else let (f, p) = sf_call b (bdt_flight s) in (s\<lparr>bdt_flight := f\<rparr>, p))"

text \<open>The answer to a request; only the one in the slot is applied and ends the loading.\<close>

definition settleBoard :: "nat \<Rightarrow> string + board \<Rightarrow> board_data \<Rightarrow> board_data" where
  "settleBoard r outcome s =
     (case sf_runs (bdt_flight s) r of
        None \<Rightarrow> s
      | Some b \<Rightarrow>
          let s1 = (if sf_slot (bdt_flight s) \<noteq> Some r then s
                    else (case outcome of
                            Inl msg \<Rightarrow> s\<lparr>bdt_error := Some msg\<rparr>
                          | Inr data \<Rightarrow> s\<lparr>bdt_board := Some (b, data), bdt_error := None\<rparr>)\<lparr>bdt_loading := False\<rparr>)
          in s1\<lparr>bdt_flight := sf_end r b (bdt_flight s)\<rparr>)"

text \<open>The effect of another board in the URL.\<close>

definition showBoard :: "string option \<Rightarrow> board_data \<Rightarrow> board_data" where
  "showBoard b s = fst (fetchBoard (s\<lparr>bdt_id := b, bdt_loading := True\<rparr>))"

inductive board_step :: "board_data \<Rightarrow> board_data \<Rightarrow> bool" where
  Show: "board_step s (showBoard b s)"
| Fetch: "board_step s (fst (fetchBoard s))"
| Settle: "sf_runs (bdt_flight s) r \<noteq> None \<Longrightarrow> board_step s (settleBoard r outcome s)"

section \<open>The slot\<close>

lemma fetchBoard_step:
  "flight_step (bdt_flight s) (bdt_flight (fst (fetchBoard s))) \<or> bdt_flight (fst (fetchBoard s)) = bdt_flight s"
  using flight_step.Call [of "bdt_flight s"] by (auto simp: fetchBoard_def case_prod_beta split: option.splits)

interpretation boards: single_flight bdt_flight board_step initial_board_data
proof
  show "bdt_flight initial_board_data = empty_flight" by (simp add: initial_board_data_def)
next
  fix s s'
  assume "board_step s s'"
  then show "flight_step (bdt_flight s) (bdt_flight s') \<or> bdt_flight s' = bdt_flight s"
  proof cases
    case (Show b)
    then show ?thesis using fetchBoard_step [of "s\<lparr>bdt_id := b, bdt_loading := True\<rparr>"] by (simp add: showBoard_def)
  next
    case Fetch
    then show ?thesis using fetchBoard_step [of s] by simp
  next
    case (Settle r outcome)
    then obtain b where "sf_runs (bdt_flight s) r = Some b" by blast
    with Settle have "bdt_flight s' = sf_end r b (bdt_flight s)" by (simp add: settleBoard_def Let_def)
    with Settle show ?thesis by (auto intro: flight_step.End)
  qed
qed

section \<open>The board shown\<close>

text \<open>
  While a board loads, the slot holds a request for it; otherwise the board kept is of the id in the URL,
  unless an error is shown.
\<close>

definition board_inv :: "board_data \<Rightarrow> bool" where
  "board_inv s \<longleftrightarrow>
     (bdt_loading s \<and> nonempty (bdt_id s) \<longrightarrow> sf_slot (bdt_flight s) \<noteq> None \<and> sf_key (bdt_flight s) = bdt_id s)
     \<and> (\<not> bdt_loading s \<and> nonempty (bdt_id s) \<and> bdt_error s = None \<longrightarrow> (\<exists>d. bdt_board s = Some (the (bdt_id s), d)))
     \<and> (sf_slot (bdt_flight s) \<noteq> None \<and> nonempty (bdt_id s) \<longrightarrow> sf_key (bdt_flight s) = bdt_id s)"

lemma call_takes_slot: "sf_slot (fst (sf_call k f)) \<noteq> None \<and> sf_key (fst (sf_call k f)) = Some k"
  by (auto simp: sf_call_def sf_join_def sf_start_def Let_def split: option.splits)

lemma end_slot:
  "sf_slot f = Some r \<Longrightarrow> sf_slot (sf_end r k f) = None \<or> sf_key (sf_end r k f) = Some k"
  "sf_slot f \<noteq> Some r \<Longrightarrow> sf_slot (sf_end r k f) = sf_slot f \<and> sf_key (sf_end r k f) = sf_key f"
  by (cases "sf_pending f") (simp_all add: sf_end_def drop_fields leave_signalled leave_idle)

lemma fetch_inv: "board_inv s \<Longrightarrow> board_inv (fst (fetchBoard s))"
  using call_takes_slot [of "the (bdt_id s)" "bdt_flight s"]
  by (auto simp: board_inv_def fetchBoard_def nonempty_iff case_prod_beta split: option.splits)

lemma show_inv: "board_inv (showBoard b s)"
  using call_takes_slot [of "the b" "bdt_flight s"]
  by (auto simp: board_inv_def showBoard_def fetchBoard_def nonempty_iff case_prod_beta split: option.splits)

lemma settle_inv:
  assumes "board_inv s" and "flight_inv (bdt_flight s)" and "sf_runs (bdt_flight s) r \<noteq> None"
  shows "board_inv (settleBoard r outcome s)"
proof -
  obtain b where b: "sf_runs (bdt_flight s) r = Some b" using assms(3) by blast
  show ?thesis
  proof (cases "sf_slot (bdt_flight s) = Some r")
    case False
    then show ?thesis using assms(1) b end_slot(2) [OF False, of b] by (simp add: settleBoard_def board_inv_def Let_def)
  next
    case True
    have key: "sf_key (bdt_flight s) = Some b" using assms(2) True b by (auto simp: flight_inv_def)
    show ?thesis
      using assms(1) b True key end_slot(1) [OF True, of b]
      by (auto simp: settleBoard_def board_inv_def Let_def nonempty_iff split: sum.splits)
  qed
qed

lemma board_inv_reachable: "rtranclp board_step initial_board_data s \<Longrightarrow> board_inv s"
proof (induction rule: rtranclp_induct)
  case base
  show ?case by (simp add: board_inv_def initial_board_data_def)
next
  case (step s t)
  show ?case
    using step.hyps(2)
  proof cases
    case (Show b)
    then show ?thesis by (simp add: show_inv)
  next
    case Fetch
    then show ?thesis using step.IH by (simp add: fetch_inv)
  next
    case (Settle r outcome)
    then show ?thesis using settle_inv [OF step.IH boards.reachable_inv [OF step.hyps(1)]] by blast
  qed
qed

text \<open>C38. Once a board has loaded without an error, the board shown is an answer to a request for the board
  in the URL, however often it changed and whatever answers still arrive.\<close>

theorem shown_board_is_the_one_addressed:
  assumes "rtranclp board_step initial_board_data s" and "bdt_id s = Some b" and "b \<noteq> []"
    and "\<not> bdt_loading s" and "bdt_error s = None"
  shows "\<exists>d. bdt_board s = Some (b, d)"
  using board_inv_reachable [OF assms(1)] assms(2-) by (auto simp: board_inv_def)

definition empty_board :: board where
  "empty_board = \<lparr>bd_states = [], bd_lanes = [], bd_columns = []\<rparr>"

text \<open>The board changes while the first request is in flight; the late answer is not shown.\<close>

lemma shown_board_is_the_one_addressed_witness:
  "map_option fst (bdt_board (settleBoard 0 (Inr empty_board) (settleBoard 1 (Inr empty_board) (showBoard (Some ''b2'') (showBoard (Some ''b1'') initial_board_data)))))
     = Some ''b2''"
proof -
  let ?s = "showBoard (Some ''b2'') (showBoard (Some ''b1'') initial_board_data)"
  let ?t = "settleBoard 1 (Inr empty_board) ?s"
  let ?u = "settleBoard 0 (Inr empty_board) ?t"
  note defs = showBoard_def fetchBoard_def initial_board_data_def sf_call_def sf_start_def sf_orphans_def empty_flight_def
    settleBoard_def sf_end_def sf_leave_def sf_drop_def sf_resolve_def Let_def
  have run: "sf_runs (bdt_flight ?s) 1 \<noteq> None" and late: "sf_runs (bdt_flight ?t) 0 \<noteq> None" by (simp_all add: defs)
  have "rtranclp board_step initial_board_data ?u"
    by (rule rtranclp.rtrancl_into_rtrancl, rule rtranclp.rtrancl_into_rtrancl, rule rtranclp.rtrancl_into_rtrancl,
        rule r_into_rtranclp, rule Show, rule Show, rule Settle [OF run], rule Settle [OF late])
  moreover have "bdt_id ?u = Some ''b2''" "\<not> bdt_loading ?u" "bdt_error ?u = None" by (simp_all add: defs)
  ultimately show ?thesis using shown_board_is_the_one_addressed [of ?u "''b2''"] by auto
qed

end
