(* ===== verification/SessionData.thy ===== *)
theory SessionData
  imports SingleFlight
begin

text \<open>
  The metadata of the session a tab addresses (\<open>context/SessionDataContext.jsx\<close>): refreshed with the slot of
  \<open>SingleFlight\<close>, keyed by the address, with retries; the answer of a request is a step, and so is a retry
  timer. The key of a request is the address it was sent to.
\<close>

section \<open>State\<close>

type_synonym session_fields = "(string \<times> jval) list"

record session_data =
  sd_data :: "session_fields option"
  sd_address :: string
  sd_routed :: "string option"
  sd_connected :: bool
  sd_retries :: nat
  sd_timers :: "nat list"
  sd_reports :: "string list"
  sd_flight :: "string flight"
  sd_notifications :: bool
  sd_notificationsSet :: bool
  sd_notificationsRead :: nat

definition initial_session_data :: session_data where
  "initial_session_data = \<lparr>sd_data = None, sd_address = [], sd_routed = None, sd_connected = False, sd_retries = 0,
     sd_timers = [], sd_reports = [], sd_flight = empty_flight, sd_notifications = False,
     sd_notificationsSet = False, sd_notificationsRead = 0\<rparr>"

definition NULLABLE_FIELDS :: "string list" where
  "NULLABLE_FIELDS = [''needs_user'', ''needs_user_replies'']"

definition SESSION_RETRY_DELAY_MS :: nat where
  "SESSION_RETRY_DELAY_MS = 1000"

definition session_id_of :: "session_fields option \<Rightarrow> jval" where
  "session_id_of d = (case d of Some fs \<Rightarrow> jget (JObj fs) ''session_id'' | None \<Rightarrow> JUndef)"

text \<open>\<open>{ ...prev, ...patch }\<close>.\<close>

definition spread :: "session_fields \<Rightarrow> session_fields \<Rightarrow> session_fields" where
  "spread prev patch = foldl (\<lambda>fs (k, v). AList.update k v fs) prev patch"

text \<open>A null keeps the value known, except in the fields that null clears.\<close>

definition merge_fields :: "session_fields \<Rightarrow> session_fields \<Rightarrow> session_fields" where
  "merge_fields prev data =
     spread prev (filter (\<lambda>(k, v). \<not> nullish v \<or> k \<in> set NULLABLE_FIELDS) data)"

section \<open>Refreshing\<close>

definition refreshSession :: "session_data \<Rightarrow> session_data \<times> fetch_promise" where
  "refreshSession s = (let (f, p) = sf_call (sd_address s) (sd_flight s) in (s\<lparr>sd_flight := f\<rparr>, p))"

definition apply_session :: "session_fields option \<Rightarrow> session_data \<Rightarrow> session_data" where
  "apply_session data s =
     (if truthy (session_id_of data)
      then s\<lparr>sd_data := Some (case sd_data s of
               Some prev \<Rightarrow> if session_id_of (Some prev) = session_id_of data then merge_fields prev (the data) else the data
             | None \<Rightarrow> the data)\<rparr>
      else (if data \<noteq> None \<and> data \<noteq> Some []
            then s\<lparr>sd_data := Some (case sd_data s of Some prev \<Rightarrow> spread prev (the data) | None \<Rightarrow> the data)\<rparr>
            else s)\<lparr>sd_timers := sd_timers s @ [SESSION_RETRY_DELAY_MS]\<rparr>)"

definition retry_session :: "session_data \<Rightarrow> session_data" where
  "retry_session s =
     (if sd_retries s < 3
      then s\<lparr>sd_retries := Suc (sd_retries s), sd_timers := sd_timers s @ [1000 * 2 ^ sd_retries s]\<rparr>
      else s\<lparr>sd_retries := 0, sd_reports := sd_reports s @ [''Session load failed'']\<rparr>)"

definition settleRefresh :: "nat \<Rightarrow> string + session_fields option \<Rightarrow> session_data \<Rightarrow> session_data" where
  "settleRefresh r outcome s =
     (case sf_runs (sd_flight s) r of
        None \<Rightarrow> s
      | Some addressed \<Rightarrow>
          let current = (sf_slot (sd_flight s) = Some r \<and> sd_address s = addressed);
              s1 = (case outcome of
                      Inr data \<Rightarrow> let s0 = s\<lparr>sd_retries := 0\<rparr> in if current then apply_session data s0 else s0
                    | Inl _ \<Rightarrow> if current \<and> sd_connected s then retry_session s else s)
          in s1\<lparr>sd_flight := sf_end r (sd_address s) (sd_flight s)\<rparr>)"

section \<open>Other operations\<close>

definition clearSessionData :: "session_data \<Rightarrow> session_data" where
  "clearSessionData s = s\<lparr>sd_data := None\<rparr>"

definition seedSessionData :: "session_fields \<Rightarrow> session_data \<Rightarrow> session_data" where
  "seedSessionData seed s = s\<lparr>sd_data := Some seed\<rparr>"

definition mergeSessionData :: "session_fields \<Rightarrow> session_data \<Rightarrow> session_data" where
  "mergeSessionData patch s = s\<lparr>sd_data := Some (case sd_data s of Some prev \<Rightarrow> spread prev patch | None \<Rightarrow> patch)\<rparr>"

text \<open>The two halves of \<open>reloadSession\<close>: whether it asks for a resume, and what its answer does.\<close>

definition reload_asks :: "session_data \<Rightarrow> string option" where
  "reload_asks s =
     (case session_id_of (sd_data s) of
        JStr i \<Rightarrow> if i \<noteq> [] \<and> sd_routed s = Some i then Some i else None
      | _ \<Rightarrow> None)"

definition reload_answered :: "string \<Rightarrow> string option \<Rightarrow> session_data \<Rightarrow> session_data" where
  "reload_answered i address s =
     (if sd_routed s \<noteq> Some i then s
      else case address of
        Some a \<Rightarrow> s\<lparr>sd_address := a, sd_data := None\<rparr>
      | None \<Rightarrow> s\<lparr>sd_reports := sd_reports s @ [''Reload failed'']\<rparr>)"

text \<open>Notifications: the effect of another session reads its setting; a toggle outranks that read.\<close>

definition sessionChanged :: "session_data \<Rightarrow> session_data" where
  "sessionChanged s = s\<lparr>sd_notificationsSet := False, sd_notifications := False,
     sd_notificationsRead := Suc (sd_notificationsRead s)\<rparr>"

definition setNotificationsEnabled :: "bool \<Rightarrow> session_data \<Rightarrow> session_data" where
  "setNotificationsEnabled b s = s\<lparr>sd_notificationsSet := True, sd_notifications := b\<rparr>"

definition notificationsRead :: "nat \<Rightarrow> bool \<Rightarrow> session_data \<Rightarrow> session_data" where
  "notificationsRead n b s =
     (if n \<noteq> sd_notificationsRead s \<or> sd_notificationsSet s then s else s\<lparr>sd_notifications := b\<rparr>)"

section \<open>The slot\<close>

inductive session_step :: "session_data \<Rightarrow> session_data \<Rightarrow> bool" where
  Refresh: "session_step s (fst (refreshSession s))"
| Answer: "sf_runs (sd_flight s) r \<noteq> None \<Longrightarrow> session_step s (settleRefresh r outcome s)"
| Timer: "sd_timers s = xs @ d # ys \<Longrightarrow> session_step s (fst (refreshSession (s\<lparr>sd_timers := xs @ ys\<rparr>)))"
| Move: "session_step s (s\<lparr>sd_address := a, sd_routed := r, sd_connected := c\<rparr>)"
| Clear: "session_step s (clearSessionData s)"
| Seed: "session_step s (seedSessionData seed s)"
| Merge: "session_step s (mergeSessionData patch s)"
| Reload: "session_step s (reload_answered i address s)"
| Change: "session_step s (sessionChanged s)"
| Toggle: "session_step s (setNotificationsEnabled b s)"
| Read: "session_step s (notificationsRead n b s)"

lemma refresh_flight: "sd_flight (fst (refreshSession s)) = fst (sf_call (sd_address s) (sd_flight s))"
  by (simp add: refreshSession_def case_prod_beta)

lemma settle_flight_sd:
  "sf_runs (sd_flight s) r = Some a \<Longrightarrow> sd_flight (settleRefresh r outcome s) = sf_end r (sd_address s) (sd_flight s)"
  by (simp add: settleRefresh_def Let_def)

interpretation session: single_flight sd_flight session_step initial_session_data
proof
  show "sd_flight initial_session_data = empty_flight" by (simp add: initial_session_data_def)
next
  fix s s'
  assume "session_step s s'"
  then show "flight_step (sd_flight s) (sd_flight s') \<or> sd_flight s' = sd_flight s"
  proof cases
    case Refresh
    then show ?thesis by (simp add: refresh_flight flight_step.Call)
  next
    case (Answer r outcome)
    then obtain a where "sf_runs (sd_flight s) r = Some a" by blast
    then have "sd_flight s' = sf_end r (sd_address s) (sd_flight s)" using Answer(1) by (simp add: settle_flight_sd)
    then show ?thesis using Answer(2) by (simp add: flight_step.End)
  next
    case (Timer xs d ys)
    then show ?thesis by (simp add: refresh_flight flight_step.Call)
  qed (auto simp: clearSessionData_def seedSessionData_def mergeSessionData_def reload_answered_def sessionChanged_def
      setNotificationsEnabled_def notificationsRead_def split: option.splits)
qed

section \<open>Facts\<close>

lemma spread_map: "map_of (spread prev patch) k = (case last_index (\<lambda>(j, _). j = k) patch of
    Some i \<Rightarrow> Some (snd (patch ! i)) | None \<Rightarrow> map_of prev k)"
proof (induction patch rule: rev_induct)
  case (snoc kv patch)
  obtain j v where kv: "kv = (j, v)" by force
  have "spread prev (patch @ [kv]) = AList.update j v (spread prev patch)" by (simp add: spread_def kv)
  with snoc show ?case by (auto simp: kv update_conv' last_index_append nth_append split: option.splits dest: last_index_Some)
qed (simp add: spread_def)

text \<open>A refresh never loses a value to a null, save in the fields that null clears.\<close>

lemma null_keeps_value:
  assumes "k \<notin> set NULLABLE_FIELDS" and "map_of prev k = Some v" and "\<not> nullish v"
  shows "\<exists>w. map_of (merge_fields prev data) k = Some w \<and> \<not> nullish w"
proof -
  let ?kept = "filter (\<lambda>(k, v). \<not> nullish v \<or> k \<in> set NULLABLE_FIELDS) data"
  show ?thesis
  proof (cases "last_index (\<lambda>(j, _). j = k) ?kept")
    case None
    then show ?thesis using assms(2,3) by (simp add: merge_fields_def spread_map)
  next
    case (Some i)
    then have "?kept ! i \<in> set ?kept" "fst (?kept ! i) = k"
      using last_index_Some [OF Some] by (auto simp del: set_filter)
    with assms(1) have "\<not> nullish (snd (?kept ! i))" by auto
    with Some show ?thesis by (simp add: merge_fields_def spread_map)
  qed
qed

text \<open>Requests that fail one after the other: three retries, each after twice the time, then one report.\<close>

definition fail :: "session_data \<Rightarrow> session_data" where
  "fail s = (case sf_slot (sd_flight s) of Some r \<Rightarrow> settleRefresh r (Inl ''offline'') s | None \<Rightarrow> s)"

definition failing_turn :: "session_data \<Rightarrow> session_data" where
  "failing_turn s = fail (fst (refreshSession s))"

text \<open>C39. A session that cannot be read is asked for four times, with backoffs of one, two and four seconds,
  and then reported once; the count starts again.\<close>

theorem session_retries_are_bounded:
  assumes "sf_slot (sd_flight s) = None" and "flight_inv (sd_flight s)" and "sd_connected s" and "sd_retries s = 0"
  shows "sd_timers ((failing_turn ^^ 3) s) = sd_timers s @ [1000, 2000, 4000]
    \<and> sd_reports ((failing_turn ^^ 3) s) = sd_reports s
    \<and> sd_timers ((failing_turn ^^ 4) s) = sd_timers s @ [1000, 2000, 4000]
    \<and> sd_reports ((failing_turn ^^ 4) s) = sd_reports s @ [''Session load failed'']
    \<and> sd_retries ((failing_turn ^^ 4) s) = 0"
proof -
  define idle where "idle t \<longleftrightarrow> sf_slot (sd_flight t) = None \<and> flight_inv (sd_flight t) \<and> sd_connected t" for t :: session_data
  have turn: "idle (failing_turn t) \<and> sd_timers (failing_turn t) = sd_timers (retry_session t)
      \<and> sd_reports (failing_turn t) = sd_reports (retry_session t) \<and> sd_retries (failing_turn t) = sd_retries (retry_session t)"
    if "idle t" for t
  proof -
    let ?f = "sd_flight t"
    have free: "sf_slot ?f = None" "\<not> sf_pending ?f" "flight_inv ?f" "sd_connected t"
      using that by (auto simp: idle_def flight_inv_def)
    let ?g = "fst (sf_call (sd_address t) ?f)"
    have call: "refreshSession t = (t\<lparr>sd_flight := ?g\<rparr>, Run (sf_next ?f))"
      "sf_slot ?g = Some (sf_next ?f)" "sf_runs ?g (sf_next ?f) = Some (sd_address t)" "\<not> sf_pending ?g"
      using free by (simp_all add: refreshSession_def sf_call_def sf_start_def sf_orphans_def Let_def)
    have failed: "failing_turn t = (retry_session (t\<lparr>sd_flight := ?g\<rparr>))\<lparr>sd_flight := sf_end (sf_next ?f) (sd_address t) ?g\<rparr>"
      using free call by (simp add: failing_turn_def fail_def settleRefresh_def Let_def)
    have "sf_slot (sf_end (sf_next ?f) (sd_address t) ?g) = None"
      using call by (simp add: sf_end_def drop_fields leave_idle)
    moreover have "flight_inv (sf_end (sf_next ?f) (sd_address t) ?g)"
      using flight_step_keeps [OF flight_step.End [of ?g "sf_next ?f" "sd_address t"]] call(3)
        call_keeps [OF free(3), of "sd_address t"] by (auto simp: keeps_def)
    ultimately show ?thesis
      unfolding failed using free(4) by (simp add: idle_def retry_session_def)
  qed
  have "idle s" using assms by (simp add: idle_def)
  note t1 = turn [OF this] and t2 = turn [OF conjunct1 [OF turn [OF this]]]
  note t3 = turn [OF conjunct1 [OF t2]]
  note t4 = turn [OF conjunct1 [OF t3]]
  have pow: "(failing_turn ^^ 3) s = failing_turn (failing_turn (failing_turn s))"
    "(failing_turn ^^ 4) s = failing_turn (failing_turn (failing_turn (failing_turn s)))"
    by (simp_all add: numeral_3_eq_3 numeral_nat)
  show ?thesis
    unfolding pow using t1 t2 t3 t4 assms(4) by (simp add: retry_session_def)
qed

lemma session_retries_are_bounded_witness:
  "sd_reports ((failing_turn ^^ 4) (initial_session_data\<lparr>sd_connected := True\<rparr>)) = [''Session load failed'']"
proof -
  let ?s = "initial_session_data\<lparr>sd_connected := True\<rparr>"
  have flight: "sd_flight ?s = empty_flight" by (simp add: initial_session_data_def)
  have "sf_slot (sd_flight ?s) = None" unfolding flight by (simp add: empty_flight_def)
  moreover have "flight_inv (sd_flight ?s)" unfolding flight by (rule empty_flight_inv)
  moreover have "sd_connected ?s" "sd_retries ?s = 0" "sd_reports ?s = []" by (simp_all add: initial_session_data_def)
  ultimately show ?thesis using session_retries_are_bounded [of ?s] by simp
qed

end
