(* ===== verification/PathCandidates.thy ===== *)
theory PathCandidates
  imports UrlPaths TextEdit
begin

text \<open>
  Words of a message that may be paths (\<open>utils/pathCandidates.js\<close>, \<open>utils/pathHighlights.js\<close>): each word
  without the punctuation around it, with its place in the text. A step of the loop that the source
  ends with \<open>continue\<close> is \<open>None\<close>.
\<close>

section \<open>Words\<close>

lemma dropWhile_shorter [termination_simp]: "length (dropWhile p xs) < Suc (length xs)"
  by (simp add: length_dropWhile_le less_Suc_eq_le)

lemma dropWhile_rest [termination_simp]: "dropWhile p xs = y # ys \<Longrightarrow> length ys < Suc (length xs)"
  using length_dropWhile_le [of p xs] by simp

text \<open>The matches of \<open>/\S+/g\<close> with where they start.\<close>

fun words_at :: "nat \<Rightarrow> string \<Rightarrow> (nat \<times> string) list" where
  "words_at i [] = []"
| "words_at i (c # s) =
     (if js_space c then words_at (Suc i) s
      else let w = c # takeWhile (\<lambda>d. \<not> js_space d) s
           in (i, w) # words_at (i + length w) (dropWhile (\<lambda>d. \<not> js_space d) s))"

section \<open>Stripping\<close>

definition LEADING_PUNCT :: string where "LEADING_PUNCT = ''([*#''"

definition TRAILING_PUNCT :: string where "TRAILING_PUNCT = ''.,)]:;*''"

definition WRAP_CHARS :: string where "WRAP_CHARS = [CHR 0x60, CHR 0x22, CHR 0x27]"

definition PATH_ILLEGAL :: string where "PATH_ILLEGAL = [CHR 0x60, CHR 0x27, CHR 0x22] @ ''()[]{}*?''"

definition NOT_FILENAMES :: "string list" where "NOT_FILENAMES = [''e.g'', ''i.e'']"

definition strip_end :: "(char \<Rightarrow> bool) \<Rightarrow> string \<Rightarrow> string" where
  "strip_end p w = rev (dropWhile p (rev w))"

text \<open>\<open>/(:\d+)+$/\<close>, on the reversed word: the longest run of such groups at the end.\<close>

fun strip_groups :: "string \<Rightarrow> string" where
  "strip_groups [] = []"
| "strip_groups (c # w) =
     (if \<not> ascii_digit c then c # w
      else case dropWhile ascii_digit w of
             [] \<Rightarrow> c # w
           | d # r \<Rightarrow> if d = CHR '':'' then strip_groups r else c # w)"

definition strip_line_col :: "string \<Rightarrow> string" where
  "strip_line_col w = rev (strip_groups (rev w))"

definition looksLikeFilename :: "string \<Rightarrow> bool" where
  "looksLikeFilename w =
     (case last_index (\<lambda>c. c = CHR ''.'') w of
        None \<Rightarrow> False
      | Some i \<Rightarrow>
          let ext = drop (Suc i) w
          in i \<ge> 1 \<and> 1 \<le> length ext \<and> length ext \<le> 5 \<and> list_all ascii_alpha ext \<and> to_lower w \<notin> set NOT_FILENAMES)"

section \<open>Extracting\<close>

record extraction =
  ex_candidate :: string
  ex_start :: nat
  ex_end :: nat

definition extract_word :: "nat \<times> string \<Rightarrow> extraction option" where
  "extract_word token =
     (let (start, word) = token
      in if starts_with ''http://'' word \<or> starts_with ''https://'' word then None
         else
           let lead = length (takeWhile (\<lambda>c. c \<in> set LEADING_PUNCT) word);
               w1 = strip_end (\<lambda>c. c \<in> set TRAILING_PUNCT) (drop lead word);
               ltrim = length (takeWhile (\<lambda>c. c \<in> set WRAP_CHARS) w1);
               w2 = strip_end (\<lambda>c. c \<in> set WRAP_CHARS) (drop ltrim w1);
               w3 = strip_line_col w2;
               from_pos = start + lead + ltrim
           in if w3 = [] \<or> CHR ''<'' \<in> set w3 \<or> CHR ''>'' \<in> set w3 \<or> CHR '':'' \<in> set w3
                 \<or> \<not> list_ex ascii_alnum w3 \<or> list_ex (\<lambda>c. c \<in> set PATH_ILLEGAL) w3
                 \<or> \<not> (CHR ''/'' \<in> set w3 \<or> looksLikeFilename w3) then None
              else Some \<lparr>ex_candidate = w3, ex_start = from_pos, ex_end = from_pos + length w3\<rparr>)"

definition extractPathCandidates :: "string \<Rightarrow> extraction list" where
  "extractPathCandidates text = List.map_filter extract_word (words_at 0 text)"

definition uniqueCandidates :: "extraction list \<Rightarrow> string list" where
  "uniqueCandidates es = rev (remdups (rev (map ex_candidate es)))"

section \<open>Highlights\<close>

definition resolvePathCandidate :: "string \<Rightarrow> string option \<Rightarrow> (string \<rightharpoonup> string) \<Rightarrow> string option" where
  "resolvePathCandidate c sessionDir resolved =
     (if (c = ''/tmp'' \<or> starts_with ''/tmp/'' c) \<and> nonempty sessionDir then Some (the sessionDir @ c)
      else if nonempty (resolved c) then resolved c else None)"

record highlight =
  hl_start :: nat
  hl_end :: nat
  hl_candidate :: string
  hl_resolved :: string

definition computeHighlights :: "string \<Rightarrow> string option \<Rightarrow> (string \<rightharpoonup> string) \<Rightarrow> highlight list" where
  "computeHighlights text sessionDir resolved =
     List.map_filter (\<lambda>e. map_option (\<lambda>r. \<lparr>hl_start = ex_start e, hl_end = ex_end e, hl_candidate = ex_candidate e, hl_resolved = r\<rparr>)
       (resolvePathCandidate (ex_candidate e) sessionDir resolved)) (extractPathCandidates text)"

section \<open>Candidates are parts of the text\<close>

text \<open>What a path looks like, spelled out: no space and none of the characters no path holds, a letter or a
  digit, and a slash or the look of a file name, a dot behind the first place with one to five letters
  after it.\<close>

definition filename_like :: "string \<Rightarrow> bool" where
  "filename_like c \<longleftrightarrow> to_lower c \<noteq> ''e.g'' \<and> to_lower c \<noteq> ''i.e''
     \<and> (\<exists>i \<in> {1..<length c}. c ! i = CHR ''.'' \<and> length c - Suc i \<in> {1..5} \<and> list_all ascii_alpha (drop (Suc i) c))"

definition in_no_path :: string where
  "in_no_path = [CHR 0x60, CHR 0x27, CHR 0x22] @ ''()[]{}*?<>:''"

definition path_like :: "string \<Rightarrow> bool" where
  "path_like c \<longleftrightarrow> list_all (\<lambda>d. \<not> js_space d \<and> d \<notin> set in_no_path) c
     \<and> list_ex ascii_alnum c \<and> (CHR ''/'' \<in> set c \<or> filename_like c)"

text \<open>The sets of characters, compared once.\<close>

lemma char_sets:
  "set in_no_path = set PATH_ILLEGAL \<union> {CHR ''<'', CHR ''>'', CHR '':''}"
  "set WRAP_CHARS \<subseteq> set PATH_ILLEGAL"
  "set LEADING_PUNCT \<subseteq> insert (CHR ''#'') (set PATH_ILLEGAL)"
  "set TRAILING_PUNCT \<subseteq> set PATH_ILLEGAL \<union> insert (CHR '':'') (set ''.,;'')"
  "set WRAP_CHARS \<inter> (set LEADING_PUNCT \<union> set TRAILING_PUNCT) = {}"
  "CHR '':'' \<notin> set LEADING_PUNCT \<union> set WRAP_CHARS" "CHR ''/'' \<notin> set TRAILING_PUNCT \<union> set WRAP_CHARS"
  "\<forall>x \<in> set TRAILING_PUNCT \<union> set WRAP_CHARS \<union> {CHR '':'', CHR ''/''}. \<not> ascii_digit x"
  "\<forall>x \<in> set LEADING_PUNCT \<union> set TRAILING_PUNCT \<union> set WRAP_CHARS. \<not> js_space x"
  by code_simp+

lemma space_no_digit: "js_space x \<Longrightarrow> \<not> ascii_digit x"
proof -
  have "\<forall>x \<in> set [CHR 0x09, CHR 0x0A, CHR 0x0B, CHR 0x0C, CHR 0x0D, CHR 0x20, CHR 0xA0]. \<not> ascii_digit x" by code_simp
  then show "js_space x \<Longrightarrow> \<not> ascii_digit x" unfolding js_space_def by blast
qed

lemma last_index_is:
  assumes "i < length w" and "p (w ! i)" and "list_all (\<lambda>c. \<not> p c) (drop (Suc i) w)"
  shows "last_index p w = Some i"
proof (cases "last_index p w")
  case None
  with assms(1,2) show ?thesis by (auto simp: last_index_None)
next
  case (Some k)
  note k = last_index_Some [OF Some]
  have "\<not> i < k"
  proof
    assume "i < k"
    then have "w ! k = drop (Suc i) w ! (k - Suc i)" "k - Suc i < length (drop (Suc i) w)" using k by auto
    then have "w ! k \<in> set (drop (Suc i) w)" by (metis nth_mem)
    with assms(3) k show False by (auto simp: list_all_iff)
  qed
  moreover have "\<not> k < i" using k assms(1,2) by auto
  ultimately show ?thesis using Some by simp
qed

lemma looksLikeFilename_iff: "looksLikeFilename w \<longleftrightarrow> filename_like w"
proof
  assume "looksLikeFilename w"
  then obtain i where i: "last_index (\<lambda>c. c = CHR ''.'') w = Some i" "1 \<le> i" "1 \<le> length w - Suc i" "length w - Suc i \<le> 5"
    "list_all ascii_alpha (drop (Suc i) w)" "to_lower w \<notin> set NOT_FILENAMES"
    by (auto simp: looksLikeFilename_def Let_def split: option.splits)
  from last_index_Some [OF i(1)] i(2-6) show "filename_like w"
    unfolding filename_like_def by (auto simp: NOT_FILENAMES_def intro!: bexI [of _ i])
next
  assume "filename_like w"
  then obtain i where i: "1 \<le> i" "i < length w" "w ! i = CHR ''.''" "1 \<le> length w - Suc i" "length w - Suc i \<le> 5"
    "list_all ascii_alpha (drop (Suc i) w)" "to_lower w \<notin> set NOT_FILENAMES"
    by (auto simp: filename_like_def NOT_FILENAMES_def)
  have "\<not> ascii_alpha (CHR ''.'')" by code_simp
  with i(6) have "list_all (\<lambda>c. c \<noteq> CHR ''.'') (drop (Suc i) w)" by (auto simp: list_all_iff)
  with i(2,3) have "last_index (\<lambda>c. c = CHR ''.'') w = Some i" by (intro last_index_is) auto
  with i show "looksLikeFilename w" by (simp add: looksLikeFilename_def)
qed

definition cut_out :: "string \<Rightarrow> extraction \<Rightarrow> bool" where
  "cut_out text e \<longleftrightarrow> ex_end e \<le> length text \<and> ex_candidate e = slice (ex_start e) (ex_end e) text"

lemma strip_end_prefix: "\<exists>r. w = strip_end p w @ r"
  by (metis rev_append rev_rev_ident strip_end_def takeWhile_dropWhile_id)

lemma strip_groups_suffix: "\<exists>p. w = p @ strip_groups w"
proof (induction w rule: strip_groups.induct)
  case (2 c w)
  show ?case
  proof (cases "ascii_digit c \<and> (\<exists>r. dropWhile ascii_digit w = CHR '':'' # r)")
    case True
    then obtain r where r: "dropWhile ascii_digit w = CHR '':'' # r" and c: "ascii_digit c" by blast
    obtain p where "r = p @ strip_groups r" using 2 [of "CHR '':''" r] c r by auto
    then have "c # w = (c # takeWhile ascii_digit w @ CHR '':'' # p) @ strip_groups (c # w)"
      using takeWhile_dropWhile_id [of ascii_digit w] c r by simp
    then show ?thesis by blast
  next
    case False
    then have "strip_groups (c # w) = c # w" by (auto split: list.splits)
    then show ?thesis by simp
  qed
qed simp

lemma strip_line_col_prefix: "\<exists>r. w = strip_line_col w @ r"
proof -
  obtain p where "rev w = p @ strip_groups (rev w)" using strip_groups_suffix by blast
  then have "w = rev (strip_groups (rev w)) @ rev p" by (metis rev_append rev_rev_ident)
  then show ?thesis by (auto simp: strip_line_col_def)
qed

text \<open>A word's candidate is a part of the word.\<close>

lemma extract_word_part:
  assumes "extract_word (i, word) = Some e"
  obtains a b where "word = a @ ex_candidate e @ b" and "ex_start e = i + length a" and "ex_end e = ex_start e + length (ex_candidate e)"
proof -
  let ?lead = "length (takeWhile (\<lambda>c. c \<in> set LEADING_PUNCT) word)"
  let ?w1 = "strip_end (\<lambda>c. c \<in> set TRAILING_PUNCT) (drop ?lead word)"
  let ?l = "length (takeWhile (\<lambda>c. c \<in> set WRAP_CHARS) ?w1)"
  let ?w2 = "strip_end (\<lambda>c. c \<in> set WRAP_CHARS) (drop ?l ?w1)"
  have e: "e = \<lparr>ex_candidate = strip_line_col ?w2, ex_start = i + ?lead + ?l,
      ex_end = i + ?lead + ?l + length (strip_line_col ?w2)\<rparr>"
    using assms by (simp add: extract_word_def Let_def split: if_splits)
  obtain r1 r2 r3 where r: "drop ?lead word = ?w1 @ r1" "drop ?l ?w1 = ?w2 @ r2" "?w2 = strip_line_col ?w2 @ r3"
    using strip_end_prefix strip_line_col_prefix by meson
  have "word = take ?lead word @ (take ?l ?w1 @ (strip_line_col ?w2 @ r3) @ r2) @ r1"
    unfolding r(3) [symmetric] unfolding r(2) [symmetric] append_take_drop_id
    unfolding r(1) [symmetric] append_take_drop_id ..
  moreover have "length (take ?lead word) = ?lead" "length (take ?l ?w1) = ?l"
    by (simp_all add: length_takeWhile_le)
  ultimately show ?thesis
    using that [of "take ?lead word @ take ?l ?w1" "r3 @ r2 @ r1"] by (simp add: e)
qed

lemma extract_word_like:
  assumes "extract_word (i, word) = Some e" and "\<forall>c \<in> set word. \<not> js_space c"
  shows "path_like (ex_candidate e)"
proof -
  obtain a b where "word = a @ ex_candidate e @ b" using extract_word_part [OF assms(1)] by blast
  then have "\<forall>c \<in> set (ex_candidate e). \<not> js_space c" using assms(2) by auto
  then show ?thesis
    using assms(1) unfolding extract_word_def Let_def path_like_def char_sets(1)
    by (auto simp: list_all_iff list_ex_iff looksLikeFilename_iff split: if_splits)
qed

text \<open>The words: where they are, and apart from each other.\<close>

definition word_of :: "nat \<Rightarrow> string \<Rightarrow> nat \<times> string \<Rightarrow> bool" where
  "word_of i s t \<longleftrightarrow> (\<exists>a b. s = a @ snd t @ b \<and> fst t = i + length a) \<and> (\<forall>c \<in> set (snd t). \<not> js_space c)"

lemma word_of_later: "word_of (i + length p) s t \<Longrightarrow> word_of i (p @ s) t"
  unfolding word_of_def by (metis append.assoc add.assoc length_append)

lemma words_at_spot: "\<forall>t \<in> set (words_at i s). word_of i s t \<and> i \<le> fst t"
proof (induction i s rule: words_at.induct)
  case (2 i c s)
  show ?case
  proof (cases "js_space c")
    case True
    have "word_of i ([c] @ s) t" if "word_of (Suc i) s t" for t
      using word_of_later [of i "[c]" s t] that by simp
    then show ?thesis using 2(1) True by (auto simp: Suc_le_eq)
  next
    case False
    let ?w = "c # takeWhile (\<lambda>d. \<not> js_space d) s"
    let ?r = "dropWhile (\<lambda>d. \<not> js_space d) s"
    have s: "c # s = ?w @ ?r" by simp
    have "?w @ ?r = [] @ ?w @ ?r" "\<forall>d \<in> set ?w. \<not> js_space d" using False by (auto dest: set_takeWhileD)
    then have "word_of i (?w @ ?r) (i, ?w)" unfolding word_of_def fst_conv snd_conv by (metis add.right_neutral list.size(3))
    moreover have "word_of i (?w @ ?r) t \<and> i \<le> fst t" if "t \<in> set (words_at (i + length ?w) ?r)" for t
      using 2(2) [OF False refl] that word_of_later [of i ?w ?r t] by fastforce
    ultimately show ?thesis unfolding s using False by (auto simp: Let_def)
  qed
qed simp

lemma words_at_apart: "sorted_wrt (\<lambda>t u. fst t + length (snd t) < fst u) (words_at i s)"
proof (induction i s rule: words_at.induct)
  case (2 i c s)
  show ?case
  proof (cases "js_space c")
    case False
    let ?w = "c # takeWhile (\<lambda>d. \<not> js_space d) s"
    let ?r = "dropWhile (\<lambda>d. \<not> js_space d) s"
    have "i + length ?w < fst u" if "u \<in> set (words_at (i + length ?w) ?r)" for u
    proof (cases ?r)
      case (Cons d r)
      then have "js_space d" using hd_dropWhile [of "\<lambda>d. \<not> js_space d" s] by simp
      then have "u \<in> set (words_at (Suc (i + length ?w)) r)" using that Cons by simp
      then show ?thesis using words_at_spot by fastforce
    next
      case Nil
      then have "u \<in> set (words_at (i + length ?w) [])" using that by (simp only:)
      then show ?thesis by simp
    qed
    then show ?thesis using 2(2) [OF False refl] False by (auto simp: Let_def)
  qed (use 2(1) in simp)
qed simp

lemma words_at_space: "js_space z \<Longrightarrow> words_at i (p @ z # s) = words_at i p @ words_at (Suc (i + length p)) s"
proof (induction i p rule: words_at.induct)
  case (2 i c p)
  show ?case
  proof (cases "js_space c")
    case False
    have "takeWhile (\<lambda>d. \<not> js_space d) (p @ z # s) = takeWhile (\<lambda>d. \<not> js_space d) p"
      "dropWhile (\<lambda>d. \<not> js_space d) (p @ z # s) = dropWhile (\<lambda>d. \<not> js_space d) p @ z # s"
      using 2(3) by (induction p) auto
    moreover have "length p = length (takeWhile (\<lambda>d. \<not> js_space d) p) + length (dropWhile (\<lambda>d. \<not> js_space d) p)"
      by (metis length_append takeWhile_dropWhile_id)
    ultimately show ?thesis using 2(2) [OF False refl 2(3)] False by (simp add: Let_def add.assoc)
  qed (use 2 in simp)
qed simp

lemma words_at_one: "c \<noteq> [] \<Longrightarrow> \<forall>d \<in> set c. \<not> js_space d \<Longrightarrow> words_at i c = [(i, c)]"
proof (cases c)
  case (Cons d r)
  assume "\<forall>d \<in> set c. \<not> js_space d"
  then have "dropWhile (\<lambda>d. \<not> js_space d) r = []" "takeWhile (\<lambda>d. \<not> js_space d) r = r" "\<not> js_space d"
    using Cons by simp_all
  then show ?thesis unfolding Cons words_at.simps Let_def by (simp only: words_at.simps if_False)
qed simp

lemma strip_end_id: "\<not> p (last w) \<Longrightarrow> strip_end p w = w"
  by (cases w rule: rev_cases) (simp_all add: strip_end_def)

lemma strip_line_col_id:
  assumes "CHR '':'' \<notin> set w"
  shows "strip_line_col w = w"
proof -
  have "strip_groups v = v" if "CHR '':'' \<notin> set v" for v
  proof (cases v)
    case (Cons c r)
    have "CHR '':'' \<notin> set (dropWhile ascii_digit r)" using that Cons set_dropWhileD by fastforce
    then show ?thesis using Cons by (auto split: list.splits)
  qed simp
  from this [of "rev w"] assms show ?thesis by (simp add: strip_line_col_def)
qed

lemma starts_with_chars: "starts_with p s \<Longrightarrow> d \<in> set p \<Longrightarrow> d \<in> set s"
  unfolding starts_with_def by (metis in_set_takeD)

text \<open>
  A path in a message comes with what surrounds it: brackets, stars and hashes before, quotes, a position
  in the file as a compiler prints it, quotes, punctuation after. A hash at the start of a path that is
  not quoted counts as punctuation, as do full stops, commas and semicolons at its end when neither a
  quote nor a position follows.
\<close>

definition line_col :: "string list \<Rightarrow> string" where
  "line_col ds = concat (map (\<lambda>d. CHR '':'' # d) ds)"

definition dressed :: "string \<Rightarrow> string \<Rightarrow> string \<Rightarrow> string list \<Rightarrow> string \<Rightarrow> string \<Rightarrow> bool" where
  "dressed lead q1 c ds q2 trail \<longleftrightarrow>
     set lead \<subseteq> set ''([*#'' \<and> set q1 \<subseteq> set [CHR 0x60, CHR 0x22, CHR 0x27]
     \<and> (\<forall>d \<in> set ds. d \<noteq> [] \<and> (\<forall>x \<in> set d. ascii_digit x))
     \<and> set q2 \<subseteq> set [CHR 0x60, CHR 0x22, CHR 0x27] \<and> set trail \<subseteq> set ''.,)]:;*''
     \<and> (q1 = [] \<longrightarrow> hd c \<noteq> CHR ''#'') \<and> (q2 = [] \<and> ds = [] \<longrightarrow> last c \<notin> set ''.,;'')"

lemmas dressed_parts = dressed_def [folded LEADING_PUNCT_def TRAILING_PUNCT_def WRAP_CHARS_def]

lemma path_like_plain:
  "path_like c \<Longrightarrow> c \<noteq> [] \<and> (\<forall>d \<in> set c. \<not> js_space d \<and> d \<notin> set PATH_ILLEGAL \<and> d \<noteq> CHR ''<'' \<and> d \<noteq> CHR ''>'' \<and> d \<noteq> CHR '':'')"
proof -
  assume path: "path_like c"
  then have "c \<noteq> []" by (auto simp: path_like_def)
  moreover have "\<forall>d \<in> set c. \<not> js_space d \<and> d \<notin> set in_no_path" using path by (simp add: path_like_def list_all_iff)
  ultimately show ?thesis unfolding char_sets(1) Un_iff insert_iff empty_iff by metis
qed

lemma takeWhile_end: "(\<forall>x \<in> set a. p x) \<Longrightarrow> b = [] \<or> \<not> p (hd b) \<Longrightarrow> takeWhile p (a @ b) = a"
  by (induction a) (auto simp: takeWhile_eq_Nil_iff)

lemma strip_end_end: "(\<forall>x \<in> set a. p x) \<Longrightarrow> b \<noteq> [] \<Longrightarrow> \<not> p (last b) \<Longrightarrow> strip_end p (b @ a) = b"
proof -
  assume "\<forall>x \<in> set a. p x" and b: "b \<noteq> []" "\<not> p (last b)"
  then have "dropWhile p (rev a @ rev b) = dropWhile p (rev b)" by (subst dropWhile_append2) simp_all
  moreover have "dropWhile p (rev b) = rev b" using b by (cases b rule: rev_cases) simp_all
  ultimately show ?thesis by (simp add: strip_end_def)
qed

lemma strip_groups_run:
  "(\<forall>d \<in> set ds. d \<noteq> [] \<and> (\<forall>x \<in> set d. ascii_digit x)) \<Longrightarrow> strip_groups (rev (line_col ds) @ r) = strip_groups r"
proof (induction ds arbitrary: r)
  case (Cons d ds)
  then obtain c u where "d = u @ [c]" by (cases d rule: rev_cases) auto
  with Cons have d: "rev d = c # rev u" "ascii_digit c" "\<forall>x \<in> set (rev u). ascii_digit x" by auto
  have "\<not> ascii_digit (CHR '':'')" by code_simp
  with d(3) have "dropWhile ascii_digit (rev u @ CHR '':'' # r) = CHR '':'' # r"
    by (subst dropWhile_append2) simp_all
  then have "strip_groups (rev d @ CHR '':'' # r) = strip_groups r" using d(1,2) by simp
  moreover have "rev (line_col (d # ds)) @ r = rev (line_col ds) @ (rev d @ CHR '':'' # r)" by (simp add: line_col_def)
  ultimately show ?case using Cons by simp
qed (simp add: line_col_def)

lemma strip_line_col_run:
  "(\<forall>d \<in> set ds. d \<noteq> [] \<and> (\<forall>x \<in> set d. ascii_digit x)) \<Longrightarrow> CHR '':'' \<notin> set c
     \<Longrightarrow> strip_line_col (c @ line_col ds) = c"
  using strip_line_col_id [of c] by (simp add: strip_line_col_def strip_groups_run)

lemma line_col_chars:
  assumes "\<forall>d \<in> set ds. d \<noteq> [] \<and> (\<forall>x \<in> set d. ascii_digit x)"
  shows "\<forall>x \<in> set (line_col ds). ascii_digit x \<or> x = CHR '':''" and "ds \<noteq> [] \<Longrightarrow> ascii_digit (last (line_col ds))"
proof -
  show "\<forall>x \<in> set (line_col ds). ascii_digit x \<or> x = CHR '':''" using assms by (auto simp: line_col_def)
  assume "ds \<noteq> []"
  then obtain es d where ds: "ds = es @ [d]" by (cases ds rule: rev_cases) auto
  with assms have "d \<noteq> []" "ascii_digit (last d)" by auto
  then show "ascii_digit (last (line_col ds))" by (simp add: ds line_col_def)
qed

lemma no_url_ahead:
  assumes "CHR '':'' \<notin> set a" and "CHR ''/'' \<notin> set b"
  shows "\<not> starts_with ''http://'' (a @ b)" and "\<not> starts_with ''https://'' (a @ b)"
proof -
  have "\<not> starts_with (u @ '':/'') (a @ b)" for u
  proof
    assume "starts_with (u @ '':/'') (a @ b)"
    then obtain r where eq: "a @ b = u @ CHR '':'' # CHR ''/'' # r" by (auto simp: starts_with_iff)
    have "length a \<le> length u"
    proof (rule ccontr)
      assume "\<not> length a \<le> length u"
      then have "a ! length u = CHR '':''" using arg_cong [OF eq, of "\<lambda>x. x ! length u"] by (simp add: nth_append)
      with \<open>\<not> length a \<le> length u\<close> assms(1) show False by (metis not_le nth_mem)
    qed
    then have "CHR ''/'' \<in> set b" using arg_cong [OF eq, of "drop (length a)"] by simp
    with assms(2) show False by simp
  qed
  from this [of "''http''"] this [of "''https''"]
  show "\<not> starts_with ''http://'' (a @ b)" "\<not> starts_with ''https://'' (a @ b)"
    by (auto simp: starts_with_iff)
qed

lemma extract_dressed:
  assumes path: "path_like c" and around: "dressed lead q1 c ds q2 trail"
  shows "extract_word (i, lead @ q1 @ c @ line_col ds @ q2 @ trail) =
     Some \<lparr>ex_candidate = c, ex_start = i + length lead + length q1,
           ex_end = i + length lead + length q1 + length c\<rparr>"
proof -
  note plain = path_like_plain [OF path] and parts = around [unfolded dressed_parts]
  have c: "c \<noteq> []" "hd c \<in> set c" "last c \<in> set c" using plain by simp_all
  have colon: "CHR '':'' \<notin> set c" using plain by blast
  have ds: "\<forall>d \<in> set ds. d \<noteq> [] \<and> (\<forall>x \<in> set d. ascii_digit x)" using parts by blast
  have unwrapped: "hd c \<notin> set WRAP_CHARS" "last c \<notin> set WRAP_CHARS" using plain c char_sets(2) by blast+
  have digit_end: "ascii_digit (last (line_col ds))" "line_col ds \<noteq> []" if "ds \<noteq> []"
    using line_col_chars(2) [OF ds that] that by (auto simp: line_col_def)
  let ?rear = "line_col ds @ q2 @ trail"
  have w1: "takeWhile (\<lambda>x. x \<in> set LEADING_PUNCT) (lead @ q1 @ c @ ?rear) = lead"
  proof (rule takeWhile_end)
    show "\<forall>x \<in> set lead. x \<in> set LEADING_PUNCT" using parts by blast
    have "hd (q1 @ c @ ?rear) \<notin> set LEADING_PUNCT"
    proof (cases "q1 = []")
      case True
      then have "hd c \<noteq> CHR ''#''" "hd c \<notin> set PATH_ILLEGAL" using parts plain c(2) by simp_all
      then have "hd c \<notin> set LEADING_PUNCT" using char_sets(3) by blast
      with True c show ?thesis by simp
    next
      case False
      then have "hd q1 \<notin> set LEADING_PUNCT" using parts hd_in_set [OF False] char_sets(5) by blast
      with False show ?thesis by simp
    qed
    then show "q1 @ c @ ?rear = [] \<or> hd (q1 @ c @ ?rear) \<notin> set LEADING_PUNCT" by blast
  qed
  have w2: "strip_end (\<lambda>x. x \<in> set TRAILING_PUNCT) ((q1 @ c @ line_col ds @ q2) @ trail) = q1 @ c @ line_col ds @ q2"
  proof (rule strip_end_end)
    show "\<forall>x \<in> set trail. x \<in> set TRAILING_PUNCT" using parts by blast
    show "q1 @ c @ line_col ds @ q2 \<noteq> []" using c by simp
    consider "q2 \<noteq> []" | "q2 = []" "ds \<noteq> []" | "q2 = []" "ds = []" by blast
    then show "last (q1 @ c @ line_col ds @ q2) \<notin> set TRAILING_PUNCT"
    proof cases
      case 1
      then have "last q2 \<notin> set TRAILING_PUNCT" using parts last_in_set [OF 1] char_sets(5) by blast
      with 1 show ?thesis by simp
    next
      case 2
      then have "last (line_col ds) \<notin> set TRAILING_PUNCT" using digit_end char_sets(8) by blast
      with 2 digit_end show ?thesis by simp
    next
      case 3
      then have "last c \<notin> set ''.,;''" "last c \<notin> set PATH_ILLEGAL" "last c \<noteq> CHR '':''"
        using parts plain c(3) by simp_all
      then have "last c \<notin> set TRAILING_PUNCT" using char_sets(4) by blast
      with 3 c show ?thesis by (simp add: line_col_def)
    qed
  qed
  have w3: "takeWhile (\<lambda>x. x \<in> set WRAP_CHARS) (q1 @ c @ line_col ds @ q2) = q1"
    by (rule takeWhile_end) (use parts unwrapped c in auto)
  have w4: "strip_end (\<lambda>x. x \<in> set WRAP_CHARS) ((c @ line_col ds) @ q2) = c @ line_col ds"
  proof (rule strip_end_end)
    show "\<forall>x \<in> set q2. x \<in> set WRAP_CHARS" using parts by blast
    show "last (c @ line_col ds) \<notin> set WRAP_CHARS"
    proof (cases "ds = []")
      case False
      with digit_end char_sets(8) show ?thesis by auto
    qed (use unwrapped in \<open>simp add: line_col_def\<close>)
  qed (use c in simp)
  have "CHR '':'' \<notin> set (lead @ q1 @ c)" using parts colon char_sets(6) by auto
  moreover have "CHR ''/'' \<notin> set ?rear" using parts line_col_chars(1) [OF ds] char_sets(7,8) by auto
  ultimately have url: "\<not> starts_with ''http://'' (lead @ q1 @ c @ ?rear)" "\<not> starts_with ''https://'' (lead @ q1 @ c @ ?rear)"
    using no_url_ahead [of "lead @ q1 @ c" ?rear] by simp_all
  note strips = w1 w2 [simplified] w3 w4 [simplified] strip_line_col_run [OF ds colon]
  have "\<not> list_ex (\<lambda>d. d \<in> set PATH_ILLEGAL) c" "CHR ''<'' \<notin> set c" "CHR ''>'' \<notin> set c"
    using plain by (auto simp: list_ex_iff)
  moreover have "list_ex ascii_alnum c" "CHR ''/'' \<in> set c \<or> filename_like c"
    using path by (simp_all add: path_like_def)
  ultimately show ?thesis
    using c colon url strips unfolding extract_word_def Let_def prod.case
    by (simp add: looksLikeFilename_iff)
qed

lemma in_map_filter: "y \<in> set (List.map_filter f xs) \<longleftrightarrow> (\<exists>x \<in> set xs. f x = Some y)"
  by (force simp: List.map_filter_def)

lemma map_filter_sorted:
  assumes "sorted_wrt R xs" and "\<And>x y a b. f x = Some a \<Longrightarrow> f y = Some b \<Longrightarrow> R x y \<Longrightarrow> Q a b"
  shows "sorted_wrt Q (List.map_filter f xs)"
  using assms(1)
proof (induction xs)
  case (Cons x xs)
  have "Q a b" if "f x = Some a" "b \<in> set (List.map_filter f xs)" for a b
    using that Cons.prems assms(2) by (fastforce simp: in_map_filter)
  then show ?case using Cons by (simp add: List.map_filter_simps split: option.splits)
qed (simp add: List.map_filter_simps)

lemma dressed_no_space:
  assumes "dressed lead q1 c ds q2 trail"
  shows "\<forall>d \<in> set lead \<union> set q1 \<union> set (line_col ds) \<union> set q2 \<union> set trail. \<not> js_space d"
proof -
  note parts = assms [unfolded dressed_parts]
  have "\<not> js_space (CHR '':'')" by code_simp
  then have "\<forall>d \<in> set (line_col ds). \<not> js_space d"
    using parts line_col_chars(1) [of ds] space_no_digit by blast
  with parts char_sets(9) show ?thesis by blast
qed

lemma words_at_word:
  assumes "w \<noteq> []" and "\<forall>d \<in> set w. \<not> js_space d" and "pre = [] \<or> js_space (last pre)" and "post = [] \<or> js_space (hd post)"
  shows "(length pre, w) \<in> set (words_at 0 (pre @ w @ post))"
proof -
  have rest: "words_at i (w @ post) = (i, w) # words_at (i + length w) post" for i
  proof (cases post)
    case (Cons z r)
    then have "js_space z" using assms(4) by simp
    with words_at_space [of z i w r] show ?thesis by (simp add: Cons words_at_one [OF assms(1,2)])
  qed (simp add: words_at_one [OF assms(1,2)])
  show ?thesis
  proof (cases pre rule: rev_cases)
    case (snoc r z)
    then have "js_space z" using assms(3) by simp
    with words_at_space [of z 0 r "w @ post"] show ?thesis by (simp add: snoc rest)
  qed (simp add: rest)
qed

text \<open>C40. Every candidate is the text between its two positions and looks like a path; they come in order
  and apart. And no path is missed: whatever looks like a path and stands as a word of the text, between
  spaces or at an end of it, is found where it stands - bare, or in brackets, stars and quotes, with a
  line and a column after it, with punctuation after it. What \<open>dressed\<close> asks of the path itself: not
  quoted, a hash at its start is taken for punctuation (of \<open>#a/b\<close> only \<open>a/b\<close> is found); with neither a
  quote nor a position after it, so are full stops, commas and semicolons at its end (of \<open>a/..\<close> only
  \<open>a/\<close> is found).\<close>

theorem candidates_are_the_paths_of_the_text:
  "(\<forall>e \<in> set (extractPathCandidates text). cut_out text e \<and> path_like (ex_candidate e))
   \<and> sorted_wrt (\<lambda>e f. ex_end e < ex_start f) (extractPathCandidates text)
   \<and> (text = pre @ (lead @ q1 @ c @ line_col ds @ q2 @ trail) @ post
        \<and> (pre = [] \<or> js_space (last pre)) \<and> (post = [] \<or> js_space (hd post))
        \<and> path_like c \<and> dressed lead q1 c ds q2 trail \<longrightarrow>
        \<lparr>ex_candidate = c, ex_start = length (pre @ lead @ q1), ex_end = length (pre @ lead @ q1 @ c)\<rparr>
          \<in> set (extractPathCandidates text))"
proof (intro conjI impI ballI)
  fix e assume "e \<in> set (extractPathCandidates text)"
  then obtain i w where w: "(i, w) \<in> set (words_at 0 text)" "extract_word (i, w) = Some e"
    by (auto simp: extractPathCandidates_def in_map_filter)
  obtain a b where ab: "text = a @ w @ b" "i = length a" and plain: "\<forall>c \<in> set w. \<not> js_space c"
    using words_at_spot [of 0 "text"] w(1) by (fastforce simp: word_of_def)
  show "cut_out text e"
    by (rule extract_word_part [OF w(2)]) (simp add: ab cut_out_def slice_def)
  show "path_like (ex_candidate e)" by (rule extract_word_like [OF w(2) plain])
next
  have "ex_end e < ex_start f"
    if "extract_word t = Some e" "extract_word u = Some f" "fst t + length (snd t) < fst u" for t u e f
  proof -
    have parts: "extract_word (fst t, snd t) = Some e" "extract_word (fst u, snd u) = Some f" using that by simp_all
    obtain a b where "snd t = a @ ex_candidate e @ b" "ex_start e = fst t + length a" "ex_end e = ex_start e + length (ex_candidate e)"
      by (rule extract_word_part [OF parts(1)])
    moreover have "fst u \<le> ex_start f" by (rule extract_word_part [OF parts(2)]) simp
    ultimately show ?thesis using that(3) by simp
  qed
  then show "sorted_wrt (\<lambda>e f. ex_end e < ex_start f) (extractPathCandidates text)"
    unfolding extractPathCandidates_def by (rule map_filter_sorted [OF words_at_apart])
next
  let ?w = "lead @ q1 @ c @ line_col ds @ q2 @ trail"
  assume c: "text = pre @ ?w @ post \<and> (pre = [] \<or> js_space (last pre)) \<and> (post = [] \<or> js_space (hd post))
    \<and> path_like c \<and> dressed lead q1 c ds q2 trail"
  then have "?w \<noteq> []" "\<forall>d \<in> set ?w. \<not> js_space d"
    using path_like_plain dressed_no_space [of lead q1 c ds q2 trail] by auto
  from words_at_word [OF this] c have "(length pre, ?w) \<in> set (words_at 0 text)" by simp
  moreover from c have "extract_word (length pre, ?w) =
      Some \<lparr>ex_candidate = c, ex_start = length (pre @ lead @ q1), ex_end = length (pre @ lead @ q1 @ c)\<rparr>"
    using extract_dressed [of c lead q1 ds q2 trail "length pre"] by (simp add: add.assoc)
  ultimately show "\<lparr>ex_candidate = c, ex_start = length (pre @ lead @ q1), ex_end = length (pre @ lead @ q1 @ c)\<rparr>
      \<in> set (extractPathCandidates text)"
    unfolding extractPathCandidates_def in_map_filter by (rule bexI [rotated])
qed

lemma candidates_are_the_paths_of_the_text_witness:
  "\<lparr>ex_candidate = ''src/a.js'', ex_start = 4, ex_end = 12\<rparr> \<in> set (extractPathCandidates ''in (src/a.js:3:14), now'')"
proof -
  have "js_space (CHR '' '')" "path_like ''src/a.js''" "dressed ''('' [] ''src/a.js'' [''3'', ''14''] [] ''),''" by code_simp+
  then show ?thesis
    using candidates_are_the_paths_of_the_text [of "''in (src/a.js:3:14), now''" "''in ''" "''(''" "[]" "''src/a.js''"
        "[''3'', ''14'']" "[]" "''),''" "'' now''"]
    by (simp add: line_col_def eval_nat_numeral)
qed

end
