(* ===== verification/Spec2Isabelle.thy ===== *)
theory Spec2Isabelle
  imports Prelude Events TurnGrouping ReplaySlice Tools Bookmarks Parsers Visibility Blocks BlockFacts Accumulators Todos Ownership EventsReducer SessionFacts EventStream Sse MessageQueue QueueStore InputHistory GroupBlocks Tasks Cron SessionPanel TextKeys SessionRoutingFacts AnchorFacts ThreadSessionFacts SessionListFacts BookmarkStoreFacts BoardSlots BoardData SessionData PathCandidates
begin

text \<open>
  Claudebox: the browser front end of a service that runs coding agents in containers
  (\<open>src/src/claudebox_frontend/src\<close>). This is the root of a development about its core logic: how the
  stream of events of a session becomes the transcript, and the state machines around it - the
  connection, the queue of messages, the lists of sessions, bookmarks and tickets, the text being typed,
  the side threads. Paths below are relative to that directory; two Python modules that the front end
  writes to are modelled as far as it uses them.

  The program. A server sends the events of a session over SSE: first a replay of the stored log, then
  live events. \<open>managers/SSEConnectionManager.js\<close> keeps the connection up; \<open>context/EventsContext.jsx\<close>
  receives the messages, queues a replay and drains it in slices, and flushes live events in batches;
  \<open>context/utils/eventsReducer.js\<close> folds each batch into the session's state with the accumulators of
  \<open>utils/eventProcessing.js\<close>, which also turn the events of a turn into blocks; the chat view lays the
  blocks out (\<open>groupBlocks.js\<close>), hides some and routes some to a side slot; the message queue holds what
  the user types meanwhile. Around the chat are panels: the tree of sessions, bookmarks, tickets. Each
  reads its part over HTTP, shares requests in flight and shows a change before the server has it.

  The transcript.
  \<^item> \<open>Prelude\<close>: JavaScript values and string operations, lists updated by index, and the locale
    \<open>batch_fold\<close>, the contract of an accumulator whose value depends on the log and not on its batches.
  \<^item> \<open>Events\<close>: the event record, its vocabulary (\<open>config/schema.js\<close>) and predicates
    (\<open>utils/eventPredicates.js\<close>). \<open>Tools\<close>, \<open>Visibility\<close>: tool names, the static registry
    (\<open>config/toolRegistry.js\<close>), which calls are hidden or routed. \<open>Bookmarks\<close>: the id codec of
    \<open>utils/bookmarkIds.js\<close>. \<open>Parsers\<close>: system reminders and thinking segments.
  \<^item> \<open>TurnGrouping\<close>: \<open>appendTurns\<close>. \<open>ReplaySlice\<close>: \<open>context/utils/replaySlice.js\<close>. \<open>Accumulators\<close>: results,
    notifications, launches, labels; four interpretations of \<open>batch_fold\<close>. \<open>Todos\<close>: both todo pipelines
    over a heap of shared items (\<open>address\<close> stands for an object's identity); the fifth interpretation.
  \<^item> \<open>Ownership\<close>: creations, owner tags and pick buffers (\<open>utils/sessionOwnership.js\<close>,
    \<open>utils/pickBuffer.js\<close>). \<open>EventsReducer\<close>: the reducer, \<open>SessionFacts\<close>: what it guarantees in every
    reachable state. \<open>EventStream\<close>: message handling, replay drain and timers as the runs \<open>conn\<close>.
  \<^item> \<open>Blocks\<close>, \<open>BlockFacts\<close>: \<open>indexEvents\<close>, \<open>processEvents\<close>, \<open>processNestedEvents\<close>. \<open>GroupBlocks\<close>:
    \<open>groupBlocks.js\<close> and \<open>mergeWorkSegments.js\<close>. \<open>Tasks\<close>: the Tasks panel, retried questions, timing marks.

  Connection, input and routing.
  \<^item> \<open>Sse\<close>: the connection manager and its runs \<open>sse_steps\<close>. \<open>MessageQueue\<close>: the queue, with the locale
    \<open>send_queue\<close> (first in, first out over what may be sent) interpreted on it; \<open>QueueStore\<close>: the hook
    around it with local storage and sends in flight, \<open>hook_steps\<close>. \<open>Cron\<close>: cron expressions and their
    next fire.
  \<^item> \<open>InputHistory\<close>: the arrow keys and the cap on history. \<open>TextEdit\<close>, \<open>TextEditFacts\<close>: lines, list markers,
    indenting and wrapping in the input; \<open>BlockCollapse\<close>, \<open>BlockCollapseFacts\<close>: collapsing blocks in tags to
    placeholders and back before a message is sent; \<open>TextKeys\<close>: the key handler over both.
  \<^item> \<open>UrlPaths\<close>, \<open>UrlPathFacts\<close>: relative links and images of a message (\<open>utils/relativeUrl.js\<close>), with
    percent coding as UTF-8 bytes. \<open>PathCandidates\<close>: words that may be paths (\<open>utils/pathCandidates.js\<close>).
    \<open>SessionRouting\<close>, \<open>SessionRoutingFacts\<close>: the hash in the URL, its parser
    and every navigation, with the events the browser queues.

  Panels and threads.
  \<^item> \<open>SessionTree\<close>, \<open>SessionTreeFacts\<close>, \<open>SessionPanel\<close>: the tree of sessions, its rows, filters and badges
    (\<open>features/sessions\<close>). Its walks are \<open>partial_function (option)\<close>, with a proof that they return.
  \<^item> \<open>Anchor\<close>, \<open>AnchorFacts\<close>: quotes located in the text of a turn (\<open>anchor.js\<close>). \<open>ThreadEvents\<close>,
    \<open>ThreadEventFacts\<close>: the events of a side thread arranged by question. \<open>ThreadSessions\<close>,
    \<open>ThreadSessionFacts\<close>: asking in a thread, each await a stage, as runs \<open>thread_run\<close>.
  \<^item> \<open>SingleFlight\<close>: one request at a time per key, shared by those who ask meanwhile; the locale
    \<open>single_flight\<close> is interpreted on \<open>SessionList\<close> (\<open>context/SessionsContext.jsx\<close>, facts in
    \<open>SessionListFacts\<close>), \<open>BoardData\<close> (\<open>useBoardData.js\<close>) and \<open>SessionData\<close>
    (\<open>context/SessionDataContext.jsx\<close>). \<open>StorageGc\<close>: the sweep of local storage for dead sessions.
  \<^item> \<open>UiState\<close>: the store of interface state of the daemon (\<open>claudebox_daemon/domain/ui_state/service.py\<close>).
    \<open>BookmarkStore\<close>, \<open>BookmarkStoreFacts\<close>: the bookmarks of a tab (\<open>useBookmarks.js\<close>) and what they write to it.
  \<^item> \<open>BoardStore\<close>: the board file (\<open>extensions/tickets/parser.py\<close>). \<open>BoardDrag\<close>: drags and archives on a board
    (\<open>features/boards\<close>); \<open>BoardFacts\<close>, \<open>BoardSlots\<close>: what they do to the file.

  What the lemmas show. Grouping conserves events and does not depend on how a log is cut, whether live
  or replayed; the results, notifications, launches, labels, positions and running work of a session are
  views of the log, and so are, on logs of a stated shape, its turns and todo lists (with calls of the
  task tools the lists depend on how the log was cut,
  \<open>subagent_cleanup_depends_on_batching\<close>); tasks stay bound to their items as long as their
  agent's list lasts; requests in flight stay visible; owner tags resolve once and for all; failures are
  final and always shown; blocks pair calls with results and show each added text once, but for the
  kinds \<open>added_texts_conserved\<close> names; one connection at a time with a bounded backoff; no
  queued message is lost; the leaping cron search equals the search minute by minute. What is typed is
  what is sent, under the conditions of \<open>submit_sends_what_was_typed\<close>, each of which is
  needed; links parse back to what they were built for; images stay confined; anchors are found where
  they were captured; whatever is expanded, the tree keeps its sessions; who joins a request is settled;
  an unsaved pin survives every answer; the bookmarks shown are those saved; drags conserve tickets and
  take the slot they were dropped on. Some properties are of kind \<open>error\<close>: they prove what
  goes wrong, on every input of a shape the code does not expect.

  Conventions. State is a record per component, an absent value is \<open>None\<close>, an exception or a null result
  is \<open>None\<close> of the operation's result. Times and fresh ids (\<open>Date.now()\<close>, \<open>crypto.randomUUID()\<close>) are
  arguments. Strings are lists of 8-bit code units, numbers are integers. A \<open>Map\<close> whose order is observed is an
  association list, any other a HOL map. Callbacks the scheduler delivers (timers, ports, promises) are
  steps, taken in any order; an async function is cut at its awaits, and a request in flight is a number.
  What the browser or the file system decides (URL resolution, the path of a moved file) is a parameter.
  Fuel: only \<open>cron_search\<close> has it, and there it is the code's own loop limit.

  Not modelled: React components and hooks that only render or subscribe, the formatters of display text
  (over a third-party differ), API wrappers, floating-point jitter of cron fires, the docking library and
  its layout, scrolling and selection in the DOM, the rest of the Python services, the scripts that audit
  the repository, and the tests.
\<close>

end
